(* ===== verification/Prelude.thy ===== *)
theory Prelude
  imports Main "HOL-Library.Word"
begin

text \<open>
  Shared vocabulary of the development: the machine integers of the C code, the value type of
  PostgreSQL errors, C strings in fixed-size buffers, and the generic lemmas on words and lists
  the components share. The lemmas that carry the ring-buffer arithmetic are in the collection
  \<open>ring_simps\<close>, the ones about buffers in \<open>cstr_simps\<close>.
\<close>

unbundle bit_operations_syntax

named_theorems ring_simps "masked indices of power-of-two ring buffers"
named_theorems cstr_simps "NUL-terminated strings in fixed-size buffers"

section \<open>Machine integers\<close>

type_synonym u8 = "8 word"
type_synonym u16 = "16 word"
type_synonym u32 = "32 word"
type_synonym u64 = "64 word"

text \<open>
  A signed 64-bit value (\<open>TimestampTz\<close>, \<open>int64\<close>) is kept as the same 64 bits; a signed
  comparison reads them with \<open>sint\<close>, an unsigned one compares the words.
\<close>

type_synonym i64 = "64 word"

definition s_le64 :: "i64 \<Rightarrow> i64 \<Rightarrow> bool" where
  "s_le64 a b \<longleftrightarrow> sint a \<le> sint b"

text \<open>\<open>UINT32_MAX\<close> is the all-ones word.\<close>

abbreviation UINT32_MAX :: u32 where
  "UINT32_MAX \<equiv> - 1"

section \<open>Errors\<close>

text \<open>
  \<open>ereport(ERROR, ...)\<close> leaves the function by a non-local jump: an operation that can raise
  returns \<open>Inl\<close> of one of these values. One constructor per \<open>ereport\<close> site of the modelled
  code, with the data the message reports.
\<close>

datatype fga_error =
    ArgNull string                  \<comment> \<open>"%s argument must not be NULL"\<close>
  | ArgEmpty string                 \<comment> \<open>"%s argument must not be empty"\<close>
  | StoreIdNotConfigured            \<comment> \<open>"store_id is not configured"\<close>
  | SlotPoolExhausted               \<comment> \<open>"channel slot pool exhausted"\<close>
  | EnqueueFailed                   \<comment> \<open>"failed to enqueue channel slot"\<close>
  | RequestCanceled                 \<comment> \<open>"request was canceled"\<close>
  | QueryInterrupted                \<comment> \<open>raised by \<open>CHECK_FOR_INTERRUPTS\<close>\<close>
  | L2IndexOutOfMemory              \<comment> \<open>"could not allocate L2 cache index entry"\<close>
  | WriteTupleFailed string
  | DeleteTupleFailed string
  | CreateStoreFailed string string
  | DeleteStoreFailed string string
  | StoreNameNull
  | NotRowContext

text \<open>
  How a call that may wait ends: it returns, raises an error, still waits, or the process crashes
  (a null pointer is dereferenced).
\<close>

datatype 'a outcome = Return 'a | Raise fga_error | Waiting | Crash

section \<open>Words and masks\<close>

lemma unat_and_mask:
  fixes x m :: "'a::len word"
  assumes "unat m = 2 ^ n - 1"
  shows "unat (x AND m) = unat x mod 2 ^ n"
proof -
  have "unat (x AND m) = unat x AND unat m"
    by (simp add: unsigned_and_eq)
  also have "\<dots> = take_bit n (unat x)"
    by (simp add: assms take_bit_eq_mask mask_eq_exp_minus_1)
  finally show ?thesis
    by (simp add: take_bit_eq_mod)
qed

lemma mod_eq_close:
  fixes i j k c :: nat
  assumes "(k + i) mod c = (k + j) mod c" and "i < c" and "j < c"
  shows "i = j"
proof -
  have "(int k + int i) mod int c = (int k + int j) mod int c"
    using assms(1) by (metis of_nat_add of_nat_mod)
  then have "int c dvd (int i - int j)"
    by (simp add: mod_eq_dvd_iff)
  moreover have "\<bar>int i - int j\<bar> < int c"
    using assms(2,3) by linarith
  ultimately have "int i - int j = 0"
    using zdvd_imp_le by (metis abs_ge_zero dvd_abs_iff less_le_not_le linorder_neqE_linordered_idom
        zero_less_abs_iff)
  then show ?thesis by simp
qed

lemma unat_add_mod_pow2:
  fixes x y :: "'a::len word"
  assumes "n \<le> LENGTH('a)"
  shows "unat (x + y) mod 2 ^ n = (unat x + unat y) mod 2 ^ n"
  using assms by (simp add: unat_word_ariths le_imp_power_dvd mod_mod_cancel)

lemma unat_Suc_less:
  fixes n m :: "'a::len word"
  assumes "n < m"
  shows "unat (n + 1) = Suc (unat n)"
proof -
  have "unat n < unat m" using assms by (simp add: word_less_nat_alt)
  moreover have "unat m < 2 ^ LENGTH('a)" by (rule unsigned_less)
  ultimately have "unat n + 1 < 2 ^ LENGTH('a)" by linarith
  then show ?thesis by (simp add: unat_word_ariths)
qed

section \<open>Lists\<close>

lemma map_nth_upt_Suc:
  "map f [0..<Suc n] = f 0 # map (\<lambda>i. f (Suc i)) [0..<n]"
  by (simp add: upt_conv_Cons map_Suc_upt [symmetric] comp_def del: upt_Suc)

lemma sum_list_update_less:
  fixes f :: "'a \<Rightarrow> nat"
  assumes "i < length xs" and "f x < f (xs ! i)"
  shows "(\<Sum>y \<leftarrow> xs[i := x]. f y) < (\<Sum>y \<leftarrow> xs. f y)"
  using assms
proof (induction xs arbitrary: i)
  case Nil
  then show ?case by simp
next
  case (Cons y ys)
  then show ?case by (cases i) auto
qed

section \<open>C strings in fixed-size buffers\<close>

text \<open>
  A \<open>char[n]\<close> buffer is a list of \<open>n\<close> bytes. \<open>c_str\<close> reads the string it holds, up to the
  first NUL. \<open>strlcpy\<close> is the C library's: it copies at most \<open>length dst - 1\<close> bytes of the
  string and terminates it, leaving the bytes after the NUL as they were.
\<close>

abbreviation NUL :: char where
  "NUL \<equiv> CHR 0x00"

definition c_str :: "char list \<Rightarrow> string" where
  "c_str buf = takeWhile (\<lambda>c. c \<noteq> NUL) buf"

definition copy_terminated :: "char list \<Rightarrow> char list \<Rightarrow> char list" where
  "copy_terminated dst bytes = bytes @ NUL # drop (Suc (length bytes)) dst"

definition strlcpy :: "char list \<Rightarrow> char list \<Rightarrow> char list" where
  "strlcpy dst src =
     (if dst = [] then dst else copy_terminated dst (take (length dst - 1) (c_str src)))"

lemma length_copy_terminated [simp]:
  "length bytes < length dst \<Longrightarrow> length (copy_terminated dst bytes) = length dst"
  by (simp add: copy_terminated_def)

lemma c_str_copy_terminated [cstr_simps]:
  "NUL \<notin> set bytes \<Longrightarrow> c_str (copy_terminated dst bytes) = bytes"
proof -
  assume "NUL \<notin> set bytes"
  then have "\<And>c. c \<in> set bytes \<Longrightarrow> c \<noteq> NUL" by metis
  then show ?thesis by (simp add: c_str_def copy_terminated_def)
qed

lemma c_str_no_NUL [simp]: "NUL \<notin> set (c_str s)"
  by (auto simp: c_str_def dest: set_takeWhileD)

lemma NUL_notin_take [simp]: "NUL \<notin> set s \<Longrightarrow> NUL \<notin> set (take n s)"
  by (auto dest: in_set_takeD)

lemma c_str_id [cstr_simps]: "NUL \<notin> set s \<Longrightarrow> c_str s = s"
  by (auto simp: c_str_def takeWhile_eq_all_conv)

lemma length_strlcpy [simp]: "length (strlcpy dst src) = length dst"
  by (cases dst) (simp_all add: strlcpy_def min_def)

lemma c_str_strlcpy [cstr_simps]:
  "dst \<noteq> [] \<Longrightarrow> c_str (strlcpy dst src) = take (length dst - 1) (c_str src)"
  by (simp add: strlcpy_def c_str_copy_terminated)

end
