(* ===== verification/Slot_Queue.thy ===== *)
theory Slot_Queue
  imports Prelude
begin

text \<open>
  The request queue of \<open>src/channel_slot.h\<close>: one ring buffer of slot indices with free running
  16-bit counters, guarded by the channel's queue lock. The capacity is a power of two, so a
  counter is turned into an index by a mask; the counters themselves wrap at \<open>2 ^ 16\<close>.

  The interface the channel relies on is the locale \<open>fifo\<close> (a bounded FIFO over an abstraction
  function into lists); the ring buffer is shown to implement it, with \<open>queue_list\<close> as the
  abstraction and \<open>queue_wf\<close> as the invariant.
\<close>

section \<open>The ring buffer of channel_slot.h\<close>

record FgaChannelSlotQueue =
  q_mask :: u16
  q_head :: u16
  q_tail :: u16
  q_values :: "u16 list"

definition queue_init :: "FgaChannelSlotQueue \<Rightarrow> u16 \<Rightarrow> FgaChannelSlotQueue" where
  "queue_init q capacity = q\<lparr>q_mask := capacity - 1, q_head := 0, q_tail := 0\<rparr>"

definition queue_size :: "FgaChannelSlotQueue \<Rightarrow> u16" where
  "queue_size q = (q_head q - q_tail q) AND q_mask q"

definition queue_is_empty :: "FgaChannelSlotQueue \<Rightarrow> bool" where
  "queue_is_empty q \<longleftrightarrow> q_head q = q_tail q"

definition queue_is_full :: "FgaChannelSlotQueue \<Rightarrow> bool" where
  "queue_is_full q \<longleftrightarrow> queue_size q = q_mask q"

definition queue_available :: "FgaChannelSlotQueue \<Rightarrow> u16" where
  "queue_available q = (let capacity = q_mask q + 1 in (capacity - 1) - queue_size q)"

definition queue_enqueue :: "FgaChannelSlotQueue \<Rightarrow> u16 \<Rightarrow> bool \<times> FgaChannelSlotQueue" where
  "queue_enqueue q slot_index =
     (if queue_is_full q then (False, q)
      else (True, q\<lparr>q_values := (q_values q)[unat (q_head q AND q_mask q) := slot_index],
                    q_head := q_head q + 1\<rparr>))"

text \<open>\<open>None\<close> is the result \<open>false\<close>; otherwise the value written to \<open>*out_slot\<close> is returned.\<close>

definition queue_dequeue :: "FgaChannelSlotQueue \<Rightarrow> u16 option \<times> FgaChannelSlotQueue" where
  "queue_dequeue q =
     (if queue_is_empty q then (None, q)
      else (Some (q_values q ! unat (q_tail q AND q_mask q)), q\<lparr>q_tail := q_tail q + 1\<rparr>))"

text \<open>
  The loop of \<open>queue_drain\<close>, with the loop counter \<open>n\<close> and the values written to
  \<open>out_values[0..n)\<close> so far.
\<close>

function queue_drain_loop ::
  "FgaChannelSlotQueue \<Rightarrow> u32 \<Rightarrow> u32 \<Rightarrow> u32 list \<Rightarrow> u32 list \<times> FgaChannelSlotQueue" where
  "queue_drain_loop q max_count n out_values =
     (if n < max_count \<and> \<not> queue_is_empty q
      then queue_drain_loop (q\<lparr>q_tail := q_tail q + 1\<rparr>) max_count (n + 1)
             (out_values @ [ucast (q_values q ! unat (q_tail q AND q_mask q))])
      else (out_values, q))"
  by pat_completeness auto
termination
  by (relation "measure (\<lambda>(q, max_count, n, out). unat max_count - unat n)")
    (auto simp: unat_Suc_less word_less_nat_alt intro: diff_less_mono2)

declare queue_drain_loop.simps [simp del]

definition queue_drain :: "FgaChannelSlotQueue \<Rightarrow> u32 \<Rightarrow> u32 list \<times> FgaChannelSlotQueue" where
  "queue_drain q max_count = queue_drain_loop q max_count 0 []"

definition queue_peek :: "FgaChannelSlotQueue \<Rightarrow> u16 \<Rightarrow> u16 option" where
  "queue_peek q index =
     (if queue_size q \<le> index then None
      else Some (q_values q ! unat ((q_tail q + index) AND q_mask q)))"

section \<open>Invariant and abstraction\<close>

text \<open>
  The capacity is a power of two, the value array has that many cells, and the counters are
  less than a capacity apart. \<open>queue_capacity\<close> is the number of elements the queue can hold:
  one less than the number of cells.
\<close>

definition queue_wf :: "FgaChannelSlotQueue \<Rightarrow> bool" where
  "queue_wf q \<longleftrightarrow>
     (\<exists>n \<in> set [0..<17]. unat (q_mask q) = 2 ^ n - 1) \<and>
     length (q_values q) = unat (q_mask q) + 1 \<and>
     q_head q - q_tail q \<le> q_mask q"

definition queue_capacity :: "FgaChannelSlotQueue \<Rightarrow> nat" where
  "queue_capacity q = unat (q_mask q)"

definition queue_list :: "FgaChannelSlotQueue \<Rightarrow> u16 list" where
  "queue_list q =
     map (\<lambda>i. q_values q ! unat ((q_tail q + of_nat i) AND q_mask q))
       [0..<unat (q_head q - q_tail q)]"

lemma queue_wfE:
  assumes "queue_wf q"
  obtains n where "n \<le> 16" and "unat (q_mask q) = 2 ^ n - 1"
    and "length (q_values q) = 2 ^ n" and "unat (q_head q - q_tail q) < 2 ^ n"
proof -
  from assms obtain n where n: "n < 17" "unat (q_mask q) = 2 ^ n - 1"
    and len: "length (q_values q) = unat (q_mask q) + 1"
    and le: "unat (q_head q - q_tail q) \<le> unat (q_mask q)"
    by (auto simp: queue_wf_def word_le_nat_alt)
  have pos: "(0::nat) < 2 ^ n" by simp
  have l: "length (q_values q) = 2 ^ n" using len n(2) pos by linarith
  have d: "unat (q_head q - q_tail q) < 2 ^ n" using le n(2) pos by linarith
  show thesis
    by (rule that [of n]) (use n l d in simp_all)
qed

lemma ring_index [ring_simps]:
  fixes t m :: u16
  assumes "unat m = 2 ^ n - 1" and "n \<le> 16"
  shows "unat ((t + of_nat i) AND m) = (unat t + i) mod 2 ^ n"
proof -
  have dvd: "(2::nat) ^ n dvd 2 ^ 16"
    using assms(2) by (rule le_imp_power_dvd)
  have "unat ((t + of_nat i) AND m) = unat (t + of_nat i) mod 2 ^ n"
    by (rule unat_and_mask [OF assms(1)])
  also have "\<dots> = (unat t + unat (of_nat i :: u16)) mod 2 ^ n"
    by (rule unat_add_mod_pow2) (use assms(2) in simp)
  also have "\<dots> = (unat t + i mod 2 ^ 16) mod 2 ^ n"
    by (simp add: unat_of_nat)
  also have "\<dots> = (unat t + i) mod 2 ^ n"
    using dvd by (metis mod_add_right_eq mod_mod_cancel)
  finally show ?thesis .
qed

lemma queue_size_diff: "queue_wf q \<Longrightarrow> queue_size q = q_head q - q_tail q"
  by (elim queue_wfE) (simp add: queue_size_def word_unat_eq_iff unat_and_mask)

lemma length_queue_list: "queue_wf q \<Longrightarrow> length (queue_list q) = unat (queue_size q)"
  by (simp add: queue_list_def queue_size_diff)

lemma queue_size_capacity: "queue_wf q \<Longrightarrow> unat (queue_size q) \<le> queue_capacity q"
  by (simp add: queue_size_diff queue_capacity_def queue_wf_def word_le_nat_alt)

lemma queue_is_empty_list: "queue_wf q \<Longrightarrow> queue_is_empty q \<longleftrightarrow> queue_list q = []"
  by (simp add: queue_is_empty_def queue_list_def unat_eq_zero)

lemma queue_is_full_list:
  "queue_wf q \<Longrightarrow> queue_is_full q \<longleftrightarrow> length (queue_list q) = queue_capacity q"
  by (simp add: queue_is_full_def length_queue_list queue_capacity_def word_unat_eq_iff)

lemma queue_list_enqueue:
  fixes x :: u16
  assumes wf: "queue_wf q" and room: "\<not> queue_is_full q"
  defines "q' \<equiv> snd (queue_enqueue q x)"
  shows "queue_wf q' \<and> queue_list q' = queue_list q @ [x]"
proof -
  from wf obtain n where n: "n \<le> 16" "unat (q_mask q) = 2 ^ n - 1"
    and len: "length (q_values q) = 2 ^ n" and d: "unat (q_head q - q_tail q) < 2 ^ n"
    by (rule queue_wfE)
  let ?d = "unat (q_head q - q_tail q)"
  have lt: "q_head q - q_tail q < q_mask q"
    using wf room by (auto simp: queue_is_full_def queue_size_diff queue_wf_def le_neq_trans)
  have diff: "q_head q + 1 - q_tail q = q_head q - q_tail q + 1" by simp
  have Suc_d: "unat (q_head q + 1 - q_tail q) = Suc ?d"
    unfolding diff by (rule unat_Suc_less [OF lt])
  have head: "q_head q = q_tail q + of_nat ?d" by simp
  have head_index: "unat (q_head q AND q_mask q) = (unat (q_tail q) + ?d) mod 2 ^ n"
    by (subst head) (rule ring_index [OF n(2,1)])
  have neq: "unat ((q_tail q + of_nat i) AND q_mask q) \<noteq> unat (q_head q AND q_mask q)"
    if "i < ?d" for i
    using that d mod_eq_close [of "unat (q_tail q)" i "2 ^ n" ?d]
    by (auto simp: ring_index [OF n(2,1)] head_index)
  have q': "q' = q\<lparr>q_values := (q_values q)[unat (q_head q AND q_mask q) := x],
                 q_head := q_head q + 1\<rparr>"
    using room by (simp add: q'_def queue_enqueue_def)
  have "queue_wf q'"
    using wf lt Suc_d by (simp add: q' queue_wf_def word_le_nat_alt word_less_nat_alt)
  moreover have "queue_list q' = queue_list q @ [x]"
    using neq [unfolded head_index, THEN not_sym] len
    by (auto simp: q' queue_list_def Suc_d head [symmetric] head_index)
  ultimately show ?thesis ..
qed

lemma queue_list_tail:
  assumes wf: "queue_wf q" and ne: "\<not> queue_is_empty q"
  defines "q' \<equiv> q\<lparr>q_tail := q_tail q + 1\<rparr>"
  shows "queue_wf q' \<and> queue_list q = q_values q ! unat (q_tail q AND q_mask q) # queue_list q'"
proof -
  have ne': "q_head q - q_tail q \<noteq> 0" using ne by (simp add: queue_is_empty_def)
  then have "0 < unat (q_head q - q_tail q)" by (simp add: unat_gt_0)
  moreover have "unat (q_head q - (q_tail q + 1)) = unat (q_head q - q_tail q) - 1"
    using unat_minus_one [OF ne'] by (simp add: diff_diff_eq)
  ultimately have Suc_d: "unat (q_head q - q_tail q) = Suc (unat (q_head q - (q_tail q + 1)))"
    by linarith
  have "queue_wf q'"
    using wf Suc_d by (simp add: q'_def queue_wf_def word_le_nat_alt)
  then show ?thesis
    by (simp add: q'_def queue_list_def Suc_d map_nth_upt_Suc add.assoc del: upt_Suc)
qed

lemma queue_dequeue_cases:
  assumes "queue_wf q" and "queue_dequeue q = (r, q')"
  shows "queue_wf q' \<and> queue_capacity q' = queue_capacity q \<and>
    (case r of None \<Rightarrow> queue_list q = [] \<and> q' = q | Some x \<Rightarrow> queue_list q = x # queue_list q')"
  using assms queue_list_tail [of q]
  by (auto simp: queue_dequeue_def queue_is_empty_list queue_capacity_def split: if_splits)

lemma queue_enqueue_cases:
  assumes "queue_wf q" and "queue_enqueue q x = (b, q')"
  shows "queue_wf q' \<and> queue_capacity q' = queue_capacity q \<and>
    b = (length (queue_list q) < queue_capacity q) \<and>
    queue_list q' = (if b then queue_list q @ [x] else queue_list q)"
proof (cases "queue_is_full q")
  case True
  then have "\<not> length (queue_list q) < queue_capacity q"
    using assms(1) by (simp add: queue_is_full_list)
  with True assms show ?thesis by (simp add: queue_enqueue_def)
next
  case False
  have "length (queue_list q) < queue_capacity q"
    using False assms(1) queue_size_capacity [OF assms(1)]
    by (simp add: queue_is_full_list length_queue_list)
  moreover have "b \<and> queue_capacity q' = queue_capacity q"
    using assms(2) False by (auto simp: queue_enqueue_def queue_capacity_def)
  moreover have "q' = snd (queue_enqueue q x)" using assms(2) by simp
  ultimately show ?thesis using queue_list_enqueue [OF assms(1) False, of x] by simp
qed

lemma queue_drain_loop_list:
  assumes "queue_wf q" and "n \<le> max_count"
  shows "queue_drain_loop q max_count n out = (out', q') \<Longrightarrow>
    queue_wf q' \<and> queue_capacity q' = queue_capacity q \<and>
    out' = out @ map ucast (take (unat max_count - unat n) (queue_list q)) \<and>
    queue_list q' = drop (unat max_count - unat n) (queue_list q)"
  using assms
proof (induction q max_count n out arbitrary: out' q' rule: queue_drain_loop.induct)
  case (1 q max_count n out)
  show ?case
  proof (cases "n < max_count \<and> \<not> queue_is_empty q")
    case True
    let ?q1 = "q\<lparr>q_tail := q_tail q + 1\<rparr>"
    let ?x = "q_values q ! unat (q_tail q AND q_mask q)"
    have Suc_n: "unat (n + 1) = Suc (unat n)"
      using True by (simp add: unat_Suc_less [of n max_count])
    have le: "n + 1 \<le> max_count"
      using True Suc_n by (simp add: word_le_nat_alt word_less_nat_alt)
    have q1: "queue_wf ?q1 \<and> queue_list q = ?x # queue_list ?q1"
      using True "1.prems"(2) by (intro queue_list_tail) simp_all
    have eq: "queue_drain_loop ?q1 max_count (n + 1) (out @ [ucast ?x]) = (out', q')"
      using True "1.prems"(1) by (simp add: queue_drain_loop.simps [of q])
    have "queue_wf q' \<and> queue_capacity q' = queue_capacity ?q1 \<and>
      out' = (out @ [ucast ?x]) @
        map ucast (take (unat max_count - unat (n + 1)) (queue_list ?q1)) \<and>
      queue_list q' = drop (unat max_count - unat (n + 1)) (queue_list ?q1)"
      using "1.IH" [OF True eq] q1 le by blast
    moreover have "unat max_count - unat n = Suc (unat max_count - unat (n + 1))"
      using True Suc_n by (auto simp: word_less_nat_alt)
    ultimately show ?thesis using q1 by (simp add: queue_capacity_def)
  next
    case False
    then have "out' = out \<and> q' = q" using "1.prems"(1) by (auto simp: queue_drain_loop.simps [of q max_count n out] split: if_splits)
    moreover have "unat max_count - unat n = 0 \<or> queue_list q = []"
      using False "1.prems"(2) by (auto simp: word_less_nat_alt queue_is_empty_list)
    ultimately show ?thesis using "1.prems"(2) by auto
  qed
qed

section \<open>The bounded FIFO interface\<close>

text \<open>
  What the channel relies on: an enqueue succeeds exactly when there is room and then appends,
  a dequeue removes the oldest element, and neither changes the capacity. \<open>fifo_run\<close> runs a
  sequence of operations, collecting the accepted and the delivered elements.
\<close>

datatype 'a fifo_op = Enq 'a | Deq

fun fifo_run ::
  "('q \<Rightarrow> 'a \<Rightarrow> bool \<times> 'q) \<Rightarrow> ('q \<Rightarrow> 'a option \<times> 'q) \<Rightarrow> 'a fifo_op list \<Rightarrow> 'q
    \<Rightarrow> 'a list \<times> 'a list \<times> 'q" where
  "fifo_run enq deq [] q = ([], [], q)"
| "fifo_run enq deq (Enq x # ops) q =
     (case enq q x of (b, q1) \<Rightarrow>
      case fifo_run enq deq ops q1 of (acc, del, q2) \<Rightarrow> (if b then x # acc else acc, del, q2))"
| "fifo_run enq deq (Deq # ops) q =
     (case deq q of (r, q1) \<Rightarrow>
      case fifo_run enq deq ops q1 of (acc, del, q2) \<Rightarrow>
        (acc, (case r of None \<Rightarrow> del | Some x \<Rightarrow> x # del), q2))"

locale fifo =
  fixes inv :: "'q \<Rightarrow> bool"
    and lst :: "'q \<Rightarrow> 'a list"
    and cap :: "'q \<Rightarrow> nat"
    and enq :: "'q \<Rightarrow> 'a \<Rightarrow> bool \<times> 'q"
    and deq :: "'q \<Rightarrow> 'a option \<times> 'q"
  assumes bounded: "inv q \<Longrightarrow> length (lst q) \<le> cap q"
    and enq_spec: "inv q \<Longrightarrow> enq q x = (b, q') \<Longrightarrow> inv q' \<and> cap q' = cap q \<and>
      b = (length (lst q) < cap q) \<and> lst q' = (if b then lst q @ [x] else lst q)"
    and deq_spec: "inv q \<Longrightarrow> deq q = (r, q') \<Longrightarrow> inv q' \<and> cap q' = cap q \<and>
      (case r of None \<Rightarrow> lst q = [] \<and> q' = q | Some x \<Rightarrow> lst q = x # lst q')"
begin

lemma run_conserves:
  "inv q \<Longrightarrow> fifo_run enq deq ops q = (acc, del, q') \<Longrightarrow>
    inv q' \<and> cap q' = cap q \<and> lst q @ acc = del @ lst q'"
proof (induction ops arbitrary: q acc del q')
  case Nil
  then show ?case by simp
next
  case (Cons opn ops)
  show ?case
  proof (cases opn)
    case (Enq x)
    obtain b q1 where e: "enq q x = (b, q1)" by fastforce
    obtain acc1 del1 q2 where r: "fifo_run enq deq ops q1 = (acc1, del1, q2)"
      by (metis prod_cases3)
    have s: "inv q1 \<and> cap q1 = cap q \<and> lst q1 = (if b then lst q @ [x] else lst q)"
      using enq_spec [OF Cons.prems(1) e] by blast
    have "inv q2 \<and> cap q2 = cap q1 \<and> lst q1 @ acc1 = del1 @ lst q2"
      using Cons.IH r s by blast
    with s show ?thesis using Cons.prems(2) by (auto simp: Enq e r split: if_splits)
  next
    case Deq
    obtain x q1 where e: "deq q = (x, q1)" by fastforce
    obtain acc1 del1 q2 where r: "fifo_run enq deq ops q1 = (acc1, del1, q2)"
      by (metis prod_cases3)
    note s = deq_spec [OF Cons.prems(1) e]
    then have "inv q2 \<and> cap q2 = cap q1 \<and> lst q1 @ acc1 = del1 @ lst q2"
      using Cons.IH r by blast
    with s show ?thesis using Cons.prems(2) by (auto simp: Deq e r split: option.splits)
  qed
qed

lemma enq_room: "inv q \<Longrightarrow> fst (enq q x) \<longleftrightarrow> length (lst q) < cap q"
  using enq_spec [of q x] by (metis prod.collapse)

end

interpretation slot_queue: fifo queue_wf queue_list queue_capacity queue_enqueue queue_dequeue
proof (unfold_locales, goal_cases)
  case 1 then show ?case by (simp add: length_queue_list queue_size_capacity)
next
  case 2 then show ?case by (rule queue_enqueue_cases)
next
  case 3 then show ?case by (rule queue_dequeue_cases)
qed

section \<open>Properties\<close>

text \<open>C17: Over any sequence of enqueues and dequeues on a well-formed queue, the slot indices
  delivered are exactly the ones held at the start followed by the accepted ones, in order: the
  rest is still in the queue. No index is lost, duplicated or reordered, also when the 16-bit
  counters wrap.\<close>

theorem queue_fifo_order:
  assumes "queue_wf q" and "fifo_run queue_enqueue queue_dequeue ops q = (acc, del, q')"
  shows "queue_wf q' \<and> queue_capacity q' = queue_capacity q \<and>
    queue_list q @ acc = del @ queue_list q'"
  using slot_queue.run_conserves [OF assms] .

text \<open>A four-cell queue whose counters are about to wrap, holding slots 7 and 8.\<close>

definition example_queue :: FgaChannelSlotQueue where
  "example_queue = \<lparr>q_mask = 3, q_head = 0, q_tail = 65534, q_values = [1, 2, 7, 8]\<rparr>"

lemma example_queue_wf: "queue_wf example_queue"
  by code_simp

theorem queue_fifo_order_witness:
  "fifo_run queue_enqueue queue_dequeue [Enq 5, Enq 6, Deq, Deq] example_queue =
     ([5], [7, 8], \<lparr>q_mask = 3, q_head = 1, q_tail = 0, q_values = [5, 2, 7, 8]\<rparr>) \<and>
   queue_list example_queue @ [5] =
     [7, 8] @ queue_list \<lparr>q_mask = 3, q_head = 1, q_tail = 0, q_values = [5, 2, 7, 8]\<rparr>"
proof -
  have run: "fifo_run queue_enqueue queue_dequeue [Enq 5, Enq 6, Deq, Deq] example_queue =
     ([5], [7, 8], \<lparr>q_mask = 3, q_head = 1, q_tail = 0, q_values = [5, 2, 7, 8]\<rparr>)"
    by (simp add: queue_enqueue_def queue_dequeue_def queue_is_full_def queue_is_empty_def
        queue_size_def example_queue_def)
  with queue_fifo_order [OF example_queue_wf run] show ?thesis by blast
qed

text \<open>\<open>queue_drain\<close> hands out the oldest \<open>min max_count size\<close> indices, in order, and leaves the
  others in the queue.\<close>

lemma queue_drain_prefix:
  assumes "queue_wf q" and "queue_drain q max_count = (out, q')"
  shows "queue_wf q' \<and> out = map ucast (take (unat max_count) (queue_list q)) \<and>
    queue_list q' = drop (unat max_count) (queue_list q)"
  using queue_drain_loop_list [of q 0 max_count "[]" out q'] assms by (simp add: queue_drain_def)

text \<open>\<open>queue_peek\<close> reads the element at a position counted from the oldest one and reports
  failure exactly for positions past the end, and \<open>queue_available\<close> is the number of further
  enqueues that will be accepted.\<close>

theorem queue_peek_available:
  assumes wf: "queue_wf q"
  shows "queue_peek q i =
      (if unat i < length (queue_list q) then Some (queue_list q ! unat i) else None) \<and>
    unat (queue_available q) = queue_capacity q - length (queue_list q)"
proof
  show "queue_peek q i =
      (if unat i < length (queue_list q) then Some (queue_list q ! unat i) else None)"
    using length_queue_list [OF wf] queue_size_diff [OF wf]
    by (simp add: queue_peek_def word_le_nat_alt queue_list_def)
  have "queue_size q \<le> q_mask q" using wf by (simp add: queue_size_diff queue_wf_def)
  then show "unat (queue_available q) = queue_capacity q - length (queue_list q)"
    by (simp add: queue_available_def Let_def length_queue_list [OF wf] queue_capacity_def
        unat_sub)
qed

theorem queue_peek_available_witness:
  "queue_wf example_queue \<and> queue_peek example_queue 1 = Some 8 \<and>
   queue_peek example_queue 2 = None \<and> unat (queue_available example_queue) = 1"
proof -
  have l: "queue_list example_queue = [7, 8]"
    by code_simp
  have c: "queue_capacity example_queue = 3"
    by (simp add: queue_capacity_def example_queue_def)
  show ?thesis
    using queue_peek_available [OF example_queue_wf, of 1] l c
      queue_peek_available [OF example_queue_wf, of 2] example_queue_wf by simp
qed

text \<open>\<open>queue_init\<close> with a power-of-two capacity, on a value array with that many cells, gives
  an empty well-formed queue that can hold one element less than its capacity, as the comment
  in the code says.\<close>

theorem queue_init_empty:
  assumes "n \<le> 15" and "length (q_values q) = 2 ^ n"
  shows "queue_wf (queue_init q (2 ^ n)) \<and> queue_list (queue_init q (2 ^ n)) = [] \<and>
    queue_capacity (queue_init q (2 ^ n)) = 2 ^ n - 1"
proof -
  have "unat ((2::u16) ^ n - 1) = 2 ^ n - 1"
  proof -
    have "unat ((2::u16) ^ n) = 2 ^ n"
      using assms(1) unat_of_nat [of "2 ^ n", where ?'a = 16]
        power_strict_increasing [of n 16 "2::nat"] by simp
    moreover have "(1::u16) \<le> 2 ^ n"
      using assms(1) calculation by (simp add: word_le_nat_alt)
    ultimately show ?thesis by (simp add: unat_sub)
  qed
  with assms show ?thesis
    by (auto simp: queue_wf_def queue_init_def queue_list_def queue_capacity_def)
qed

theorem queue_init_empty_witness:
  "(10::nat) \<le> 15 \<and>
   queue_capacity (queue_init (example_queue\<lparr>q_values := replicate 1024 0\<rparr>) (2 ^ 10)) = 1023"
  using queue_init_empty [of 10 "example_queue\<lparr>q_values := replicate 1024 0\<rparr>"] by simp

end
