(* ===== verification/Payload.thy ===== *)
theory Payload
  imports Prelude
begin

text \<open>
  The wire format of \<open>src/payload.h\<close> and \<open>src/postfga.h\<close>: the tuple, the request and the
  response a slot carries. A \<open>char[n]\<close> member is a list of \<open>n\<close> bytes; the \<open>union\<close> members
  are the raw bytes of the union, read and written through the views below, so that writing
  one member and reading another means what it means in C.
\<close>

section \<open>Constants\<close>

abbreviation OBJECT_TYPE_MAX_LEN :: nat where "OBJECT_TYPE_MAX_LEN \<equiv> 64"
abbreviation OBJECT_ID_MAX_LEN :: nat where "OBJECT_ID_MAX_LEN \<equiv> 64"
abbreviation SUBJECT_TYPE_MAX_LEN :: nat where "SUBJECT_TYPE_MAX_LEN \<equiv> 64"
abbreviation SUBJECT_ID_MAX_LEN :: nat where "SUBJECT_ID_MAX_LEN \<equiv> 64"
abbreviation RELATION_MAX_LEN :: nat where "RELATION_MAX_LEN \<equiv> 64"
abbreviation OPENFGA_STORE_ID_LEN :: nat where "OPENFGA_STORE_ID_LEN \<equiv> 64"
abbreviation OPENFGA_STORE_NAME_LEN :: nat where "OPENFGA_STORE_NAME_LEN \<equiv> 64"
abbreviation OPENFGA_MODEL_ID_LEN :: nat where "OPENFGA_MODEL_ID_LEN \<equiv> 64"
abbreviation FGA_RESPONSE_ERROR_MESSAGE_LEN :: nat where "FGA_RESPONSE_ERROR_MESSAGE_LEN \<equiv> 128"

text \<open>The sizes of the two unions: five 64-byte fields, and the 128 bytes of
  \<open>FgaCreateStoreResponse\<close>.\<close>

abbreviation REQUEST_BODY_SIZE :: nat where "REQUEST_BODY_SIZE \<equiv> 320"
abbreviation RESPONSE_BODY_SIZE :: nat where "RESPONSE_BODY_SIZE \<equiv> 128"

section \<open>Types\<close>

record FgaTuple =
  object_type :: "char list"
  object_id :: "char list"
  subject_type :: "char list"
  subject_id :: "char list"
  relation :: "char list"

datatype FgaResponseStatus =
    FGA_RESPONSE_OK
  | FGA_RESPONSE_CLIENT_ERROR
  | FGA_RESPONSE_TRANSPORT_ERROR
  | FGA_RESPONSE_SERVER_ERROR

datatype FgaRequestType =
    FGA_REQUEST_CHECK
  | FGA_REQUEST_READ
  | FGA_REQUEST_WRITE_TUPLE
  | FGA_REQUEST_DELETE_TUPLE
  | FGA_REQUEST_LIST
  | FGA_REQUEST_GET_STORE
  | FGA_REQUEST_CREATE_STORE
  | FGA_REQUEST_DELETE_STORE

text \<open>The enumerators' values; the request stores one of them in a \<open>uint16_t\<close>.\<close>

fun request_type_code :: "FgaRequestType \<Rightarrow> u16" where
  "request_type_code FGA_REQUEST_CHECK = 1"
| "request_type_code FGA_REQUEST_READ = 2"
| "request_type_code FGA_REQUEST_WRITE_TUPLE = 3"
| "request_type_code FGA_REQUEST_DELETE_TUPLE = 4"
| "request_type_code FGA_REQUEST_LIST = 5"
| "request_type_code FGA_REQUEST_GET_STORE = 6"
| "request_type_code FGA_REQUEST_CREATE_STORE = 7"
| "request_type_code FGA_REQUEST_DELETE_STORE = 8"

record FgaRequest =
  request_id :: u64
  req_type :: u16
  req_store_id :: "char list"
  req_model_id :: "char list"
  req_body :: "char list"

record FgaResponse =
  status :: FgaResponseStatus
  error_message :: "char list"
  res_body :: "char list"

record FgaPayload =
  request :: FgaRequest
  response :: FgaResponse

section \<open>Views of the unions\<close>

text \<open>The 64-byte field at an offset of a byte region, and the region with it replaced.\<close>

definition get_bytes :: "nat \<Rightarrow> nat \<Rightarrow> char list \<Rightarrow> char list" where
  "get_bytes off len b = take len (drop off b)"

definition put_bytes :: "nat \<Rightarrow> char list \<Rightarrow> char list \<Rightarrow> char list" where
  "put_bytes off xs b = take off b @ xs @ drop (off + length xs) b"

text \<open>\<open>body.checkTuple.tuple\<close>, \<open>body.writeTuple.tuple\<close> and \<open>body.deleteTuple.tuple\<close> are the same
  bytes: the three request structs have the tuple as their only member.\<close>

definition body_tuple :: "char list \<Rightarrow> FgaTuple" where
  "body_tuple b =
     \<lparr>object_type = get_bytes 0 64 b, object_id = get_bytes 64 64 b,
      subject_type = get_bytes 128 64 b, subject_id = get_bytes 192 64 b,
      relation = get_bytes 256 64 b\<rparr>"

definition tuple_body :: "FgaTuple \<Rightarrow> char list" where
  "tuple_body t = object_type t @ object_id t @ subject_type t @ subject_id t @ relation t"

definition set_body_tuple :: "FgaTuple \<Rightarrow> char list \<Rightarrow> char list" where
  "set_body_tuple t b = put_bytes 0 (tuple_body t) b"

text \<open>\<open>body.createStore.name\<close> of the request is its first 64 bytes; the response's
  \<open>createStore\<close> is \<open>id\<close> then \<open>name\<close>.\<close>

definition body_store_name :: "char list \<Rightarrow> char list" where
  "body_store_name b = get_bytes 0 64 b"

definition set_body_store_name :: "char list \<Rightarrow> char list \<Rightarrow> char list" where
  "set_body_store_name name b = put_bytes 0 name b"

definition body_created_id :: "char list \<Rightarrow> char list" where
  "body_created_id b = get_bytes 0 64 b"

definition body_created_name :: "char list \<Rightarrow> char list" where
  "body_created_name b = get_bytes 64 64 b"

text \<open>\<open>checkTuple.allow\<close>, \<open>writeTuple.success\<close> and \<open>deleteTuple.success\<close> are the first byte.\<close>

definition body_flag :: "char list \<Rightarrow> bool" where
  "body_flag b \<longleftrightarrow> b \<noteq> [] \<and> hd b \<noteq> NUL"

definition set_body_flag :: "bool \<Rightarrow> char list \<Rightarrow> char list" where
  "set_body_flag v b = put_bytes 0 [if v then CHR 0x01 else NUL] b"

section \<open>Zeroed payloads and well-formedness\<close>

definition zero_bytes :: "nat \<Rightarrow> char list" where
  "zero_bytes n = replicate n NUL"

text \<open>\<open>MemSet(&slot->payload, 0, sizeof(slot->payload))\<close>.\<close>

definition zero_payload :: FgaPayload where
  "zero_payload =
     \<lparr>request = \<lparr>request_id = 0, req_type = 0, req_store_id = zero_bytes OPENFGA_STORE_ID_LEN,
                 req_model_id = zero_bytes OPENFGA_MODEL_ID_LEN,
                 req_body = zero_bytes REQUEST_BODY_SIZE\<rparr>,
      response = \<lparr>status = FGA_RESPONSE_OK,
                  error_message = zero_bytes FGA_RESPONSE_ERROR_MESSAGE_LEN,
                  res_body = zero_bytes RESPONSE_BODY_SIZE\<rparr>\<rparr>"

definition tuple_wf :: "FgaTuple \<Rightarrow> bool" where
  "tuple_wf t \<longleftrightarrow> length (object_type t) = 64 \<and> length (object_id t) = 64 \<and>
     length (subject_type t) = 64 \<and> length (subject_id t) = 64 \<and> length (relation t) = 64"

definition payload_wf :: "FgaPayload \<Rightarrow> bool" where
  "payload_wf p \<longleftrightarrow>
     length (req_store_id (request p)) = OPENFGA_STORE_ID_LEN \<and>
     length (req_model_id (request p)) = OPENFGA_MODEL_ID_LEN \<and>
     length (req_body (request p)) = REQUEST_BODY_SIZE \<and>
     length (error_message (response p)) = FGA_RESPONSE_ERROR_MESSAGE_LEN \<and>
     length (res_body (response p)) = RESPONSE_BODY_SIZE"

lemma length_zero_bytes [simp]: "length (zero_bytes n) = n"
  by (simp add: zero_bytes_def)

lemma c_str_zero_bytes [cstr_simps]: "c_str (zero_bytes n) = []"
  by (cases n) (simp_all add: c_str_def zero_bytes_def)

lemma payload_wf_zero: "payload_wf zero_payload"
  by (simp add: payload_wf_def zero_payload_def)

lemma length_put_bytes [simp]:
  "off + length xs \<le> length b \<Longrightarrow> length (put_bytes off xs b) = length b"
  by (simp add: put_bytes_def)

lemma get_put_bytes_same:
  "off + length xs \<le> length b \<Longrightarrow> get_bytes off (length xs) (put_bytes off xs b) = xs"
  by (simp add: get_bytes_def put_bytes_def)

lemma length_tuple_body: "tuple_wf t \<Longrightarrow> length (tuple_body t) = 320"
  by (simp add: tuple_wf_def tuple_body_def)

lemma tuple_wf_body_tuple: "length b = REQUEST_BODY_SIZE \<Longrightarrow> tuple_wf (body_tuple b)"
  by (simp add: tuple_wf_def body_tuple_def get_bytes_def)

text \<open>Reading the tuple back through any of the three request members gives what was written.\<close>

lemma body_tuple_set:
  assumes "tuple_wf t" and "length b = REQUEST_BODY_SIZE"
  shows "body_tuple (set_body_tuple t b) = t" and "length (set_body_tuple t b) = REQUEST_BODY_SIZE"
proof -
  have "set_body_tuple t b = tuple_body t"
    using assms by (simp add: set_body_tuple_def put_bytes_def length_tuple_body)
  with assms show "body_tuple (set_body_tuple t b) = t"
    and "length (set_body_tuple t b) = REQUEST_BODY_SIZE"
    by (simp_all add: body_tuple_def tuple_body_def get_bytes_def tuple_wf_def)
qed

lemma body_flag_set: "b \<noteq> [] \<Longrightarrow> body_flag (set_body_flag v b) = v"
  by (simp add: body_flag_def set_body_flag_def put_bytes_def)

lemma body_store_name_set:
  "length name = 64 \<Longrightarrow> 64 \<le> length b \<Longrightarrow> body_store_name (set_body_store_name name b) = name"
  by (simp add: body_store_name_def set_body_store_name_def get_bytes_def put_bytes_def)

end
