(* ===== verification/Slot_Pool.thy ===== *)
theory Slot_Pool
  imports Payload
begin

text \<open>
  The slot pool of \<open>src/channel_slot.h\<close> and \<open>src/channel.h\<close>: an array of slots and a free list
  threaded through them. The list is PostgreSQL's \<open>slist\<close> (lib/ilist.h), which is not part of
  the repository: its operations are the parameter \<open>slist_ops\<close>, and \<open>slist_ok\<close> states their
  documented behaviour. A slot pointer is the slot's index in the array.

  The interface of the pool is the locale \<open>allocator\<close>: what an acquire and a release do to the
  set of free slots, with the client lemma that slots are conserved and never handed out twice
  as long as clients only give back what they hold.
\<close>

section \<open>The intrusive list of PostgreSQL\<close>

text \<open>\<open>slist_init\<close>, \<open>slist_is_empty\<close>, \<open>slist_push_head\<close>, \<open>slist_pop_head_node\<close>, and the nodes in
  the order \<open>slist_foreach\<close> visits them.\<close>

record 'l slist_ops =
  sl_init :: 'l
  sl_is_empty :: "'l \<Rightarrow> bool"
  sl_push :: "'l \<Rightarrow> nat \<Rightarrow> 'l"
  sl_pop :: "'l \<Rightarrow> nat \<times> 'l"
  sl_nodes :: "'l \<Rightarrow> nat list"

text \<open>A node is in at most one list, once: pushing a node that is already linked is outside
  the documented behaviour, so nothing is said about it.\<close>

definition slist_ok :: "'l slist_ops \<Rightarrow> bool" where
  "slist_ok sl \<longleftrightarrow>
     sl_nodes sl (sl_init sl) = [] \<and>
     (\<forall>l. sl_is_empty sl l \<longleftrightarrow> sl_nodes sl l = []) \<and>
     (\<forall>l x. x \<notin> set (sl_nodes sl l) \<longrightarrow> sl_nodes sl (sl_push sl l x) = x # sl_nodes sl l) \<and>
     (\<forall>l x xs. sl_nodes sl l = x # xs \<longrightarrow>
        fst (sl_pop sl l) = x \<and> sl_nodes sl (snd (sl_pop sl l)) = xs)"

lemma slist_okD:
  assumes "slist_ok sl"
  shows "sl_nodes sl (sl_init sl) = []"
    and "sl_is_empty sl l \<longleftrightarrow> sl_nodes sl l = []"
    and "x \<notin> set (sl_nodes sl l) \<Longrightarrow> sl_nodes sl (sl_push sl l x) = x # sl_nodes sl l"
    and "sl_nodes sl l = x # xs \<Longrightarrow> fst (sl_pop sl l) = x"
    and "sl_nodes sl l = x # xs \<Longrightarrow> sl_nodes sl (snd (sl_pop sl l)) = xs"
  using assms unfolding slist_ok_def by blast+

text \<open>The documented behaviour is that of a list: the concrete instance the witnesses use.\<close>

definition list_slist :: "nat list slist_ops" where
  "list_slist = \<lparr>sl_init = [], sl_is_empty = List.null, sl_push = (\<lambda>l x. x # l),
                 sl_pop = (\<lambda>l. (hd l, tl l)), sl_nodes = (\<lambda>l. l)\<rparr>"

lemma list_slist_ok: "slist_ok list_slist"
  by (simp add: slist_ok_def list_slist_def)

section \<open>Slots and the pool\<close>

datatype FgaChannelSlotState =
    FGA_CHANNEL_SLOT_EMPTY
  | FGA_CHANNEL_SLOT_CANCELED
  | FGA_CHANNEL_SLOT_PENDING
  | FGA_CHANNEL_SLOT_PROCESSING
  | FGA_CHANNEL_SLOT_DONE

abbreviation InvalidPid :: int where "InvalidPid \<equiv> - 1"

record FgaChannelSlot =
  slot_state :: FgaChannelSlotState
  backend_pid :: int
  payload :: FgaPayload

record 'l FgaChannelSlotPool =
  pool_head :: 'l
  pool_slots :: "FgaChannelSlot list"

definition pool_slot :: "'l FgaChannelSlotPool \<Rightarrow> nat \<Rightarrow> FgaChannelSlot" where
  "pool_slot pool i = pool_slots pool ! i"

definition update_slot ::
  "nat \<Rightarrow> (FgaChannelSlot \<Rightarrow> FgaChannelSlot) \<Rightarrow> 'l FgaChannelSlotPool \<Rightarrow> 'l FgaChannelSlotPool" where
  "update_slot i f pool =
     pool\<lparr>pool_slots := (pool_slots pool)[i := f (pool_slots pool ! i)]\<rparr>"

text \<open>The loop of \<open>pool_init\<close> from index \<open>i\<close>; the slots are those of the shared memory segment.\<close>

function pool_init_loop ::
  "'l slist_ops \<Rightarrow> 'l FgaChannelSlotPool \<Rightarrow> nat \<Rightarrow> nat \<Rightarrow> 'l FgaChannelSlotPool" where
  "pool_init_loop sl pool max_slots i =
     (if i < max_slots then
        let pool1 = update_slot i (\<lambda>slot. slot\<lparr>slot_state := FGA_CHANNEL_SLOT_EMPTY,
                      backend_pid := InvalidPid, payload := zero_payload\<rparr>) pool
        in pool_init_loop sl (pool1\<lparr>pool_head := sl_push sl (pool_head pool1) i\<rparr>) max_slots (Suc i)
      else pool)"
  by pat_completeness auto
termination
  by (relation "measure (\<lambda>(sl, pool, max_slots, i). max_slots - i)") auto

declare pool_init_loop.simps [simp del]

definition pool_init ::
  "'l slist_ops \<Rightarrow> 'l FgaChannelSlotPool \<Rightarrow> nat \<Rightarrow> 'l FgaChannelSlotPool" where
  "pool_init sl pool max_slots =
     pool_init_loop sl (pool\<lparr>pool_head := sl_init sl\<rparr>) max_slots 0"

definition acquire_slot ::
  "'l slist_ops \<Rightarrow> 'l FgaChannelSlotPool \<Rightarrow> nat option \<times> 'l FgaChannelSlotPool" where
  "acquire_slot sl pool =
     (if sl_is_empty sl (pool_head pool) then (None, pool)
      else case sl_pop sl (pool_head pool) of (i, head') \<Rightarrow>
        (Some i, update_slot i (\<lambda>slot. slot\<lparr>slot_state := FGA_CHANNEL_SLOT_PENDING\<rparr>)
                   (pool\<lparr>pool_head := head'\<rparr>)))"

definition release_slot ::
  "'l slist_ops \<Rightarrow> nat \<Rightarrow> 'l FgaChannelSlotPool \<Rightarrow> 'l FgaChannelSlotPool" where
  "release_slot sl i pool =
     (let pool1 = update_slot i (\<lambda>slot. slot\<lparr>slot_state := FGA_CHANNEL_SLOT_EMPTY\<rparr>) pool
      in pool1\<lparr>pool_head := sl_push sl (pool_head pool1) i\<rparr>)"

section \<open>Invariant\<close>

text \<open>The free list holds distinct indices of the array, and a slot on it is EMPTY.\<close>

definition pool_free :: "'l slist_ops \<Rightarrow> 'l FgaChannelSlotPool \<Rightarrow> nat list" where
  "pool_free sl pool = sl_nodes sl (pool_head pool)"

definition pool_wf :: "'l slist_ops \<Rightarrow> nat \<Rightarrow> 'l FgaChannelSlotPool \<Rightarrow> bool" where
  "pool_wf sl n pool \<longleftrightarrow>
     slist_ok sl \<and> length (pool_slots pool) = n \<and>
     distinct (pool_free sl pool) \<and>
     (\<forall>i \<in> set (pool_free sl pool). i < n \<and>
        slot_state (pool_slots pool ! i) = FGA_CHANNEL_SLOT_EMPTY)"

lemma update_slot_simps [simp]:
  "pool_head (update_slot i f pool) = pool_head pool"
  "length (pool_slots (update_slot i f pool)) = length (pool_slots pool)"
  "pool_free sl (update_slot i f pool) = pool_free sl pool"
  by (simp_all add: update_slot_def pool_free_def)

lemma pool_slots_update_slot:
  "pool_slots (update_slot i f pool) = (pool_slots pool)[i := f (pool_slots pool ! i)]"
  by (simp add: update_slot_def)

lemma pool_slot_update_slot:
  "i < length (pool_slots pool) \<Longrightarrow>
   pool_slot (update_slot i f pool) j = (if i = j then f (pool_slot pool j) else pool_slot pool j)"
  by (simp add: pool_slot_def update_slot_def)

lemma acquire_slot_wf:
  assumes wf: "pool_wf sl n pool" and acq: "acquire_slot sl pool = (r, pool')"
  shows "pool_wf sl n pool' \<and>
    (case r of None \<Rightarrow> pool_free sl pool = [] \<and> pool' = pool
     | Some i \<Rightarrow> i < n \<and> pool_free sl pool = i # pool_free sl pool' \<and>
         pool_slots pool' = (pool_slots pool)[i := (pool_slots pool ! i)
           \<lparr>slot_state := FGA_CHANNEL_SLOT_PENDING\<rparr>])"
proof (cases "pool_free sl pool")
  case Nil
  with wf acq show ?thesis
    by (auto simp: acquire_slot_def pool_free_def pool_wf_def slist_okD(2))
next
  case (Cons i xs)
  from wf have ok: "slist_ok sl" by (simp add: pool_wf_def)
  let ?l = "pool_head pool"
  obtain l' where pop: "sl_pop sl ?l = (i, l')" and l': "sl_nodes sl l' = xs"
    using slist_okD(4,5) [OF ok, of ?l i xs] Cons by (metis pool_free_def prod.collapse)
  have ne: "\<not> sl_is_empty sl ?l" using Cons slist_okD(2) [OF ok] by (simp add: pool_free_def)
  have r: "r = Some i" and p': "pool' = update_slot i (\<lambda>slot. slot\<lparr>slot_state :=
      FGA_CHANNEL_SLOT_PENDING\<rparr>) (pool\<lparr>pool_head := l'\<rparr>)"
    using acq ne pop by (auto simp: acquire_slot_def)
  have free': "pool_free sl pool' = xs" by (simp add: p' l' pool_free_def)
  have "pool_wf sl n pool'"
    using wf Cons free' by (auto simp: pool_wf_def p' pool_slots_update_slot nth_list_update)
  with Cons free' wf show ?thesis
    by (simp add: r p' pool_slots_update_slot pool_wf_def)
qed

lemma release_slot_wf:
  assumes wf: "pool_wf sl n pool" and i: "i < n" "i \<notin> set (pool_free sl pool)"
  shows "pool_wf sl n (release_slot sl i pool) \<and>
    pool_free sl (release_slot sl i pool) = i # pool_free sl pool \<and>
    pool_slots (release_slot sl i pool) =
      (pool_slots pool)[i := (pool_slots pool ! i)\<lparr>slot_state := FGA_CHANNEL_SLOT_EMPTY\<rparr>]"
proof -
  from wf have ok: "slist_ok sl" by (simp add: pool_wf_def)
  have free: "pool_free sl (release_slot sl i pool) = i # pool_free sl pool"
    using slist_okD(3) [OF ok] i(2) by (simp add: release_slot_def pool_free_def Let_def)
  have slots: "pool_slots (release_slot sl i pool) =
      (pool_slots pool)[i := (pool_slots pool ! i)\<lparr>slot_state := FGA_CHANNEL_SLOT_EMPTY\<rparr>]"
    by (simp add: release_slot_def Let_def pool_slots_update_slot)
  show ?thesis
    using wf i by (auto simp: pool_wf_def free slots nth_list_update)
qed

lemma pool_init_loop_wf:
  assumes "i \<le> n" and "length (pool_slots pool) = n" and "slist_ok sl"
    and "pool_free sl pool = rev [0..<i]"
    and "\<forall>j < i. slot_state (pool_slots pool ! j) = FGA_CHANNEL_SLOT_EMPTY"
  shows "pool_wf sl n (pool_init_loop sl pool n i) \<and>
    pool_free sl (pool_init_loop sl pool n i) = rev [0..<n]"
  using assms
proof (induction sl pool n i rule: pool_init_loop.induct)
  case (1 sl pool n i)
  show ?case
  proof (cases "i < n")
    case True
    let ?pool1 = "update_slot i (\<lambda>slot. slot\<lparr>slot_state := FGA_CHANNEL_SLOT_EMPTY,
                      backend_pid := InvalidPid, payload := zero_payload\<rparr>) pool"
    let ?pool2 = "?pool1\<lparr>pool_head := sl_push sl (pool_head ?pool1) i\<rparr>"
    have "pool_free sl ?pool2 = rev [0..<Suc i]"
      using slist_okD(3) [OF "1.prems"(3), of i "pool_head pool"] "1.prems"(4)
      by (simp add: pool_free_def)
    then have "pool_wf sl n (pool_init_loop sl ?pool2 n (Suc i)) \<and>
        pool_free sl (pool_init_loop sl ?pool2 n (Suc i)) = rev [0..<n]"
      using "1.prems" True
      by (intro "1.IH" [OF True refl]) (auto simp: pool_slots_update_slot nth_list_update less_Suc_eq)
    with True show ?thesis by (simp add: pool_init_loop.simps [of sl pool n i] Let_def)
  next
    case False
    then have "pool_init_loop sl pool n i = pool" by (subst pool_init_loop.simps) simp
    with "1.prems" False show ?thesis by (simp add: pool_wf_def)
  qed
qed

lemma pool_init_wf:
  assumes "slist_ok sl" and "length (pool_slots pool) = n"
  shows "pool_wf sl n (pool_init sl pool n) \<and> pool_free sl (pool_init sl pool n) = rev [0..<n]"
  unfolding pool_init_def
  by (rule pool_init_loop_wf) (use assms slist_okD(1) [OF assms(1)] in \<open>simp_all add: pool_free_def\<close>)

section \<open>The allocator interface\<close>

text \<open>
  \<open>alloc_run\<close> runs a client that acquires slots and gives back slots it holds; a release of a
  slot the client does not hold is not an operation of a disciplined client and is skipped.
\<close>

datatype alloc_op = Acquire | Release nat

fun alloc_run ::
  "('p \<Rightarrow> nat option \<times> 'p) \<Rightarrow> (nat \<Rightarrow> 'p \<Rightarrow> 'p) \<Rightarrow> alloc_op list \<Rightarrow> nat list \<Rightarrow> 'p
    \<Rightarrow> nat list \<times> 'p" where
  "alloc_run acq rel [] held p = (held, p)"
| "alloc_run acq rel (Acquire # ops) held p =
     (case acq p of (None, p1) \<Rightarrow> alloc_run acq rel ops held p1
      | (Some i, p1) \<Rightarrow> alloc_run acq rel ops (i # held) p1)"
| "alloc_run acq rel (Release i # ops) held p =
     (if i \<in> set held then alloc_run acq rel ops (remove1 i held) (rel i p)
      else alloc_run acq rel ops held p)"

locale allocator =
  fixes inv :: "'p \<Rightarrow> bool"
    and free :: "'p \<Rightarrow> nat list"
    and cap :: nat
    and acq :: "'p \<Rightarrow> nat option \<times> 'p"
    and rel :: "nat \<Rightarrow> 'p \<Rightarrow> 'p"
  assumes free_distinct: "inv p \<Longrightarrow> distinct (free p) \<and> set (free p) \<subseteq> {..<cap}"
    and acq_spec: "inv p \<Longrightarrow> acq p = (r, p') \<Longrightarrow> inv p' \<and>
      (case r of None \<Rightarrow> free p = [] \<and> p' = p | Some i \<Rightarrow> i < cap \<and> free p = i # free p')"
    and rel_spec: "inv p \<Longrightarrow> i < cap \<Longrightarrow> i \<notin> set (free p) \<Longrightarrow>
      inv (rel i p) \<and> free (rel i p) = i # free p"
begin

text \<open>What the clients hold and what is free partition the slots.\<close>

definition partitioned :: "nat list \<Rightarrow> 'p \<Rightarrow> bool" where
  "partitioned held p \<longleftrightarrow> inv p \<and> distinct (held @ free p) \<and> set (held @ free p) = {..<cap}"

lemma partitioned_acq: "partitioned held p \<Longrightarrow> acq p = (Some i, p') \<Longrightarrow> partitioned (i # held) p'"
  using acq_spec [of p "Some i" p'] by (auto simp: partitioned_def)

lemma partitioned_rel:
  assumes "partitioned held p" and "i \<in> set held"
  shows "partitioned (remove1 i held) (rel i p)"
proof -
  have "i < cap" and "i \<notin> set (free p)" and "distinct held" and "inv p"
    using assms by (auto simp: partitioned_def)
  with rel_spec [of p i] assms show ?thesis
    by (auto simp: partitioned_def)
qed

lemma run_partitioned:
  "partitioned held p \<Longrightarrow> alloc_run acq rel ops held p = (held', p') \<Longrightarrow> partitioned held' p'"
proof (induction ops arbitrary: held p)
  case Nil
  then show ?case by simp
next
  case (Cons opn ops)
  show ?case
  proof (cases opn)
    case Acquire
    obtain r p1 where a: "acq p = (r, p1)" by fastforce
    have "partitioned (case r of None \<Rightarrow> held | Some i \<Rightarrow> i # held) p1"
      using Cons.prems(1) a acq_spec [of p r p1] partitioned_acq [of held p _ p1]
      by (auto simp: partitioned_def split: option.splits)
    with Cons show ?thesis by (auto simp: Acquire a split: option.splits)
  next
    case (Release i)
    with Cons show ?thesis by (auto intro: partitioned_rel split: if_splits)
  qed
qed

lemma acq_exhausted: "inv p \<Longrightarrow> fst (acq p) = None \<longleftrightarrow> free p = []"
  using acq_spec [of p] by (cases "acq p") (auto split: option.splits)

end

interpretation slot_pool: allocator "pool_wf sl n" "pool_free sl" n "acquire_slot sl"
  "release_slot sl" for sl :: "'l slist_ops" and n :: nat
proof (unfold_locales, goal_cases)
  case (1 p) then show ?case by (auto simp: pool_wf_def)
next
  case (2 p r p') then show ?case using acquire_slot_wf [of sl n p r p'] by (auto split: option.splits)
next
  case (3 p i) then show ?case using release_slot_wf by blast
qed

section \<open>Properties\<close>

text \<open>C16: \<open>pool_init\<close> puts every slot on the free list, and from then on, whatever sequence of
  acquires and releases disciplined clients make, the slots held and the slots free partition
  the pool: none is lost, and none is handed out twice.\<close>

theorem slots_conserved:
  assumes "slist_ok sl" and "length (pool_slots pool) = n"
    and "alloc_run (acquire_slot sl) (release_slot sl) ops [] (pool_init sl pool n) = (held, pool')"
  shows "distinct (held @ pool_free sl pool') \<and> set (held @ pool_free sl pool') = {..<n}"
proof -
  have "slot_pool.partitioned sl n [] (pool_init sl pool n)"
    using pool_init_wf [OF assms(1,2)] by (simp add: slot_pool.partitioned_def atLeast0LessThan)
  from slot_pool.run_partitioned [OF this assms(3)]
  show ?thesis by (simp add: slot_pool.partitioned_def)
qed

definition example_pool :: "nat list FgaChannelSlotPool" where
  "example_pool = \<lparr>pool_head = [], pool_slots = replicate 3
     \<lparr>slot_state = FGA_CHANNEL_SLOT_DONE, backend_pid = 0, payload = zero_payload\<rparr>\<rparr>"

theorem slots_conserved_witness:
  "slist_ok list_slist \<and> (\<exists>held pool'.
     alloc_run (acquire_slot list_slist) (release_slot list_slist)
       [Acquire, Acquire, Release 2, Acquire] [] (pool_init list_slist example_pool 3) =
         (held, pool') \<and>
     held = [2, 1] \<and> set (held @ pool_free list_slist pool') = {..<3})"
proof -
  obtain held pool' where run: "alloc_run (acquire_slot list_slist) (release_slot list_slist)
       [Acquire, Acquire, Release 2, Acquire] [] (pool_init list_slist example_pool 3) =
         (held, pool')" by fastforce
  then have "held = [2, 1]"
    by (simp add: pool_init_def pool_init_loop.simps list_slist_def example_pool_def Let_def
        update_slot_def acquire_slot_def release_slot_def List.null_iff numeral_2_eq_2
        numeral_3_eq_3)
  with run slots_conserved [OF list_slist_ok _ run] list_slist_ok show ?thesis
    by (auto simp: example_pool_def)
qed

text \<open>An acquire fails exactly when the free list is empty; otherwise the slot it returns was
  free, is PENDING afterwards, and every other slot is untouched.\<close>

theorem acquire_slot_spec:
  assumes "pool_wf sl n pool" and "acquire_slot sl pool = (r, pool')"
  shows "case r of
      None \<Rightarrow> pool_free sl pool = [] \<and> pool' = pool
    | Some i \<Rightarrow> i \<in> set (pool_free sl pool) \<and> i \<notin> set (pool_free sl pool') \<and>
        slot_state (pool_slot pool' i) = FGA_CHANNEL_SLOT_PENDING \<and>
        (\<forall>j. j \<noteq> i \<longrightarrow> pool_slot pool' j = pool_slot pool j)"
  using acquire_slot_wf [OF assms] assms(1)
  by (auto simp: pool_slot_def pool_wf_def split: option.splits)

theorem acquire_slot_spec_witness:
  "\<exists>pool'. acquire_slot list_slist (pool_init list_slist example_pool 3) = (Some 2, pool') \<and>
     slot_state (pool_slot pool' 2) = FGA_CHANNEL_SLOT_PENDING"
proof -
  have wf: "pool_wf list_slist 3 (pool_init list_slist example_pool 3)"
    using pool_init_wf [OF list_slist_ok, of example_pool 3] by (simp add: example_pool_def)
  obtain r pool' where
    acq: "acquire_slot list_slist (pool_init list_slist example_pool 3) = (r, pool')" by fastforce
  then have "r = Some 2"
    by (simp add: pool_init_def pool_init_loop.simps list_slist_def example_pool_def Let_def
        update_slot_def acquire_slot_def List.null_iff numeral_2_eq_2 numeral_3_eq_3)
  with acquire_slot_spec [OF wf acq] acq show ?thesis by simp
qed

end
