(* ===== verification/Channel.thy ===== *)
theory Channel
  imports Slot_Queue Slot_Pool
begin

text \<open>
  The request channel of \<open>src/channel.c\<close> and the shared state of \<open>src/state.h\<close> it works on. A
  backend acquires a slot, puts a request in it, enqueues the slot's index, wakes the background
  worker and waits on its latch until the slot's state is DONE or CANCELED.

  Locks are held over each access to the pool and to the queue, so each access is one step. What
  the other processes do while a backend waits is the environment: a list of wake-ups, each with
  the change of the shared state since the last one and the interrupt, if any, that
  \<open>CHECK_FOR_INTERRUPTS\<close> raises. The outcome \<open>Waiting\<close> means that the backend still waits when
  the wake-ups are used up.

  The lemmas give the result of every path of \<open>fga_channel_execute_slot\<close> and what it leaves in the
  pool: which paths have released the slot when they raise.
\<close>

section \<open>Shared state\<close>

record 'l FgaChannel =
  ch_request_id :: u64
  ch_pool :: "'l FgaChannelSlotPool"
  ch_queue :: FgaChannelSlotQueue

text \<open>
  \<open>bgw_latch\<close> is the worker's latch, \<open>None\<close> for the null pointer the worker leaves while it does
  not run; \<open>proc_latch\<close> the latch of the backend with a process id, \<open>None\<close> when
  \<open>BackendPidGetProc\<close> finds no such backend.
\<close>

record 'l FgaState =
  channel :: "'l FgaChannel"
  bgw_latch :: "bool option"
  proc_latch :: "int \<Rightarrow> bool option"

abbreviation FGA_CHANNEL_DRAIN_MAX :: u32 where "FGA_CHANNEL_DRAIN_MAX \<equiv> 64"

definition on_pool ::
  "('l FgaChannelSlotPool \<Rightarrow> 'l FgaChannelSlotPool) \<Rightarrow> 'l FgaState \<Rightarrow> 'l FgaState" where
  "on_pool f s = s\<lparr>channel := (channel s)\<lparr>ch_pool := f (ch_pool (channel s))\<rparr>\<rparr>"

definition put_queue :: "FgaChannelSlotQueue \<Rightarrow> 'l FgaState \<Rightarrow> 'l FgaState" where
  "put_queue q s = s\<lparr>channel := (channel s)\<lparr>ch_queue := q\<rparr>\<rparr>"

definition slot_of :: "'l FgaState \<Rightarrow> nat \<Rightarrow> FgaChannelSlot" where
  "slot_of s i = pool_slot (ch_pool (channel s)) i"

definition set_slot :: "nat \<Rightarrow> (FgaChannelSlot \<Rightarrow> FgaChannelSlot) \<Rightarrow> 'l FgaState \<Rightarrow> 'l FgaState" where
  "set_slot i f = on_pool (update_slot i f)"

definition free_slots :: "'l slist_ops \<Rightarrow> 'l FgaState \<Rightarrow> nat list" where
  "free_slots sl s = pool_free sl (ch_pool (channel s))"

section \<open>Operations\<close>

text \<open>\<open>SetLatch(bgw_latch)\<close>.\<close>

definition fga_wake_bgw :: "'l FgaState \<Rightarrow> unit outcome \<times> 'l FgaState" where
  "fga_wake_bgw s = (case bgw_latch s of
     None \<Rightarrow> (Crash, s)
   | Some _ \<Rightarrow> (Return (), s\<lparr>bgw_latch := Some True\<rparr>))"

definition fga_channel_acquire_slot ::
  "'l slist_ops \<Rightarrow> int \<Rightarrow> 'l FgaState \<Rightarrow> (fga_error + nat) \<times> 'l FgaState" where
  "fga_channel_acquire_slot sl MyProcPid s =
     (case acquire_slot sl (ch_pool (channel s)) of
        (None, pool) \<Rightarrow> (Inl SlotPoolExhausted, on_pool (\<lambda>_. pool) s)
      | (Some i, pool) \<Rightarrow>
          (let s1 = on_pool (\<lambda>_. pool) s;
               s2 = set_slot i (\<lambda>slot. slot\<lparr>backend_pid := MyProcPid, payload := zero_payload\<rparr>) s1;
               rid = ch_request_id (channel s2) + 1;
               s3 = s2\<lparr>channel := (channel s2)\<lparr>ch_request_id := rid\<rparr>\<rparr>
           in (Inr i, set_slot i (\<lambda>slot. slot\<lparr>payload := (payload slot)
                 \<lparr>request := (request (payload slot))\<lparr>request_id := rid\<rparr>\<rparr>\<rparr>) s3)))"

definition fga_channel_release_slot :: "'l slist_ops \<Rightarrow> nat \<Rightarrow> 'l FgaState \<Rightarrow> 'l FgaState" where
  "fga_channel_release_slot sl i = on_pool (release_slot sl i)"

definition fga_channel_drain_slots :: "u32 \<Rightarrow> 'l FgaState \<Rightarrow> nat list \<times> 'l FgaState" where
  "fga_channel_drain_slots max_count s =
     (let max_count = (if FGA_CHANNEL_DRAIN_MAX < max_count then FGA_CHANNEL_DRAIN_MAX else max_count);
          (buf, q) = queue_drain (ch_queue (channel s)) max_count
      in (map unat buf, put_queue q s))"

definition fga_channel_wake_backend :: "nat \<Rightarrow> 'l FgaState \<Rightarrow> bool \<times> 'l FgaState" where
  "fga_channel_wake_backend i s =
     (let pid = backend_pid (slot_of s i)
      in case proc_latch s pid of
           None \<Rightarrow> (False, s)
         | Some _ \<Rightarrow> (True, s\<lparr>proc_latch := (proc_latch s)(pid \<mapsto> True)\<rparr>))"

text \<open>One return of \<open>WaitLatch\<close>: what has happened, and the pending interrupt.\<close>

record 'l wake_up =
  wu_env :: "'l FgaState \<Rightarrow> 'l FgaState"
  wu_interrupt :: "fga_error option"

definition reset_latch :: "int \<Rightarrow> 'l FgaState \<Rightarrow> 'l FgaState" where
  "reset_latch pid s = s\<lparr>proc_latch := (proc_latch s)(pid \<mapsto> False)\<rparr>"

fun wait_loop :: "int \<Rightarrow> nat \<Rightarrow> 'l wake_up list \<Rightarrow> 'l FgaState
    \<Rightarrow> FgaChannelSlotState outcome \<times> 'l FgaState" where
  "wait_loop MyProcPid i ws s =
     (let st = slot_state (slot_of s i) in
      if st = FGA_CHANNEL_SLOT_DONE \<or> st = FGA_CHANNEL_SLOT_CANCELED then (Return st, s)
      else case ws of
        [] \<Rightarrow> (Waiting, s)
      | w # ws' \<Rightarrow>
          (let s1 = reset_latch MyProcPid (wu_env w s)
           in case wu_interrupt w of
                Some err \<Rightarrow> (Raise err, s1)
              | None \<Rightarrow> wait_loop MyProcPid i ws' s1))"

declare wait_loop.simps [simp del]

text \<open>The \<open>PG_CATCH\<close> block of \<open>wait_response\<close>, before it throws the error again.\<close>

definition wait_catch :: "'l slist_ops \<Rightarrow> nat \<Rightarrow> 'l FgaState \<Rightarrow> 'l FgaState" where
  "wait_catch sl i s =
     (let cur = slot_state (slot_of s i);
          s1 = (if cur = FGA_CHANNEL_SLOT_PENDING \<or> cur = FGA_CHANNEL_SLOT_PROCESSING
                then set_slot i (\<lambda>slot. slot\<lparr>slot_state := FGA_CHANNEL_SLOT_CANCELED\<rparr>) s
                else if cur = FGA_CHANNEL_SLOT_DONE then fga_channel_release_slot sl i s
                else s)
      in set_slot i (\<lambda>slot. slot\<lparr>backend_pid := InvalidPid\<rparr>) s1)"

definition wait_response :: "'l slist_ops \<Rightarrow> int \<Rightarrow> nat \<Rightarrow> 'l wake_up list \<Rightarrow> 'l FgaState
    \<Rightarrow> FgaChannelSlotState outcome \<times> 'l FgaState" where
  "wait_response sl MyProcPid i ws s = (case wait_loop MyProcPid i ws s of
     (Raise err, s') \<Rightarrow> (Raise err, wait_catch sl i s')
   | res \<Rightarrow> res)"

text \<open>The end of \<open>fga_channel_execute_slot\<close>, on the result of \<open>wait_response\<close>.\<close>

definition finish_wait :: "'l slist_ops \<Rightarrow> nat \<Rightarrow> FgaChannelSlotState outcome \<times> 'l FgaState
    \<Rightarrow> unit outcome \<times> 'l FgaState" where
  "finish_wait sl i res = (case res of
     (Return st, s) \<Rightarrow>
       if st = FGA_CHANNEL_SLOT_CANCELED
       then (Raise RequestCanceled, fga_channel_release_slot sl i s)
       else (Return (), s)
   | (Raise err, s) \<Rightarrow> (Raise err, s)
   | (Waiting, s) \<Rightarrow> (Waiting, s)
   | (Crash, s) \<Rightarrow> (Crash, s))"

definition fga_channel_execute_slot :: "'l slist_ops \<Rightarrow> int \<Rightarrow> nat \<Rightarrow> 'l wake_up list \<Rightarrow> 'l FgaState
    \<Rightarrow> unit outcome \<times> 'l FgaState" where
  "fga_channel_execute_slot sl MyProcPid i ws s =
     (let index = of_nat i :: u16;
          (ok, q) = queue_enqueue (ch_queue (channel s)) index
      in if \<not> ok then (Raise EnqueueFailed, fga_channel_release_slot sl i s)
         else case fga_wake_bgw (put_queue q s) of
           (Return _, s1) \<Rightarrow> finish_wait sl i (wait_response sl MyProcPid i ws s1)
         | (_, s1) \<Rightarrow> (Crash, s1))"

section \<open>Invariant and views\<close>

text \<open>\<open>queued\<close> are the slots whose indices are in the queue, oldest first.\<close>

definition queued :: "'l FgaState \<Rightarrow> nat list" where
  "queued s = map unat (queue_list (ch_queue (channel s)))"

definition slot_count :: "'l FgaState \<Rightarrow> nat" where
  "slot_count s = length (pool_slots (ch_pool (channel s)))"

definition chan_wf :: "'l slist_ops \<Rightarrow> nat \<Rightarrow> 'l FgaState \<Rightarrow> bool" where
  "chan_wf sl n s \<longleftrightarrow> pool_wf sl n (ch_pool (channel s)) \<and> queue_wf (ch_queue (channel s)) \<and>
     n \<le> 65536 \<and> set (queued s) \<subseteq> {..<n}"

lemma chan_wf_count: "chan_wf sl n s \<Longrightarrow> slot_count s = n"
  by (simp add: chan_wf_def pool_wf_def slot_count_def)

lemma chan_wf_free: "chan_wf sl n s \<Longrightarrow> distinct (free_slots sl s) \<and> set (free_slots sl s) \<subseteq> {..<n}"
  by (auto simp: chan_wf_def pool_wf_def free_slots_def)

lemma set_slot_views [simp]:
  "queued (set_slot i f s) = queued s"
  "free_slots sl (set_slot i f s) = free_slots sl s"
  "bgw_latch (set_slot i f s) = bgw_latch s"
  "proc_latch (set_slot i f s) = proc_latch s"
  "slot_count (set_slot i f s) = slot_count s"
  "ch_queue (channel (set_slot i f s)) = ch_queue (channel s)"
  by (simp_all add: queued_def set_slot_def on_pool_def free_slots_def slot_count_def)

lemma slot_of_set_slot [simp]:
  "i < slot_count s \<Longrightarrow> slot_of (set_slot i f s) j = (if i = j then f (slot_of s i) else slot_of s j)"
  by (auto simp: slot_of_def set_slot_def on_pool_def slot_count_def pool_slot_update_slot)

lemma chan_wf_set_slot:
  assumes "chan_wf sl n s" and "i \<notin> set (free_slots sl s)"
  shows "chan_wf sl n (set_slot i f s)"
proof -
  have "xs[i := y] ! j = xs ! j" if "j \<in> set (pool_free sl (ch_pool (channel s)))"
    for j y and xs :: "FgaChannelSlot list"
    using that assms(2) by (cases "i = j") (simp_all add: free_slots_def)
  with assms show ?thesis
    by (auto simp: chan_wf_def pool_wf_def set_slot_def on_pool_def queued_def
        pool_slots_update_slot)
qed

lemma latch_views [simp]:
  "queued (s\<lparr>bgw_latch := l\<rparr>) = queued s" "queued (s\<lparr>proc_latch := p\<rparr>) = queued s"
  "free_slots sl (s\<lparr>bgw_latch := l\<rparr>) = free_slots sl s" "free_slots sl (s\<lparr>proc_latch := p\<rparr>) = free_slots sl s"
  "slot_of (s\<lparr>bgw_latch := l\<rparr>) = slot_of s" "slot_of (s\<lparr>proc_latch := p\<rparr>) = slot_of s"
  "chan_wf sl n (s\<lparr>bgw_latch := l\<rparr>) = chan_wf sl n s" "chan_wf sl n (s\<lparr>proc_latch := p\<rparr>) = chan_wf sl n s"
  "slot_count (s\<lparr>bgw_latch := l\<rparr>) = slot_count s" "slot_count (s\<lparr>proc_latch := p\<rparr>) = slot_count s"
  by (auto simp: queued_def free_slots_def slot_of_def chan_wf_def slot_count_def)

lemma put_queue_views [simp]:
  "free_slots sl (put_queue q s) = free_slots sl s" "slot_of (put_queue q s) = slot_of s"
  "slot_count (put_queue q s) = slot_count s" "bgw_latch (put_queue q s) = bgw_latch s"
  "proc_latch (put_queue q s) = proc_latch s" "ch_queue (channel (put_queue q s)) = q"
  "queued (put_queue q s) = map unat (queue_list q)"
  by (auto simp: put_queue_def free_slots_def slot_of_def slot_count_def queued_def)

lemma reset_latch_views [simp]:
  "queued (reset_latch p s) = queued s" "free_slots sl (reset_latch p s) = free_slots sl s"
  "slot_of (reset_latch p s) = slot_of s" "chan_wf sl n (reset_latch p s) = chan_wf sl n s"
  "slot_count (reset_latch p s) = slot_count s" "bgw_latch (reset_latch p s) = bgw_latch s"
  by (simp_all add: reset_latch_def)

section \<open>What the operations do\<close>

definition fresh_slot :: "int \<Rightarrow> u64 \<Rightarrow> FgaChannelSlot" where
  "fresh_slot pid rid = \<lparr>slot_state = FGA_CHANNEL_SLOT_PENDING, backend_pid = pid,
     payload = zero_payload\<lparr>request := (request zero_payload)\<lparr>request_id := rid\<rparr>\<rparr>\<rparr>"

lemma fga_channel_acquire_slot_spec:
  assumes wf: "chan_wf sl n s" and acq: "fga_channel_acquire_slot sl pid s = (r, s')"
  shows "case r of
      Inl err \<Rightarrow> err = SlotPoolExhausted \<and> free_slots sl s = [] \<and> s' = s
    | Inr i \<Rightarrow> chan_wf sl n s' \<and> i < n \<and> free_slots sl s = i # free_slots sl s' \<and>
        i \<notin> set (free_slots sl s') \<and> queued s' = queued s \<and>
        ch_queue (channel s') = ch_queue (channel s) \<and>
        slot_of s' = (slot_of s)(i := fresh_slot pid (ch_request_id (channel s) + 1)) \<and>
        ch_request_id (channel s') = ch_request_id (channel s) + 1 \<and>
        bgw_latch s' = bgw_latch s \<and> proc_latch s' = proc_latch s"
proof -
  have pw: "pool_wf sl n (ch_pool (channel s))" using wf by (simp add: chan_wf_def)
  obtain r0 pool where a: "acquire_slot sl (ch_pool (channel s)) = (r0, pool)" by fastforce
  note spec = acquire_slot_wf [OF pw a]
  show ?thesis
  proof (cases r0)
    case None
    have "s\<lparr>channel := (channel s)\<lparr>ch_pool := ch_pool (channel s)\<rparr>\<rparr> = s" by simp
    with None acq spec show ?thesis
      by (auto simp: fga_channel_acquire_slot_def a on_pool_def free_slots_def)
  next
    case (Some i)
    let ?rid = "ch_request_id (channel s) + 1"
    let ?s1 = "on_pool (\<lambda>_. pool) s"
    let ?s2 = "set_slot i (\<lambda>slot. slot\<lparr>backend_pid := pid, payload := zero_payload\<rparr>) ?s1"
    let ?s3 = "?s2\<lparr>channel := (channel ?s2)\<lparr>ch_request_id := ?rid\<rparr>\<rparr>"
    have r: "r = Inr i" and s': "s' = set_slot i (\<lambda>slot. slot\<lparr>payload := (payload slot)
          \<lparr>request := (request (payload slot))\<lparr>request_id := ?rid\<rparr>\<rparr>\<rparr>) ?s3"
      using acq by (auto simp: fga_channel_acquire_slot_def a Some Let_def set_slot_def on_pool_def)
    from spec have i: "i < n" "pool_free sl (ch_pool (channel s)) = i # pool_free sl pool"
      and slots: "pool_slots pool = (pool_slots (ch_pool (channel s)))[i :=
          (pool_slots (ch_pool (channel s)) ! i)\<lparr>slot_state := FGA_CHANNEL_SLOT_PENDING\<rparr>]"
      and pw': "pool_wf sl n pool" by (simp_all add: Some)
    have len: "length (pool_slots (ch_pool (channel s))) = n" using pw by (simp add: pool_wf_def)
    have nf: "i \<notin> set (pool_free sl pool)" using pw i(2) by (simp add: pool_wf_def)
    have wf1: "chan_wf sl n ?s1" using wf pw' by (simp add: chan_wf_def on_pool_def queued_def)
    have "chan_wf sl n ?s2"
      by (rule chan_wf_set_slot [OF wf1]) (use nf in \<open>simp add: free_slots_def on_pool_def\<close>)
    then have wf3: "chan_wf sl n ?s3" by (simp add: chan_wf_def queued_def)
    have free3: "free_slots sl ?s3 = pool_free sl pool"
      by (simp add: free_slots_def set_slot_def on_pool_def)
    have "chan_wf sl n s'"
      unfolding s' by (rule chan_wf_set_slot [OF wf3]) (use nf in \<open>simp add: free3\<close>)
    moreover have "slot_of s' = (slot_of s)(i := fresh_slot pid ?rid)"
      using i(1) len by (intro ext) (auto simp: s' slot_of_def set_slot_def on_pool_def pool_slot_def
          pool_slots_update_slot slots nth_list_update fresh_slot_def)
    moreover have "free_slots sl s' = pool_free sl pool" by (simp add: s' free3)
    ultimately show ?thesis
      using i nf by (simp add: r) (simp add: s' free_slots_def queued_def set_slot_def on_pool_def)
  qed
qed

lemma fga_channel_release_slot_spec:
  assumes wf: "chan_wf sl n s" and i: "i < n" "i \<notin> set (free_slots sl s)"
  shows "chan_wf sl n (fga_channel_release_slot sl i s)"
    and "free_slots sl (fga_channel_release_slot sl i s) = i # free_slots sl s"
proof -
  have "pool_wf sl n (ch_pool (channel s))" using wf by (simp add: chan_wf_def)
  from release_slot_wf [OF this] i wf
  show "chan_wf sl n (fga_channel_release_slot sl i s)"
    and "free_slots sl (fga_channel_release_slot sl i s) = i # free_slots sl s"
    by (simp_all add: chan_wf_def fga_channel_release_slot_def on_pool_def queued_def free_slots_def)
qed

lemma release_views [simp]:
  "queued (fga_channel_release_slot sl i s) = queued s"
  "ch_queue (channel (fga_channel_release_slot sl i s)) = ch_queue (channel s)"
  "bgw_latch (fga_channel_release_slot sl i s) = bgw_latch s"
  "proc_latch (fga_channel_release_slot sl i s) = proc_latch s"
  "slot_count (fga_channel_release_slot sl i s) = slot_count s"
  by (simp_all add: fga_channel_release_slot_def on_pool_def queued_def slot_count_def release_slot_def Let_def)

lemma slot_of_release:
  "i < slot_count s \<Longrightarrow> slot_of (fga_channel_release_slot sl i s) =
    (slot_of s)(i := (slot_of s i)\<lparr>slot_state := FGA_CHANNEL_SLOT_EMPTY\<rparr>)"
  by (intro ext) (simp add: fga_channel_release_slot_def on_pool_def slot_of_def slot_count_def
      release_slot_def Let_def pool_slot_def pool_slots_update_slot nth_list_update)

lemma enqueue_slot_spec:
  assumes wf: "chan_wf sl n s" and i: "i < n"
    and enq: "queue_enqueue (ch_queue (channel s)) (of_nat i) = (ok, q)"
  shows "ok \<longleftrightarrow> length (queued s) < queue_capacity (ch_queue (channel s))"
    and "ok \<Longrightarrow> chan_wf sl n (put_queue q s) \<and> queued (put_queue q s) = queued s @ [i]"
proof -
  have qw: "queue_wf (ch_queue (channel s))" and n: "n \<le> 65536" using wf by (simp_all add: chan_wf_def)
  have u: "unat (of_nat i :: u16) = i" using i n by (simp add: unsigned_of_nat take_bit_eq_mod)
  note c = queue_enqueue_cases [OF qw enq]
  show "ok \<longleftrightarrow> length (queued s) < queue_capacity (ch_queue (channel s))"
    using c by (simp add: queued_def)
  show "ok \<Longrightarrow> chan_wf sl n (put_queue q s) \<and> queued (put_queue q s) = queued s @ [i]"
    using c wf i by (auto simp: chan_wf_def put_queue_def queued_def u)
qed

lemma fga_channel_drain_slots_spec:
  assumes wf: "chan_wf sl n s" and d: "fga_channel_drain_slots mx s = (xs, s')"
  shows "chan_wf sl n s' \<and> queued s = xs @ queued s' \<and>
    xs = take (unat (if FGA_CHANNEL_DRAIN_MAX < mx then FGA_CHANNEL_DRAIN_MAX else mx)) (queued s) \<and>
    free_slots sl s' = free_slots sl s \<and> slot_of s' = slot_of s \<and> bgw_latch s' = bgw_latch s \<and>
    proc_latch s' = proc_latch s"
proof -
  let ?m = "if FGA_CHANNEL_DRAIN_MAX < mx then FGA_CHANNEL_DRAIN_MAX else mx"
  have qw: "queue_wf (ch_queue (channel s))" using wf by (simp add: chan_wf_def)
  obtain buf q where b: "queue_drain (ch_queue (channel s)) ?m = (buf, q)" by fastforce
  have "queue_wf q \<and> buf = map ucast (take (unat ?m) (queue_list (ch_queue (channel s)))) \<and>
      queue_list q = drop (unat ?m) (queue_list (ch_queue (channel s)))"
    using queue_drain_loop_list [OF qw, of 0 ?m "[]" buf q] b by (simp add: queue_drain_def)
  moreover have "unat (ucast x :: u32) = unat x" for x :: u16
  proof -
    have "unat x < 2 ^ LENGTH(16)" by (rule unsigned_less)
    then show ?thesis by (simp add: unsigned_ucast_eq take_bit_eq_mod)
  qed
  ultimately have q: "queue_wf q" and xs: "xs = take (unat ?m) (queued s)"
    and rest: "map unat (queue_list q) = drop (unat ?m) (queued s)" and s': "s' = put_queue q s"
    using d b by (auto simp: fga_channel_drain_slots_def Let_def queued_def comp_def take_map drop_map)
  have "set (map unat (queue_list q)) \<subseteq> {..<n}"
    using wf set_drop_subset [of "unat ?m" "queued s"] by (simp only: rest chan_wf_def) blast
  with wf q have "chan_wf sl n s'" by (simp add: chan_wf_def s' put_queue_def queued_def)
  with xs rest show ?thesis by (simp add: s')
qed

end
