(* ===== verification/Cache_Spec.thy ===== *)
theory Cache_Spec
  imports Prelude
begin

text \<open>
  What both permission caches promise: a hit is never an answer nobody stored. The state of a
  cache holds at most what was stored last under a key; a lookup answers from that content, and
  only while the value is fresh; a store changes nothing but its own key (entries may always be
  dropped). Keys are compared by \<open>keq\<close>, which is coarser than equality in the per-backend cache.
\<close>

text \<open>A cached decision: \<open>allowed\<close>, the expiry time in milliseconds, and the generation.\<close>

type_synonym acl_value = "bool \<times> u64 \<times> u16"

definition map_upd_class :: "('k \<Rightarrow> 'k \<Rightarrow> bool) \<Rightarrow> ('k \<rightharpoonup> 'v) \<Rightarrow> 'k \<Rightarrow> 'v \<Rightarrow> 'k \<rightharpoonup> 'v" where
  "map_upd_class keq m k v = (\<lambda>k'. if keq k k' then Some v else m k')"

lemma map_upd_class_mono:
  "m \<subseteq>\<^sub>m m' \<Longrightarrow> map_upd_class keq m k v \<subseteq>\<^sub>m map_upd_class keq m' k v"
  by (auto simp: map_upd_class_def map_le_def dom_def)

datatype ('t, 'k, 'v) cache_op = Lookup 't 'k | Store 't 'k 'v

text \<open>
  Runs a sequence of operations. For each lookup the result lists the cache it ran in, the
  time, the value stored last under the key (by anyone, in this run or in \<open>hist\<close>), and the answer.
\<close>

fun cache_run ::
  "('k \<Rightarrow> 'k \<Rightarrow> bool) \<Rightarrow> ('t \<Rightarrow> 'k \<Rightarrow> 's \<Rightarrow> 'r option \<times> 's) \<Rightarrow> ('t \<Rightarrow> 'k \<Rightarrow> 'v \<Rightarrow> 's \<Rightarrow> 's)
    \<Rightarrow> ('t, 'k, 'v) cache_op list \<Rightarrow> 's \<Rightarrow> ('k \<rightharpoonup> 'v) \<Rightarrow> ('s \<times> 't \<times> 'v option \<times> 'r option) list" where
  "cache_run keq lookup store [] s hist = []"
| "cache_run keq lookup store (Lookup t k # ops) s hist =
     (case lookup t k s of (r, s') \<Rightarrow>
        (s, t, hist k, r) # cache_run keq lookup store ops s' hist)"
| "cache_run keq lookup store (Store t k v # ops) s hist =
     cache_run keq lookup store ops (store t k v s) (map_upd_class keq hist k v)"

locale acl_cache =
  fixes inv :: "'s \<Rightarrow> bool"
    and keq :: "'k \<Rightarrow> 'k \<Rightarrow> bool"
    and content :: "'s \<Rightarrow> 'k \<rightharpoonup> 'v"
    and fresh :: "'s \<Rightarrow> 't \<Rightarrow> 'v \<Rightarrow> bool"
    and answer :: "'v \<Rightarrow> 'r"
    and lookup :: "'t \<Rightarrow> 'k \<Rightarrow> 's \<Rightarrow> 'r option \<times> 's"
    and store :: "'t \<Rightarrow> 'k \<Rightarrow> 'v \<Rightarrow> 's \<Rightarrow> 's"
  assumes lookup_spec: "inv s \<Longrightarrow> lookup t k s = (r, s') \<Longrightarrow>
      inv s' \<and> content s' \<subseteq>\<^sub>m content s \<and>
      r = (case content s k of None \<Rightarrow> None | Some v \<Rightarrow> if fresh s t v then Some (answer v) else None)"
    and store_spec: "inv s \<Longrightarrow>
      inv (store t k v s) \<and> content (store t k v s) \<subseteq>\<^sub>m map_upd_class keq (content s) k v"
begin

text \<open>The content never runs ahead of the history.\<close>

definition within :: "'s \<Rightarrow> ('k \<rightharpoonup> 'v) \<Rightarrow> bool" where
  "within s hist \<longleftrightarrow> inv s \<and> content s \<subseteq>\<^sub>m hist"

lemma within_lookup: "within s hist \<Longrightarrow> lookup t k s = (r, s') \<Longrightarrow> within s' hist"
  using lookup_spec [of s t k r s'] map_le_trans by (auto simp: within_def)

lemma within_store: "within s hist \<Longrightarrow> within (store t k v s) (map_upd_class keq hist k v)"
  using store_spec [of s t k v] map_upd_class_mono [of "content s" hist keq k v] map_le_trans
  by (auto simp: within_def)

lemma hit_sound:
  assumes "within s hist" and "lookup t k s = (Some r, s')"
  shows "\<exists>v. hist k = Some v \<and> fresh s t v \<and> r = answer v"
proof -
  from assms lookup_spec [of s t k "Some r" s'] obtain v
    where v: "content s k = Some v" "fresh s t v" "r = answer v"
    by (auto simp: within_def split: option.splits if_splits)
  moreover have "hist k = Some v"
    using assms(1) v(1) by (auto simp: within_def map_le_def dom_def)
  ultimately show ?thesis by blast
qed

lemma run_sound:
  "within s hist \<Longrightarrow> (s1, t, h, Some r) \<in> set (cache_run keq lookup store ops s hist) \<Longrightarrow>
    \<exists>v. h = Some v \<and> fresh s1 t v \<and> r = answer v"
proof (induction ops arbitrary: s hist)
  case Nil
  then show ?case by simp
next
  case (Cons opn ops)
  show ?case
  proof (cases opn)
    case (Lookup t' k')
    obtain r' s' where l: "lookup t' k' s = (r', s')" by fastforce
    from Cons.prems(2) consider "s1 = s" "t = t'" "h = hist k'" "r' = Some r"
      | "(s1, t, h, Some r) \<in> set (cache_run keq lookup store ops s' hist)"
      by (auto simp: Lookup l)
    then show ?thesis
    proof cases
      case 1
      with hit_sound [OF Cons.prems(1), of t' k' r s'] l show ?thesis by simp
    next
      case 2
      with Cons.IH within_lookup [OF Cons.prems(1) l] show ?thesis by blast
    qed
  next
    case (Store t' k' v')
    have "within (store t' k' v' s) (map_upd_class keq hist k' v')"
      by (rule within_store [OF Cons.prems(1)])
    with Cons.IH Cons.prems(2) show ?thesis by (auto simp: Store)
  qed
qed

end

end
