(* ===== verification/Cache_Key.thy ===== *)
theory Cache_Key
  imports Prelude
begin

text \<open>
  The cache key of \<open>src/cache_key.h\<close> and \<open>src/cache.h\<close>: the seven fields of a check are written
  length-prefixed into a 1024-byte stack buffer, which is hashed with xxHash. The hash functions
  are not part of the repository; they are the parameter \<open>xxh3\<close>.

  The lemmas show when the byte buffer determines the fields (every field at most 255 bytes), that
  it fits the stack buffer under the bound the comments assume, what happens without the bound
  (the length byte wraps and two different checks get one key), and that two members of the key
  are never written.
\<close>

section \<open>The key\<close>

record FgaAclCacheKey =
  low :: u64
  high :: u64
  object_key :: u64
  relation_id :: u32
  key_pad :: u32

text \<open>\<open>XXH3_64bits\<close> and \<open>XXH3_128bits\<close> (low and high half) of a byte sequence.\<close>

record xxh3 =
  xxh3_64bits :: "char list \<Rightarrow> u64"
  xxh3_128bits :: "char list \<Rightarrow> u64 \<times> u64"

text \<open>
  The bytes written to the buffer so far are a list, so \<open>p - buf\<close> is its length. A null pointer
  is \<open>None\<close>; a C string ends at its first NUL, a \<open>text\<close> value is all its bytes. The length is
  stored as \<open>uint8_t\<close>. The \<open>Assert\<close>s on the lengths are compiled out of a production server.
\<close>

definition append_cache_key_field_text :: "char list \<Rightarrow> char list option \<Rightarrow> char list" where
  "append_cache_key_field_text buffer str =
     (let bytes = (case str of None \<Rightarrow> [] | Some t \<Rightarrow> t); str_len = length bytes
      in buffer @ [char_of (str_len mod 256)] @ bytes)"

definition append_cache_key_field :: "char list \<Rightarrow> char list option \<Rightarrow> char list" where
  "append_cache_key_field buffer str =
     (let bytes = (case str of None \<Rightarrow> [] | Some s \<Rightarrow> c_str s); str_len = length bytes
      in buffer @ [char_of (str_len mod 256)] @ bytes)"

text \<open>The arguments of \<open>fga_cache_key\<close>.\<close>

record key_args =
  ka_store_id :: "char list option"
  ka_model_id :: "char list option"
  ka_object_type :: "char list option"
  ka_object_id :: "char list option"
  ka_subject_type :: "char list option"
  ka_subject_id :: "char list option"
  ka_relation :: "char list option"

abbreviation KEY_BUFFER_SIZE :: nat where "KEY_BUFFER_SIZE \<equiv> 1024"

definition object_key_bytes :: "key_args \<Rightarrow> char list" where
  "object_key_bytes a =
     (let p = append_cache_key_field [] (ka_store_id a);
          p = append_cache_key_field p (ka_model_id a);
          p = append_cache_key_field_text p (ka_object_type a)
      in append_cache_key_field_text p (ka_object_id a))"

definition cache_key_bytes :: "key_args \<Rightarrow> char list" where
  "cache_key_bytes a =
     (let p = object_key_bytes a;
          p = append_cache_key_field_text p (ka_subject_type a);
          p = append_cache_key_field_text p (ka_subject_id a)
      in append_cache_key_field_text p (ka_relation a))"

text \<open>
  \<open>key\<close> is what the caller's variable holds before the call. \<open>None\<close>: the writes run past the
  end of the stack buffer.
\<close>

definition fga_cache_key ::
  "xxh3 \<Rightarrow> FgaAclCacheKey \<Rightarrow> key_args \<Rightarrow> FgaAclCacheKey option" where
  "fga_cache_key xxh key a =
     (if KEY_BUFFER_SIZE < length (cache_key_bytes a) then None
      else let key1 = key\<lparr>object_key := xxh3_64bits xxh (object_key_bytes a)\<rparr>;
               h = xxh3_128bits xxh (cache_key_bytes a)
           in Some (key1\<lparr>low := fst h, high := snd h\<rparr>))"

section \<open>The encoding\<close>

definition field_bytes :: "char list option \<Rightarrow> char list" where
  "field_bytes f = (case f of None \<Rightarrow> [] | Some s \<Rightarrow> s)"

definition key_fields :: "key_args \<Rightarrow> char list list" where
  "key_fields a = [c_str (field_bytes (ka_store_id a)), c_str (field_bytes (ka_model_id a)),
     field_bytes (ka_object_type a), field_bytes (ka_object_id a),
     field_bytes (ka_subject_type a), field_bytes (ka_subject_id a), field_bytes (ka_relation a)]"

definition encode_field :: "char list \<Rightarrow> char list" where
  "encode_field s = char_of (length s mod 256) # s"

lemma c_str_Nil [simp]: "c_str [] = []"
  by (simp add: c_str_def)

lemma append_field_encode:
  "append_cache_key_field_text p f = p @ encode_field (field_bytes f)"
  "append_cache_key_field p f = p @ encode_field (c_str (field_bytes f))"
  by (simp_all add: append_cache_key_field_text_def append_cache_key_field_def
      encode_field_def field_bytes_def Let_def split: option.split)

lemma cache_key_bytes_encode: "cache_key_bytes a = concat (map encode_field (key_fields a))"
  by (simp add: cache_key_bytes_def object_key_bytes_def append_field_encode key_fields_def Let_def)

lemma object_key_bytes_encode:
  "object_key_bytes a = concat (map encode_field (take 4 (key_fields a)))"
  by (simp add: object_key_bytes_def append_field_encode key_fields_def Let_def)

text \<open>A length-prefixed sequence of short fields is uniquely decodable.\<close>

lemma encode_field_inj:
  assumes "encode_field s @ xs = encode_field t @ ys" and "length s < 256" and "length t < 256"
  shows "s = t \<and> xs = ys"
proof -
  have "(char_of (length s) :: char) = char_of (length t)"
    using assms by (simp add: encode_field_def)
  then have "length s = length t"
    using assms(2,3) by (metis char_of_eq_iff mod_less of_char_of)
  with assms(1) show ?thesis by (simp add: encode_field_def)
qed

lemma encode_fields_inj:
  assumes "concat (map encode_field fs) = concat (map encode_field gs)"
    and "length fs = length gs"
    and "\<forall>f \<in> set fs. length f < 256" and "\<forall>g \<in> set gs. length g < 256"
  shows "fs = gs"
  using assms(2,1,3,4)
proof (induction fs gs rule: list_induct2)
  case Nil
  then show ?case by simp
next
  case (Cons f fs g gs)
  have eq: "encode_field f @ concat (map encode_field fs)
      = encode_field g @ concat (map encode_field gs)"
    using Cons.prems(1) by simp
  have "f = g \<and> concat (map encode_field fs) = concat (map encode_field gs)"
    by (rule encode_field_inj [OF eq]) (use Cons.prems(2,3) in simp_all)
  with Cons show ?case by simp
qed

section \<open>Properties\<close>

text \<open>C30: When no field is longer than 255 bytes and the hash does not collide on the two buffers,
  two checks share a cache key (as the L1 cache compares keys) exactly when all seven fields agree;
  a missing store or model id counts as the empty one.\<close>

theorem cache_key_identifies_check:
  assumes "\<forall>f \<in> set (key_fields a). length f \<le> 255" and "\<forall>f \<in> set (key_fields b). length f \<le> 255"
    and "fga_cache_key xxh key0 a = Some ka" and "fga_cache_key xxh key0' b = Some kb"
    and no_collision: "xxh3_128bits xxh (cache_key_bytes a) = xxh3_128bits xxh (cache_key_bytes b)
      \<longrightarrow> cache_key_bytes a = cache_key_bytes b"
  shows "(low ka = low kb \<and> high ka = high kb) \<longleftrightarrow> key_fields a = key_fields b"
proof
  assume "low ka = low kb \<and> high ka = high kb"
  then have "cache_key_bytes a = cache_key_bytes b"
    using assms(3,4) no_collision
    by (auto simp: fga_cache_key_def Let_def prod_eq_iff split: if_splits)
  then show "key_fields a = key_fields b"
    unfolding cache_key_bytes_encode
    by (rule encode_fields_inj) (use assms(1,2) in \<open>auto simp: key_fields_def\<close>)
next
  assume "key_fields a = key_fields b"
  then have "cache_key_bytes a = cache_key_bytes b" by (simp add: cache_key_bytes_encode)
  with assms(3,4) show "low ka = low kb \<and> high ka = high kb"
    by (auto simp: fga_cache_key_def Let_def split: if_splits)
qed

text \<open>A hash for the witnesses: the length and the sum of the bytes.\<close>

definition sum_hash :: xxh3 where
  "sum_hash = \<lparr>xxh3_64bits = (\<lambda>b. of_nat (length b)),
     xxh3_128bits = (\<lambda>b. (of_nat (length b), of_nat (sum_list (map of_char b))))\<rparr>"

definition zero_key :: FgaAclCacheKey where
  "zero_key = \<lparr>low = 0, high = 0, object_key = 0, relation_id = 0, key_pad = 0\<rparr>"

definition example_args :: "char list \<Rightarrow> key_args" where
  "example_args subject =
     \<lparr>ka_store_id = Some ''s'', ka_model_id = None, ka_object_type = Some ''doc'',
      ka_object_id = Some ''1'', ka_subject_type = Some ''user'', ka_subject_id = Some subject,
      ka_relation = Some ''viewer''\<rparr>"

theorem cache_key_identifies_check_witness:
  "\<exists>ka kb. fga_cache_key sum_hash zero_key (example_args ''anne'') = Some ka \<and>
     fga_cache_key sum_hash zero_key (example_args ''bob'') = Some kb \<and>
     \<not> (low ka = low kb \<and> high ka = high kb)"
proof -
  let ?a = "example_args ''anne''" and ?b = "example_args ''bob''"
  have fa: "key_fields ?a = [''s'', [], ''doc'', ''1'', ''user'', ''anne'', ''viewer'']"
    and fb: "key_fields ?b = [''s'', [], ''doc'', ''1'', ''user'', ''bob'', ''viewer'']"
    by (simp_all add: key_fields_def example_args_def field_bytes_def c_str_def)
  have "length (cache_key_bytes ?a) = 26" and "length (cache_key_bytes ?b) = 25"
    by (simp_all add: cache_key_bytes_encode fa fb encode_field_def)
  then obtain ka kb where k: "fga_cache_key sum_hash zero_key ?a = Some ka"
      "fga_cache_key sum_hash zero_key ?b = Some kb"
    and nc: "xxh3_128bits sum_hash (cache_key_bytes ?a) \<noteq> xxh3_128bits sum_hash (cache_key_bytes ?b)"
    by (simp add: fga_cache_key_def Let_def sum_hash_def)
  have "(low ka = low kb \<and> high ka = high kb) \<longleftrightarrow> key_fields ?a = key_fields ?b"
    by (rule cache_key_identifies_check [OF _ _ k]) (use nc in \<open>auto simp: fa fb\<close>)
  with k fa fb show ?thesis by auto
qed

text \<open>With every field at most 128 bytes, the bound the comments state, the seven fields fit the
  1024-byte stack buffer, so the key is computed.\<close>

theorem cache_key_fits_buffer:
  assumes "\<forall>f \<in> set (key_fields a). length f \<le> 128"
  shows "length (cache_key_bytes a) \<le> 903 \<and> fga_cache_key xxh key a \<noteq> None"
  using assms by (auto simp: fga_cache_key_def Let_def cache_key_bytes_encode key_fields_def
      encode_field_def)

theorem cache_key_fits_buffer_witness:
  "length (cache_key_bytes (example_args ''anne'')) \<le> 903 \<and>
   fga_cache_key sum_hash zero_key (example_args ''anne'') \<noteq> None"
proof -
  have "\<forall>f \<in> set (key_fields (example_args ''anne'')). length f \<le> 128"
    by (simp add: key_fields_def example_args_def field_bytes_def c_str_def)
  with cache_key_fits_buffer show ?thesis by blast
qed

text \<open>Two checks whose fields are longer than the length byte can say.\<close>

definition wide_subject :: key_args where
  "wide_subject = (example_args (CHR ''a'' # CHR 0x01 # replicate 255 (CHR ''x'')))
     \<lparr>ka_relation := Some ''b''\<rparr>"

definition wide_relation :: key_args where
  "wide_relation = (example_args ''a'')
     \<lparr>ka_relation := Some (replicate 255 (CHR ''x'') @ [CHR 0x01, CHR ''b''])\<rparr>"

text \<open>Without that bound the key does not identify the check: a one-letter subject with a
  257-byte relation and a 257-byte subject with a one-letter relation, all of them accepted by
  the argument checks, are written as the same bytes, so they get the same key under every hash
  function.\<close>

lemma cache_key_wraps_for_long_fields:
  "ka_subject_id wide_subject \<noteq> ka_subject_id wide_relation \<and>
   fga_cache_key xxh key wide_subject = fga_cache_key xxh key wide_relation \<and>
   fga_cache_key xxh key wide_subject \<noteq> None"
proof -
  have one: "char_of (Suc 0) = CHR 0x01"
    by code_simp
  let ?bytes = "CHR 0x01 # CHR ''a'' # CHR 0x01 # replicate 255 (CHR ''x'') @ [CHR 0x01, CHR ''b'']"
  have "encode_field (CHR ''a'' # CHR 0x01 # replicate 255 (CHR ''x'')) @ encode_field ''b'' = ?bytes"
    and "encode_field ''a'' @ encode_field (replicate 255 (CHR ''x'') @ [CHR 0x01, CHR ''b'']) = ?bytes"
    by (simp_all add: encode_field_def one)
  then have enc: "encode_field (CHR ''a'' # CHR 0x01 # replicate 255 (CHR ''x'')) @ encode_field ''b''
      = encode_field ''a'' @ encode_field (replicate 255 (CHR ''x'') @ [CHR 0x01, CHR ''b''])"
    by (rule trans [OF _ sym])
  have obj: "object_key_bytes wide_subject = object_key_bytes wide_relation"
    by (simp add: object_key_bytes_encode key_fields_def wide_subject_def wide_relation_def
        example_args_def)
  have len: "length (cache_key_bytes wide_subject) = 274"
    by (simp add: cache_key_bytes_encode key_fields_def wide_subject_def example_args_def
        field_bytes_def encode_field_def c_str_def)
  have bytes: "cache_key_bytes wide_subject = cache_key_bytes wide_relation"
    by (simp only: cache_key_bytes_encode key_fields_def wide_subject_def wide_relation_def
        example_args_def field_bytes_def key_args.simps option.case list.map concat.simps
        append_Nil2 append_assoc enc)
  show ?thesis
    unfolding fga_cache_key_def bytes obj len [unfolded bytes]
    by (simp add: wide_subject_def wide_relation_def example_args_def Let_def)
qed

text \<open>\<open>fga_cache_key\<close> does not write \<open>relation_id\<close> and \<open>_pad\<close>: they keep what the caller's
  variable held. Two keys of the same check are equal byte for byte, which is how the shared
  hash table compares them, only if those bytes happened to agree.\<close>

theorem cache_key_keeps_indeterminate_bytes:
  assumes "fga_cache_key xxh key1 a = Some k1" and "fga_cache_key xxh key2 a = Some k2"
  shows "low k1 = low k2 \<and> high k1 = high k2 \<and>
    (k1 = k2 \<longleftrightarrow> relation_id key1 = relation_id key2 \<and> key_pad key1 = key_pad key2)"
  using assms by (cases key1; cases key2) (auto simp: fga_cache_key_def Let_def split: if_splits)

theorem cache_key_keeps_indeterminate_bytes_witness:
  "\<exists>k1 k2. fga_cache_key sum_hash zero_key (example_args ''anne'') = Some k1 \<and>
     fga_cache_key sum_hash (zero_key\<lparr>relation_id := 7\<rparr>) (example_args ''anne'') = Some k2 \<and>
     low k1 = low k2 \<and> high k1 = high k2 \<and> k1 \<noteq> k2"
proof -
  have "fga_cache_key sum_hash key (example_args ''anne'') \<noteq> None" for key
    by (simp add: fga_cache_key_def Let_def cache_key_bytes_encode key_fields_def
        example_args_def field_bytes_def encode_field_def c_str_def)
  then obtain k1 k2 where k: "fga_cache_key sum_hash zero_key (example_args ''anne'') = Some k1"
     "fga_cache_key sum_hash (zero_key\<lparr>relation_id := 7\<rparr>) (example_args ''anne'') = Some k2"
    by blast
  from cache_key_keeps_indeterminate_bytes [OF k] k show ?thesis
    by (simp add: zero_key_def)
qed

end
