(* ===== verification/Cache_L1.thy ===== *)
theory Cache_L1
  imports Cache_Spec Cache_Key
begin

text \<open>
  The per-backend cache of \<open>src/cache_l1.h\<close>: 16384 sets of two ways, indexed by the low bits of
  the key's hash, with a one-bit pseudo-LRU per set. The backend's static pointer \<open>l1_cache\<close> is
  an option, \<open>None\<close> before \<open>l1_startup\<close>. The memory context the cache lives in is not modelled.

  The lemmas show that every operation keeps the cache well formed (an entry sits in the set of
  its key, no key twice in a set), that the cache is an \<open>acl_cache\<close> (no hit without a matching
  store), and the replacement policy.
\<close>

section \<open>Data and operations\<close>

abbreviation FGA_L1_NUM_SETS_BITS :: nat where "FGA_L1_NUM_SETS_BITS \<equiv> 14"
abbreviation FGA_L1_NUM_SETS :: nat where "FGA_L1_NUM_SETS \<equiv> 16384"
abbreviation FGA_L1_NUM_WAYS :: nat where "FGA_L1_NUM_WAYS \<equiv> 2"

record FgaL1Entry =
  l1_valid :: bool
  l1_allowed :: bool
  l1_global_gen :: u16
  l1_expires_at_ms :: u64
  l1_key :: FgaAclCacheKey

record FgaL1Set =
  ways :: "FgaL1Entry list"
  victim :: u8

record FgaL1Cache =
  l1_sets :: "FgaL1Set list"

definition l1_hash_to_set :: "FgaAclCacheKey \<Rightarrow> u32" where
  "l1_hash_to_set key = ucast (low key AND (2 ^ FGA_L1_NUM_SETS_BITS - 1))"

definition l1_key_equals :: "FgaAclCacheKey \<Rightarrow> FgaAclCacheKey \<Rightarrow> bool" where
  "l1_key_equals a b \<longleftrightarrow> low a = low b \<and> high a = high b"

definition l1_plru_access :: "FgaL1Set \<Rightarrow> nat \<Rightarrow> FgaL1Set" where
  "l1_plru_access cset way = cset\<lparr>victim := of_nat way XOR 1\<rparr>"

definition l1_plru_victim :: "FgaL1Set \<Rightarrow> nat" where
  "l1_plru_victim cset = unat (victim cset)"

text \<open>\<open>palloc0\<close>: every byte of the cache is zero.\<close>

definition zero_entry :: FgaL1Entry where
  "zero_entry = \<lparr>l1_valid = False, l1_allowed = False, l1_global_gen = 0, l1_expires_at_ms = 0,
     l1_key = zero_key\<rparr>"

definition l1_startup :: "FgaL1Cache option \<Rightarrow> FgaL1Cache option" where
  "l1_startup l1_cache = (case l1_cache of
     Some c \<Rightarrow> Some c
   | None \<Rightarrow> Some \<lparr>l1_sets = replicate FGA_L1_NUM_SETS
       \<lparr>ways = replicate FGA_L1_NUM_WAYS zero_entry, victim = 0\<rparr>\<rparr>)"

definition update_way :: "nat \<Rightarrow> (FgaL1Entry \<Rightarrow> FgaL1Entry) \<Rightarrow> FgaL1Set \<Rightarrow> FgaL1Set" where
  "update_way i f cset = cset\<lparr>ways := (ways cset)[i := f (ways cset ! i)]\<rparr>"

text \<open>
  The loop of \<open>l1_lookup\<close> over the ways still to visit. \<open>e->expires_at_ms <= now_ms\<close> compares a
  \<open>uint64_t\<close> with a \<open>TimestampTz\<close> (\<open>int64\<close>), which C does on unsigned values.
\<close>

fun l1_lookup_loop ::
  "FgaAclCacheKey \<Rightarrow> u16 \<Rightarrow> i64 \<Rightarrow> FgaL1Set \<Rightarrow> nat list \<Rightarrow> bool option \<times> FgaL1Set" where
  "l1_lookup_loop key cur_generation now_ms cset [] = (None, cset)"
| "l1_lookup_loop key cur_generation now_ms cset (i # is) =
     (let e = ways cset ! i in
      if \<not> l1_valid e then l1_lookup_loop key cur_generation now_ms cset is
      else if \<not> l1_key_equals (l1_key e) key then l1_lookup_loop key cur_generation now_ms cset is
      else if l1_expires_at_ms e \<le> now_ms then (None, update_way i (\<lambda>e. e\<lparr>l1_valid := False\<rparr>) cset)
      else if l1_global_gen e \<noteq> cur_generation
        then (None, update_way i (\<lambda>e. e\<lparr>l1_valid := False\<rparr>) cset)
      else (Some (l1_allowed e), l1_plru_access cset i))"

definition l1_lookup ::
  "FgaAclCacheKey \<Rightarrow> u16 \<Rightarrow> i64 \<Rightarrow> FgaL1Cache option \<Rightarrow> bool option \<times> FgaL1Cache option" where
  "l1_lookup key cur_generation now_ms l1_cache = (case l1_cache of
     None \<Rightarrow> (None, None)
   | Some c \<Rightarrow>
       (let idx = unat (l1_hash_to_set key);
            (r, cset') = l1_lookup_loop key cur_generation now_ms (l1_sets c ! idx)
                          [0..<FGA_L1_NUM_WAYS]
        in (r, Some (c\<lparr>l1_sets := (l1_sets c)[idx := cset']\<rparr>))))"

text \<open>The loop of \<open>l1_store\<close>, then the replacement after it; \<open>empty_slot\<close> is \<open>None\<close> for \<open>-1\<close>.\<close>

fun l1_store_loop ::
  "FgaAclCacheKey \<Rightarrow> u16 \<Rightarrow> u64 \<Rightarrow> bool \<Rightarrow> FgaL1Set \<Rightarrow> nat option \<Rightarrow> nat list \<Rightarrow> FgaL1Set" where
  "l1_store_loop key generation expires_at_ms allowed cset empty_slot [] =
     (let target = (case empty_slot of Some i \<Rightarrow> i | None \<Rightarrow> l1_plru_victim cset);
          set1 = update_way target (\<lambda>e. e\<lparr>l1_valid := True, l1_key := key, l1_allowed := allowed,
                   l1_expires_at_ms := expires_at_ms, l1_global_gen := generation\<rparr>) cset
      in l1_plru_access set1 target)"
| "l1_store_loop key generation expires_at_ms allowed cset empty_slot (i # is) =
     (let e = ways cset ! i in
      if \<not> l1_valid e then
        l1_store_loop key generation expires_at_ms allowed cset
          (if empty_slot = None then Some i else empty_slot) is
      else if l1_key_equals (l1_key e) key then
        l1_plru_access (update_way i (\<lambda>e. e\<lparr>l1_allowed := allowed,
          l1_expires_at_ms := expires_at_ms, l1_global_gen := generation\<rparr>) cset) i
      else l1_store_loop key generation expires_at_ms allowed cset empty_slot is)"

definition l1_store ::
  "FgaAclCacheKey \<Rightarrow> u16 \<Rightarrow> i64 \<Rightarrow> bool \<Rightarrow> FgaL1Cache option \<Rightarrow> FgaL1Cache option" where
  "l1_store key generation expires_at_ms allowed l1_cache = (case l1_cache of
     None \<Rightarrow> None
   | Some c \<Rightarrow>
       (let set_idx = unat (l1_hash_to_set key);
            cset' = l1_store_loop key generation expires_at_ms allowed (l1_sets c ! set_idx) None
                     [0..<FGA_L1_NUM_WAYS]
        in Some (c\<lparr>l1_sets := (l1_sets c)[set_idx := cset']\<rparr>)))"

text \<open>The bodies of these loops touch one set (one way) each, so the loops are maps.\<close>

definition l1_invalidate_all :: "FgaL1Cache option \<Rightarrow> FgaL1Cache option" where
  "l1_invalidate_all l1_cache = map_option (\<lambda>c. c\<lparr>l1_sets :=
     map (\<lambda>cset. cset\<lparr>ways := map (\<lambda>e. e\<lparr>l1_valid := False\<rparr>) (ways cset), victim := 0\<rparr>)
       (l1_sets c)\<rparr>) l1_cache"

definition l1_invalidate_by_generation :: "u16 \<Rightarrow> FgaL1Cache option \<Rightarrow> FgaL1Cache option" where
  "l1_invalidate_by_generation old_generation l1_cache = map_option (\<lambda>c. c\<lparr>l1_sets :=
     map (\<lambda>cset. cset\<lparr>ways := map (\<lambda>e.
       if l1_valid e \<and> l1_global_gen e = old_generation then e\<lparr>l1_valid := False\<rparr> else e)
         (ways cset)\<rparr>) (l1_sets c)\<rparr>) l1_cache"

section \<open>Invariant and content\<close>

text \<open>
  A set has two ways and its victim is one of them; a valid entry belongs to the set and the two
  ways never hold the same key.
\<close>

definition l1_set_wf :: "nat \<Rightarrow> FgaL1Set \<Rightarrow> bool" where
  "l1_set_wf idx cset \<longleftrightarrow> length (ways cset) = 2 \<and> victim cset \<le> 1 \<and>
     (\<forall>e \<in> set (ways cset). l1_valid e \<longrightarrow> unat (l1_hash_to_set (l1_key e)) = idx) \<and>
     \<not> (l1_valid (ways cset ! 0) \<and> l1_valid (ways cset ! 1) \<and>
        l1_key_equals (l1_key (ways cset ! 0)) (l1_key (ways cset ! 1)))"

definition l1_wf :: "FgaL1Cache option \<Rightarrow> bool" where
  "l1_wf l1_cache = (case l1_cache of None \<Rightarrow> True
   | Some c \<Rightarrow> length (l1_sets c) = FGA_L1_NUM_SETS \<and>
       (\<forall>idx < FGA_L1_NUM_SETS. l1_set_wf idx (l1_sets c ! idx)))"

definition l1_entry_value :: "FgaL1Entry \<Rightarrow> acl_value" where
  "l1_entry_value e = (l1_allowed e, l1_expires_at_ms e, l1_global_gen e)"

definition l1_set_content :: "FgaL1Set \<Rightarrow> FgaAclCacheKey \<rightharpoonup> acl_value" where
  "l1_set_content cset key = map_option l1_entry_value
     (find (\<lambda>e. l1_valid e \<and> l1_key_equals (l1_key e) key) (ways cset))"

definition l1_content :: "FgaL1Cache option \<Rightarrow> FgaAclCacheKey \<rightharpoonup> acl_value" where
  "l1_content l1_cache key = (case l1_cache of None \<Rightarrow> None
   | Some c \<Rightarrow> l1_set_content (l1_sets c ! unat (l1_hash_to_set key)) key)"

definition l1_fresh :: "u16 \<Rightarrow> i64 \<Rightarrow> acl_value \<Rightarrow> bool" where
  "l1_fresh cur_generation now_ms v = (case v of (allowed, expires, gen) \<Rightarrow>
     now_ms < expires \<and> gen = cur_generation)"

lemma l1_key_equals_refl [simp]: "l1_key_equals k k"
  by (simp add: l1_key_equals_def)

lemma l1_key_equals_sym: "l1_key_equals a b \<longleftrightarrow> l1_key_equals b a"
  by (auto simp: l1_key_equals_def)

lemma l1_key_equals_trans: "l1_key_equals a b \<Longrightarrow> l1_key_equals b c \<Longrightarrow> l1_key_equals a c"
  by (auto simp: l1_key_equals_def)

lemma l1_hash_cong: "l1_key_equals a b \<Longrightarrow> l1_hash_to_set a = l1_hash_to_set b"
  by (auto simp: l1_hash_to_set_def l1_key_equals_def)

lemma l1_hash_bound: "unat (l1_hash_to_set key) < FGA_L1_NUM_SETS"
proof -
  have "unat (low key AND (2 ^ 14 - 1)) = unat (low key) mod 2 ^ 14"
    by (rule unat_and_mask) simp
  then have "unat (low key AND (2 ^ 14 - 1)) < 16384" by simp
  moreover have "unat (ucast (low key AND (2 ^ 14 - 1)) :: u32)
      = unat (low key AND (2 ^ 14 - 1)) mod 2 ^ 32"
    by (simp add: unsigned_ucast_eq take_bit_eq_mod)
  ultimately show ?thesis by (simp add: l1_hash_to_set_def)
qed

lemma l1_set_wf_cases:
  assumes "l1_set_wf idx cset"
  obtains a b where "ways cset = [a, b]" and "victim cset = 0 \<or> victim cset = 1"
proof -
  from assms obtain a b where "ways cset = [a, b]"
    by (auto simp: l1_set_wf_def numeral_2_eq_2 length_Suc_conv)
  moreover have "victim cset = 0 \<or> victim cset = 1"
    using assms by (auto simp: l1_set_wf_def word_le_nat_alt word_unat_eq_iff le_Suc_eq)
  ultimately show thesis by (rule that)
qed

lemma upt_ways: "[0..<2] = [0, Suc 0]"
  by (simp add: upt_rec)

lemmas l1_set_defs = l1_set_wf_def l1_set_content_def l1_entry_value_def update_way_def
  l1_plru_access_def l1_plru_victim_def

lemma l1_lookup_loop_spec:
  assumes wf: "l1_set_wf idx cset"
    and loop: "l1_lookup_loop key cur_generation now_ms cset [0..<2] = (r, cset')"
  shows "l1_set_wf idx cset'"
    and "l1_set_content cset' k = l1_set_content cset k \<or> l1_set_content cset' k = None"
    and "r = (case l1_set_content cset key of None \<Rightarrow> None
              | Some v \<Rightarrow> if l1_fresh cur_generation now_ms v then Some (fst v) else None)"
proof -
  from wf obtain a b where w: "ways cset = [a, b]" by (rule l1_set_wf_cases)
  have eq: "\<And>x. l1_key_equals (l1_key x) key \<longleftrightarrow> l1_key_equals key (l1_key x)"
    by (rule l1_key_equals_sym)
  show "l1_set_wf idx cset'"
    using wf loop w by (auto simp: upt_ways l1_set_defs Let_def split: if_splits)
  show "l1_set_content cset' k = l1_set_content cset k \<or> l1_set_content cset' k = None"
    using wf loop w
    by (auto simp: upt_ways l1_set_defs Let_def l1_key_equals_def split: if_splits)
  show "r = (case l1_set_content cset key of None \<Rightarrow> None
              | Some v \<Rightarrow> if l1_fresh cur_generation now_ms v then Some (fst v) else None)"
    using wf loop w
    by (auto simp: upt_ways l1_set_defs Let_def l1_fresh_def not_le split: if_splits)
qed

text \<open>Writing an entry for \<open>key\<close> into one way, when the other way does not hold that key.\<close>

lemma l1_put_way:
  assumes wf: "l1_set_wf (unat (l1_hash_to_set key)) cset" and t: "t = 0 \<or> t = Suc 0"
    and f: "l1_valid (f (ways cset ! t))" "l1_key_equals (l1_key (f (ways cset ! t))) key"
      "l1_entry_value (f (ways cset ! t)) = v"
    and other: "l1_valid (ways cset ! (1 - t)) \<longrightarrow> \<not> l1_key_equals (l1_key (ways cset ! (1 - t))) key"
  defines "cset' \<equiv> l1_plru_access (update_way t f cset) t"
  shows "l1_set_wf (unat (l1_hash_to_set key)) cset' \<and>
    l1_set_content cset' k = (if l1_key_equals key k then Some v
      else if l1_valid (ways cset ! t) \<and> l1_key_equals (l1_key (ways cset ! t)) k then None
      else l1_set_content cset k)"
proof -
  from wf obtain a b where w: "ways cset = [a, b]" by (rule l1_set_wf_cases)
  have hash: "l1_hash_to_set (l1_key (f (ways cset ! t))) = l1_hash_to_set key"
    by (rule l1_hash_cong [OF f(2)])
  from t show ?thesis
    by (elim disjE)
      (use wf f other hash w in \<open>auto simp: cset'_def l1_set_wf_def l1_set_content_def
        update_way_def l1_plru_access_def l1_key_equals_def\<close>)
qed

lemma l1_store_loop_form:
  assumes "ways cset = [a, b]"
  shows "l1_store_loop key generation expires_at_ms allowed cset None [0..<2] =
    (let upd = \<lambda>e. e\<lparr>l1_allowed := allowed, l1_expires_at_ms := expires_at_ms,
           l1_global_gen := generation\<rparr>;
         new = \<lambda>e. upd (e\<lparr>l1_valid := True, l1_key := key\<rparr>);
         target = (if \<not> l1_valid a then 0 else if \<not> l1_valid b then Suc 0 else unat (victim cset))
     in if l1_valid a \<and> l1_key_equals (l1_key a) key then l1_plru_access (update_way 0 upd cset) 0
        else if l1_valid b \<and> l1_key_equals (l1_key b) key
        then l1_plru_access (update_way (Suc 0) upd cset) (Suc 0)
        else l1_plru_access (update_way target new cset) target)"
  by (simp add: upt_ways assms l1_plru_victim_def Let_def)

lemma l1_store_loop_put:
  fixes generation :: u16 and expires_at_ms :: u64 and allowed :: bool
  assumes wf: "l1_set_wf (unat (l1_hash_to_set key)) cset"
  defines "cset' \<equiv> l1_store_loop key generation expires_at_ms allowed cset None [0..<2]"
  shows "\<exists>t f. (t = 0 \<or> t = Suc 0) \<and> cset' = l1_plru_access (update_way t f cset) t \<and>
      l1_valid (f (ways cset ! t)) \<and> l1_key_equals (l1_key (f (ways cset ! t))) key \<and>
      l1_entry_value (f (ways cset ! t)) = (allowed, expires_at_ms, generation) \<and>
      (l1_valid (ways cset ! (1 - t)) \<longrightarrow> \<not> l1_key_equals (l1_key (ways cset ! (1 - t))) key)"
proof -
  from wf obtain a b where w: "ways cset = [a, b]" and v: "victim cset = 0 \<or> victim cset = 1"
    by (rule l1_set_wf_cases)
  let ?upd = "\<lambda>e. e\<lparr>l1_allowed := allowed, l1_expires_at_ms := expires_at_ms,
    l1_global_gen := generation\<rparr>"
  let ?new = "\<lambda>e. ?upd (e\<lparr>l1_valid := True, l1_key := key\<rparr>)"
  note form = l1_store_loop_form [OF w, of key generation expires_at_ms allowed, folded cset'_def]
  show ?thesis
  proof (cases "l1_valid a \<and> l1_key_equals (l1_key a) key")
    case True
    then show ?thesis using wf w
      by (intro exI [of _ 0] exI [of _ ?upd])
        (auto simp: form l1_entry_value_def l1_set_wf_def l1_key_equals_def)
  next
    case na: False
    show ?thesis
    proof (cases "l1_valid b \<and> l1_key_equals (l1_key b) key")
      case True
      then show ?thesis using na w
        by (intro exI [of _ "Suc 0"] exI [of _ ?upd]) (simp add: form l1_entry_value_def)
    next
      case False
      define t where "t = (if \<not> l1_valid a then 0 else if \<not> l1_valid b then Suc 0
        else unat (victim cset))"
      have "t = 0 \<or> t = Suc 0" using v by (auto simp: t_def)
      with na False w show ?thesis
        by (intro exI [of _ t] exI [of _ ?new])
          (auto simp: form l1_entry_value_def Let_def t_def [symmetric])
    qed
  qed
qed

lemma l1_store_loop_spec:
  fixes generation :: u16 and expires_at_ms :: u64 and allowed :: bool
  assumes wf: "l1_set_wf (unat (l1_hash_to_set key)) cset"
  defines "cset' \<equiv> l1_store_loop key generation expires_at_ms allowed cset None [0..<2]"
  shows "l1_set_wf (unat (l1_hash_to_set key)) cset'"
    and "l1_key_equals key k \<Longrightarrow> l1_set_content cset' k = Some (allowed, expires_at_ms, generation)"
    and "\<not> l1_key_equals key k \<Longrightarrow>
      l1_set_content cset' k = l1_set_content cset k \<or> l1_set_content cset' k = None"
proof -
  from l1_store_loop_put [OF wf, of generation expires_at_ms allowed, folded cset'_def]
  obtain t f where "t = 0 \<or> t = Suc 0" "cset' = l1_plru_access (update_way t f cset) t"
    "l1_valid (f (ways cset ! t))" "l1_key_equals (l1_key (f (ways cset ! t))) key"
    "l1_entry_value (f (ways cset ! t)) = (allowed, expires_at_ms, generation)"
    "l1_valid (ways cset ! (1 - t)) \<longrightarrow> \<not> l1_key_equals (l1_key (ways cset ! (1 - t))) key" by blast
  note put = l1_put_way [of key cset t f, OF wf this(1,3,4,5,6), folded this(2)]
  show "l1_set_wf (unat (l1_hash_to_set key)) cset'" using put by blast
  show "l1_key_equals key k \<Longrightarrow> l1_set_content cset' k = Some (allowed, expires_at_ms, generation)"
    and "\<not> l1_key_equals key k \<Longrightarrow>
      l1_set_content cset' k = l1_set_content cset k \<or> l1_set_content cset' k = None"
    using put [of k] by (auto split: if_splits)
qed

lemma l1_wf_set:
  "l1_wf (Some c) \<Longrightarrow> idx < FGA_L1_NUM_SETS \<Longrightarrow> l1_set_wf idx (l1_sets c ! idx)"
  by (simp add: l1_wf_def)

text \<open>Replacing one set by a well-formed one whose content is within \<open>m\<close>.\<close>

lemma l1_replace_set:
  assumes wf: "l1_wf (Some c)" and idx: "idx = unat (l1_hash_to_set key)"
    and cset': "l1_set_wf idx cset'"
    and le: "\<And>k. unat (l1_hash_to_set k) = idx \<Longrightarrow>
      l1_set_content cset' k = None \<or> l1_set_content cset' k = m k"
    and rest: "\<And>k. unat (l1_hash_to_set k) \<noteq> idx \<Longrightarrow> m k = l1_content (Some c) k"
  shows "l1_wf (Some (c\<lparr>l1_sets := (l1_sets c)[idx := cset']\<rparr>)) \<and>
    l1_content (Some (c\<lparr>l1_sets := (l1_sets c)[idx := cset']\<rparr>)) \<subseteq>\<^sub>m m"
proof
  have len: "length (l1_sets c) = FGA_L1_NUM_SETS" using wf by (simp add: l1_wf_def)
  have bound: "idx < FGA_L1_NUM_SETS" unfolding idx by (rule l1_hash_bound)
  show "l1_wf (Some (c\<lparr>l1_sets := (l1_sets c)[idx := cset']\<rparr>))"
    using wf cset' bound by (auto simp: l1_wf_def nth_list_update)
  have "l1_content (Some (c\<lparr>l1_sets := (l1_sets c)[idx := cset']\<rparr>)) k = None \<or>
        l1_content (Some (c\<lparr>l1_sets := (l1_sets c)[idx := cset']\<rparr>)) k = m k" for k
    using le [of k] rest [of k] len bound
    by (cases "unat (l1_hash_to_set k) = idx") (simp_all add: l1_content_def)
  then show "l1_content (Some (c\<lparr>l1_sets := (l1_sets c)[idx := cset']\<rparr>)) \<subseteq>\<^sub>m m"
    unfolding map_le_def dom_def by (metis (mono_tags, lifting) mem_Collect_eq)
qed

lemma l1_lookup_spec:
  assumes wf: "l1_wf l1c" and look: "l1_lookup key cur_generation now_ms l1c = (r, l1c')"
  shows "l1_wf l1c' \<and> l1_content l1c' \<subseteq>\<^sub>m l1_content l1c \<and>
    r = (case l1_content l1c key of None \<Rightarrow> None
         | Some v \<Rightarrow> if l1_fresh cur_generation now_ms v then Some (fst v) else None)"
proof (cases l1c)
  case None
  with look show ?thesis by (simp add: l1_lookup_def l1_wf_def l1_content_def)
next
  case (Some c)
  let ?idx = "unat (l1_hash_to_set key)"
  obtain r1 cset' where loop: "l1_lookup_loop key cur_generation now_ms (l1_sets c ! ?idx) [0..<2]
      = (r1, cset')" by fastforce
  have l1c': "l1c' = Some (c\<lparr>l1_sets := (l1_sets c)[?idx := cset']\<rparr>)" and r: "r = r1"
    using look loop by (auto simp: l1_lookup_def Some Let_def)
  have swf: "l1_set_wf ?idx (l1_sets c ! ?idx)"
    using wf l1_wf_set l1_hash_bound by (simp add: Some)
  note spec = l1_lookup_loop_spec [OF swf loop]
  have "l1_wf l1c' \<and> l1_content l1c' \<subseteq>\<^sub>m l1_content l1c"
    unfolding l1c' Some
    by (rule l1_replace_set) (use wf spec(1,2) in \<open>auto simp: Some l1_content_def\<close>)
  then show ?thesis using spec(3) by (simp add: r Some l1_content_def)
qed

lemma l1_store_spec:
  assumes wf: "l1_wf l1c"
  shows "l1_wf (l1_store key generation expires_at_ms allowed l1c) \<and>
    l1_content (l1_store key generation expires_at_ms allowed l1c) \<subseteq>\<^sub>m
      map_upd_class l1_key_equals (l1_content l1c) key (allowed, expires_at_ms, generation)"
proof (cases l1c)
  case None
  then show ?thesis by (simp add: l1_store_def l1_wf_def l1_content_def map_le_def dom_def)
next
  case (Some c)
  let ?idx = "unat (l1_hash_to_set key)"
  let ?cset' = "l1_store_loop key generation expires_at_ms allowed (l1_sets c ! ?idx) None [0..<2]"
  have store: "l1_store key generation expires_at_ms allowed l1c
      = Some (c\<lparr>l1_sets := (l1_sets c)[?idx := ?cset']\<rparr>)"
    by (simp add: l1_store_def Some Let_def)
  have swf: "l1_set_wf ?idx (l1_sets c ! ?idx)"
    using wf l1_wf_set l1_hash_bound by (simp add: Some)
  note spec = l1_store_loop_spec [OF swf, where generation = generation and
      expires_at_ms = expires_at_ms and allowed = allowed]
  show ?thesis
    unfolding store
  proof (rule l1_replace_set)
    fix k assume k: "unat (l1_hash_to_set k) = ?idx"
    then show "l1_set_content ?cset' k = None \<or> l1_set_content ?cset' k =
        map_upd_class l1_key_equals (l1_content l1c) key (allowed, expires_at_ms, generation) k"
      using spec(2,3) [of k] by (auto simp: map_upd_class_def l1_content_def Some)
  next
    fix k assume "unat (l1_hash_to_set k) \<noteq> ?idx"
    then show "map_upd_class l1_key_equals (l1_content l1c) key (allowed, expires_at_ms, generation) k
        = l1_content (Some c) k"
      using l1_hash_cong [of key k] by (auto simp: map_upd_class_def Some)
  qed (use wf spec(1) in \<open>simp_all add: Some\<close>)
qed

lemma l1_content_store:
  assumes "l1_wf (Some c)"
  shows "l1_content (l1_store key generation expires_at_ms allowed (Some c)) key
    = Some (allowed, expires_at_ms, generation)"
proof -
  let ?idx = "unat (l1_hash_to_set key)"
  have swf: "l1_set_wf ?idx (l1_sets c ! ?idx)" and len: "length (l1_sets c) = FGA_L1_NUM_SETS"
    using assms l1_wf_set l1_hash_bound by (simp_all add: l1_wf_def)
  show ?thesis
    using l1_store_loop_spec(2) [OF swf l1_key_equals_refl] l1_hash_bound [of key] len
    by (simp add: l1_store_def l1_content_def Let_def)
qed

text \<open>The time of an L1 operation is the current generation and the clock.\<close>

interpretation l1: acl_cache l1_wf l1_key_equals l1_content "\<lambda>s t. l1_fresh (fst t) (snd t)" fst
  "\<lambda>t key. l1_lookup key (fst t) (snd t)"
  "\<lambda>t key v. l1_store key (snd (snd v)) (fst (snd v)) (fst v)"
proof (unfold_locales, goal_cases)
  case (1 s t k r s') then show ?case by (rule l1_lookup_spec)
next
  case (2 s t k v) then show ?case using l1_store_spec [of s k] by (cases v) simp
qed

lemma l1_wf_startup: "l1_wf (l1_startup None) \<and> l1_content (l1_startup None) = Map.empty"
  using l1_hash_bound
  by (auto simp: l1_startup_def l1_wf_def l1_set_wf_def l1_content_def l1_set_content_def
      zero_entry_def numeral_2_eq_2 fun_eq_iff)

section \<open>Replacement\<close>

text \<open>Way \<open>i\<close> holds the key and the other way is the next victim.\<close>

definition l1_protected :: "FgaL1Set \<Rightarrow> FgaAclCacheKey \<Rightarrow> bool" where
  "l1_protected cset key \<longleftrightarrow> (\<exists>i. (i = 0 \<or> i = Suc 0) \<and> l1_valid (ways cset ! i) \<and>
     l1_key_equals (l1_key (ways cset ! i)) key \<and> victim cset = of_nat (Suc 0 - i))"

lemma l1_store_loop_protects:
  assumes wf: "l1_set_wf (unat (l1_hash_to_set key)) cset"
  shows "l1_protected (l1_store_loop key generation expires_at_ms allowed cset None [0..<2]) key"
proof -
  let ?cset' = "l1_store_loop key generation expires_at_ms allowed cset None [0..<2]"
  from wf have len: "length (ways cset) = 2" by (simp add: l1_set_wf_def)
  from l1_store_loop_put [OF wf, of generation expires_at_ms allowed] obtain t f
    where t: "t = 0 \<or> t = Suc 0" and c: "?cset' = l1_plru_access (update_way t f cset) t"
      and f: "l1_valid (f (ways cset ! t))" "l1_key_equals (l1_key (f (ways cset ! t))) key" by blast
  have "ways ?cset' ! t = f (ways cset ! t)"
    using t len by (auto simp: c l1_plru_access_def update_way_def)
  moreover have "victim ?cset' = of_nat (Suc 0 - t)"
    using t by (auto simp: c l1_plru_access_def)
  ultimately show ?thesis
    unfolding l1_protected_def using t f by (intro exI [of _ t]) simp
qed

lemma l1_store_loop_keeps:
  assumes wf: "l1_set_wf idx cset" and p: "l1_protected cset k" and ne: "\<not> l1_key_equals key k"
  shows "l1_set_content (l1_store_loop key generation expires_at_ms allowed cset None [0..<2]) k
    = l1_set_content cset k"
proof -
  from wf obtain a b where w: "ways cset = [a, b]" by (rule l1_set_wf_cases)
  have ne': "\<not> (l1_key_equals x k \<and> l1_key_equals x key)" for x
    using ne by (auto simp: l1_key_equals_def)
  from p consider "l1_valid a" "l1_key_equals (l1_key a) k" "victim cset = 1"
    | "l1_valid b" "l1_key_equals (l1_key b) k" "victim cset = 0"
    by (auto simp: l1_protected_def w)
  then show ?thesis
  proof cases
    case 1
    then show ?thesis
      using ne ne' unfolding l1_store_loop_form [OF w]
      by (auto simp: w Let_def update_way_def l1_plru_access_def l1_set_content_def)
  next
    case 2
    have "\<not> (l1_valid a \<and> l1_key_equals (l1_key a) k)"
      using wf 2 by (auto simp: l1_set_wf_def w l1_key_equals_def)
    with 2 show ?thesis
      using ne ne' unfolding l1_store_loop_form [OF w]
      by (auto simp: w Let_def update_way_def l1_plru_access_def l1_set_content_def)
  qed
qed

lemma l1_content_store_store:
  assumes wf: "l1_wf (Some c)" and ne: "\<not> l1_key_equals key k"
  shows "l1_content (l1_store key g2 e2 a2 (l1_store k g e a (Some c))) k = Some (a, e, g)"
proof -
  let ?i = "unat (l1_hash_to_set k)" and ?j = "unat (l1_hash_to_set key)"
  let ?s = "l1_store_loop k g e a (l1_sets c ! ?i) None [0..<2]"
  have swf: "l1_set_wf ?i (l1_sets c ! ?i)" and len: "length (l1_sets c) = FGA_L1_NUM_SETS"
    using wf l1_wf_set l1_hash_bound by (simp_all add: l1_wf_def)
  note spec = l1_store_loop_spec [OF swf, where generation = g and expires_at_ms = e and allowed = a]
  have "l1_set_content (l1_store_loop key g2 e2 a2 ?s None [0..<2]) k = l1_set_content ?s k"
    by (rule l1_store_loop_keeps [OF spec(1) l1_store_loop_protects [OF swf] ne])
  then show ?thesis
    using spec(2) [OF l1_key_equals_refl] l1_hash_bound [of k] l1_hash_bound [of key] len
    by (cases "?i = ?j") (simp_all add: l1_store_def l1_content_def Let_def)
qed

lemma l1_lookup_content:
  assumes "l1_wf l1c"
  shows "fst (l1_lookup key gen now l1c) = (case l1_content l1c key of None \<Rightarrow> None
    | Some v \<Rightarrow> if l1_fresh gen now v then Some (fst v) else None)"
proof -
  obtain r l1c' where "l1_lookup key gen now l1c = (r, l1c')" by (rule prod.exhaust)
  from l1_lookup_spec [OF assms this] this show ?thesis by simp
qed

section \<open>Invalidation\<close>

lemma l1_content_invalidate_by_generation:
  assumes "l1_wf l1c"
  shows "l1_wf (l1_invalidate_by_generation g l1c)"
    and "l1_content (l1_invalidate_by_generation g l1c) key = (case l1_content l1c key of
      None \<Rightarrow> None | Some v \<Rightarrow> if snd (snd v) = g then None else Some v)"
proof -
  show "l1_wf (l1_invalidate_by_generation g l1c)"
  proof (cases l1c)
    case None then show ?thesis by (simp add: l1_invalidate_by_generation_def l1_wf_def)
  next
    case (Some c)
    have len: "length (l1_sets c) = FGA_L1_NUM_SETS" using assms by (simp add: Some l1_wf_def)
    have "l1_set_wf idx (cset\<lparr>ways := map (\<lambda>e. if l1_valid e \<and> l1_global_gen e = g
        then e\<lparr>l1_valid := False\<rparr> else e) (ways cset)\<rparr>)" if "l1_set_wf idx cset" for idx cset
      using that by (rule l1_set_wf_cases) (use that in \<open>auto simp: l1_set_wf_def\<close>)
    then show ?thesis
      using assms by (simp add: Some l1_invalidate_by_generation_def l1_wf_def)
  qed
  show "l1_content (l1_invalidate_by_generation g l1c) key = (case l1_content l1c key of
      None \<Rightarrow> None | Some v \<Rightarrow> if snd (snd v) = g then None else Some v)"
  proof (cases l1c)
    case None then show ?thesis by (simp add: l1_invalidate_by_generation_def l1_content_def)
  next
    case (Some c)
    let ?i = "unat (l1_hash_to_set key)"
    have len: "length (l1_sets c) = FGA_L1_NUM_SETS" and swf: "l1_set_wf ?i (l1_sets c ! ?i)"
      using assms l1_wf_set l1_hash_bound by (simp_all add: Some l1_wf_def)
    from swf obtain a b where w: "ways (l1_sets c ! ?i) = [a, b]" by (rule l1_set_wf_cases)
    show ?thesis
      using swf w l1_hash_bound [of key]
      by (auto simp: Some l1_invalidate_by_generation_def l1_content_def len l1_set_content_def
          l1_entry_value_def l1_set_wf_def l1_key_equals_def)
  qed
qed

lemma l1_content_invalidate_all:
  assumes "l1_wf l1c"
  shows "l1_wf (l1_invalidate_all l1c)" and "l1_content (l1_invalidate_all l1c) = Map.empty"
proof -
  show "l1_wf (l1_invalidate_all l1c)"
    using assms by (auto simp: l1_invalidate_all_def l1_wf_def l1_set_wf_def split: option.splits)
  show "l1_content (l1_invalidate_all l1c) = Map.empty"
  proof
    fix key
    show "l1_content (l1_invalidate_all l1c) key = None"
      using assms l1_hash_bound [of key]
      by (auto simp: l1_invalidate_all_def l1_content_def l1_set_content_def l1_wf_def
          find_None_iff split: option.splits)
  qed
qed

section \<open>Properties\<close>

text \<open>A backend's cache from its start: the operations in order, nothing stored before them.\<close>

definition l1_run ::
  "(u16 \<times> i64, FgaAclCacheKey, acl_value) cache_op list
    \<Rightarrow> (FgaL1Cache option \<times> (u16 \<times> i64) \<times> acl_value option \<times> bool option) list" where
  "l1_run ops = cache_run l1_key_equals (\<lambda>t key. l1_lookup key (fst t) (snd t))
     (\<lambda>t key v. l1_store key (snd (snd v)) (fst (snd v)) (fst v)) ops (l1_startup None) Map.empty"


lemma l1_store_hit:
  assumes "l1_wf (Some c)" and "now < e"
  shows "fst (l1_lookup key g now (l1_store key g e a (Some c))) = Some a"
  using assms l1_store_spec [of "Some c" key g e a]
  by (simp add: l1_lookup_content l1_content_store l1_fresh_def)




text \<open>
  After \<open>l1_invalidate_by_generation g\<close> every lookup under generation \<open>g\<close> misses and every
  lookup under another generation answers as before; after \<open>l1_invalidate_all\<close> all lookups
  miss; both leave a well-formed cache.
\<close>

theorem l1_invalidation_exact:
  assumes "l1_wf l1c"
  shows "fst (l1_lookup key gen now (l1_invalidate_by_generation g l1c))
      = (if gen = g then None else fst (l1_lookup key gen now l1c)) \<and>
    fst (l1_lookup key gen now (l1_invalidate_all l1c)) = None \<and>
    l1_wf (l1_invalidate_by_generation g l1c) \<and> l1_wf (l1_invalidate_all l1c)"
  using l1_content_invalidate_by_generation [OF assms, of g]
    l1_content_invalidate_all [OF assms] assms
  by (auto simp: l1_lookup_content l1_fresh_def split: option.splits)

theorem l1_invalidation_exact_witness:
  "fst (l1_lookup zero_key 3 10 (l1_invalidate_by_generation 3
     (l1_store zero_key 3 60 True (l1_startup None)))) = None \<and>
   fst (l1_lookup zero_key 3 10 (l1_invalidate_by_generation 2
     (l1_store zero_key 3 60 True (l1_startup None)))) = Some True"
proof -
  obtain c where c: "l1_startup None = Some c" by (auto simp: l1_startup_def)
  have wf: "l1_wf (l1_store zero_key 3 60 True (l1_startup None))"
    using l1_wf_startup l1_store_spec by blast
  have "fst (l1_lookup zero_key 3 10 (l1_store zero_key 3 60 True (l1_startup None))) = Some True"
    using l1_store_hit [of c 10 60] l1_wf_startup by (simp add: c)
  then show ?thesis using l1_invalidation_exact [OF wf, of zero_key 3 10] by simp
qed

end
