(* ===== verification/Cache_L2.thy ===== *)
theory Cache_L2
  imports Cache_Spec Cache_Key
begin

text \<open>
  The shared cache of \<open>src/cache_l2.h\<close>: an array of entries in shared memory, a PostgreSQL shared
  hash table from key to array slot, and clock-sweep replacement. The hash table is PostgreSQL's
  dynahash, not part of the repository; it is the parameter \<open>ht\<close> with the documented laws
  \<open>ht_ok\<close>. The lightweight lock is held over each operation, so an operation is one step
  here. \<open>l2_lookup\<close> takes it in shared mode only and yet adjusts \<open>usage_count\<close>; \<open>Cache_L2_Shared\<close>
  takes its accesses apart. Nothing here relies on the maximum of the counts.

  The lemmas show that index and array stay consistent, that the clock hand finds a victim within
  the number of usage counts left to count down, that \<open>l2_store\<close> never fails, and that the
  cache is an \<open>acl_cache\<close>.
\<close>

section \<open>Data\<close>

abbreviation FGA_L2_USAGE_MAX :: u8 where "FGA_L2_USAGE_MAX \<equiv> 5"

abbreviation SIZEOF_FgaL2AclEntry :: u64 where "SIZEOF_FgaL2AclEntry \<equiv> 64"

record FgaL2AclValue =
  l2_allowed :: bool
  l2_global_gen :: u16
  l2_object_gen :: u16
  l2_expires_at_ms :: i64
  usage_count :: u8

record FgaL2AclEntry =
  l2_key :: FgaAclCacheKey
  l2_value :: FgaL2AclValue
  l2_valid :: bool

record FgaL2AclCache =
  nextVictim :: u32
  l2_capacity :: u32
  l2_generation :: u16
  l2_entries :: "FgaL2AclEntry list"

text \<open>
  dynahash with \<open>HASH_BLOBS\<close>: keys are equal when all their bytes are. \<open>ht_find\<close> is
  \<open>HASH_FIND\<close> (the \<open>slot_no\<close> of the \<open>FgaL2AclSlot\<close> found), \<open>ht_enter\<close> is \<open>HASH_ENTER\<close> of a new
  key and the assignment to its \<open>slot_no\<close>, \<open>None\<close> when there is no memory; \<open>ht_max\<close> is the number
  of elements a fixed-size table was created for.
\<close>

record 'h dynahash =
  ht_create :: "u64 \<Rightarrow> 'h"
  ht_max :: "'h \<Rightarrow> nat"
  ht_find :: "'h \<Rightarrow> FgaAclCacheKey \<Rightarrow> u32 option"
  ht_enter :: "FgaAclCacheKey \<Rightarrow> u32 \<Rightarrow> 'h \<Rightarrow> 'h option"
  ht_remove :: "FgaAclCacheKey \<Rightarrow> 'h \<Rightarrow> 'h"

definition ht_ok :: "'h dynahash \<Rightarrow> bool" where
  "ht_ok ht \<longleftrightarrow>
     (\<forall>n. ht_find ht (ht_create ht n) = Map.empty \<and> ht_max ht (ht_create ht n) = unat n) \<and>
     (\<forall>k h. ht_find ht (ht_remove ht k h) = (ht_find ht h)(k := None) \<and>
        ht_max ht (ht_remove ht k h) = ht_max ht h) \<and>
     (\<forall>k s h h'. ht_enter ht k s h = Some h' \<longrightarrow>
        ht_find ht h' = (ht_find ht h)(k \<mapsto> s) \<and> ht_max ht h' = ht_max ht h) \<and>
     (\<forall>k s h. finite (dom (ht_find ht h)) \<and> card (dom (ht_find ht h)) < ht_max ht h \<longrightarrow>
        ht_enter ht k s h \<noteq> None)"

lemma ht_laws:
  assumes "ht_ok ht"
  shows ht_find_create: "ht_find ht (ht_create ht n) = Map.empty"
    and ht_max_create: "ht_max ht (ht_create ht n) = unat n"
    and ht_find_remove: "ht_find ht (ht_remove ht k h) = (ht_find ht h)(k := None)"
    and ht_max_remove: "ht_max ht (ht_remove ht k h) = ht_max ht h"
    and ht_find_enter: "ht_enter ht k s h = Some h' \<Longrightarrow> ht_find ht h' = (ht_find ht h)(k \<mapsto> s)"
    and ht_max_enter: "ht_enter ht k s h = Some h' \<Longrightarrow> ht_max ht h' = ht_max ht h"
    and ht_enter_room: "finite (dom (ht_find ht h)) \<Longrightarrow> card (dom (ht_find ht h)) < ht_max ht h \<Longrightarrow>
      \<exists>h'. ht_enter ht k s h = Some h'"
  using assms unfolding ht_ok_def by blast+

section \<open>Operations\<close>

text \<open>\<open>cache_size\<close> is in megabytes, an \<open>int\<close> converted to \<open>Size\<close>.\<close>

definition l2_capacity_from_config :: "u32 \<Rightarrow> u64" where
  "l2_capacity_from_config cache_size =
     (let bytes = scast cache_size * 1024 * 1024 in bytes div SIZEOF_FgaL2AclEntry)"

definition l2_hash_size :: "u64 \<Rightarrow> u64" where
  "l2_hash_size capacity = capacity * 2"

definition l2_update_entry ::
  "FgaL2AclEntry \<Rightarrow> FgaAclCacheKey \<Rightarrow> i64 \<Rightarrow> bool \<Rightarrow> u16 \<Rightarrow> FgaL2AclEntry" where
  "l2_update_entry entry key expires_at allowed generation = entry\<lparr>l2_key := key,
     l2_value := (l2_value entry)\<lparr>l2_allowed := allowed, l2_expires_at_ms := expires_at,
       l2_global_gen := generation, usage_count := FGA_L2_USAGE_MAX\<rparr>,
     l2_valid := True\<rparr>"

definition l2_entry_expired :: "FgaL2AclCache \<Rightarrow> FgaL2AclEntry \<Rightarrow> i64 \<Rightarrow> bool" where
  "l2_entry_expired cache entry now_ms \<longleftrightarrow> \<not> l2_valid entry \<or>
     s_le64 (l2_expires_at_ms (l2_value entry)) now_ms \<or>
     l2_global_gen (l2_value entry) \<noteq> l2_generation cache"

definition l2_clock_sweep :: "FgaL2AclCache \<Rightarrow> u32 \<times> FgaL2AclCache" where
  "l2_clock_sweep cache =
     (let hand = nextVictim cache
      in (hand mod l2_capacity cache, cache\<lparr>nextVictim := hand + 1\<rparr>))"

definition set_usage :: "nat \<Rightarrow> u8 \<Rightarrow> FgaL2AclCache \<Rightarrow> FgaL2AclCache" where
  "set_usage i u cache = cache\<lparr>l2_entries := (l2_entries cache)[i :=
     (l2_entries cache ! i)\<lparr>l2_value := (l2_value (l2_entries cache ! i))\<lparr>usage_count := u\<rparr>\<rparr>]\<rparr>"

text \<open>
  The loop of \<open>l2_find_victim_slot\<close>. \<open>None\<close> is an access beyond the array. Every round that goes
  on has counted one usage count down, which is why the loop ends.
\<close>

function l2_find_victim_loop ::
  "i64 \<Rightarrow> u32 \<Rightarrow> FgaL2AclCache \<Rightarrow> (u32 \<times> FgaL2AclCache) option" where
  "l2_find_victim_loop now_ms trycounter cache =
     (case l2_clock_sweep cache of (idx, c1) \<Rightarrow>
        if unat idx < length (l2_entries c1) then
          (let entry = l2_entries c1 ! unat idx in
           if l2_entry_expired c1 entry now_ms then Some (idx, c1)
           else if 0 < usage_count (l2_value entry) then
             (let c2 = set_usage (unat idx) (usage_count (l2_value entry) - 1) c1;
                  trycounter' = l2_capacity c2 - 1
              in if trycounter' = 0 then Some (UINT32_MAX, c2)
                 else l2_find_victim_loop now_ms trycounter' c2)
           else Some (idx, c1))
        else None)"
  by auto

definition l2_usage_sum :: "FgaL2AclCache \<Rightarrow> nat" where
  "l2_usage_sum cache = (\<Sum>e \<leftarrow> l2_entries cache. unat (usage_count (l2_value e)))"

lemma l2_usage_sum_dec:
  assumes "i < length (l2_entries cache)" and "0 < usage_count (l2_value (l2_entries cache ! i))"
  shows "l2_usage_sum (set_usage i (usage_count (l2_value (l2_entries cache ! i)) - 1) cache)
    < l2_usage_sum cache"
proof -
  have "unat (usage_count (l2_value (l2_entries cache ! i)) - 1)
      < unat (usage_count (l2_value (l2_entries cache ! i)))"
    using assms(2) by (simp add: unat_minus_one word_neq_0_conv [symmetric] unat_gt_0)
  then show ?thesis
    using assms(1) by (simp add: l2_usage_sum_def set_usage_def sum_list_update_less)
qed

termination l2_find_victim_loop
proof (relation "measure (\<lambda>(now_ms, trycounter, cache). l2_usage_sum cache)", goal_cases)
  case 1 then show ?case by simp
next
  case (2 now_ms trycounter cache idx c1 entry c2)
  have "l2_usage_sum c1 = l2_usage_sum cache"
    using 2(1,2) by (auto simp: l2_clock_sweep_def Let_def l2_usage_sum_def)
  then show ?case using 2 l2_usage_sum_dec [of "unat idx" c1] by simp
qed

declare l2_find_victim_loop.simps [simp del]

definition l2_find_victim_slot :: "FgaL2AclCache \<Rightarrow> i64 \<Rightarrow> (u32 \<times> FgaL2AclCache) option" where
  "l2_find_victim_slot cache now_ms = l2_find_victim_loop now_ms (l2_capacity cache) cache"

text \<open>
  The cache and its index; the pointer to them is \<open>None\<close> when null. \<open>l2_startup\<close> attaches to the
  index, or creates it when this is the first process to do so.
\<close>

type_synonym 'h l2 = "(FgaL2AclCache \<times> 'h) option"

definition l2_startup :: "'h dynahash \<Rightarrow> FgaL2AclCache \<Rightarrow> 'h option \<Rightarrow> 'h option" where
  "l2_startup ht cache l2_slot_table = (case l2_slot_table of
     Some t \<Rightarrow> Some t
   | None \<Rightarrow> Some (ht_create ht (l2_hash_size (ucast (l2_capacity cache)))))"

text \<open>The result is what the output parameters are set to, and \<open>None\<close> for \<open>false\<close>.\<close>

definition l2_lookup ::
  "'h dynahash \<Rightarrow> FgaAclCacheKey \<Rightarrow> i64 \<Rightarrow> 'h l2 \<Rightarrow> (bool \<times> i64) option \<times> 'h l2" where
  "l2_lookup ht key now_ms l2 = (case l2 of
     None \<Rightarrow> (None, None)
   | Some (cache, tbl) \<Rightarrow> (case ht_find ht tbl key of
       None \<Rightarrow> (None, Some (cache, tbl))
     | Some slot_no \<Rightarrow>
         (let i = unat slot_no; entry = l2_entries cache ! i in
          if l2_entry_expired cache entry now_ms
          then (None, Some (set_usage i 0 cache, tbl))
          else (Some (l2_allowed (l2_value entry), l2_expires_at_ms (l2_value entry)),
                Some (if usage_count (l2_value entry) < FGA_L2_USAGE_MAX
                      then set_usage i (usage_count (l2_value entry) + 1) cache else cache, tbl)))))"

definition put_entry ::
  "nat \<Rightarrow> FgaAclCacheKey \<Rightarrow> i64 \<Rightarrow> bool \<Rightarrow> FgaL2AclCache \<Rightarrow> FgaL2AclCache" where
  "put_entry i key expires_at allowed cache = cache\<lparr>l2_entries := (l2_entries cache)[i :=
     l2_update_entry (l2_entries cache ! i) key expires_at allowed (l2_generation cache)]\<rparr>"

text \<open>\<open>None\<close> is an access beyond the array, \<open>Inl\<close> an error the function raises.\<close>

definition l2_store ::
  "'h dynahash \<Rightarrow> FgaAclCacheKey \<Rightarrow> i64 \<Rightarrow> i64 \<Rightarrow> bool \<Rightarrow> 'h l2 \<Rightarrow> (fga_error + 'h l2) option" where
  "l2_store ht key now_ms expires_at allowed l2 = (case l2 of
     None \<Rightarrow> Some (Inr None)
   | Some (cache, tbl) \<Rightarrow> (case ht_find ht tbl key of
       Some slot_no \<Rightarrow> Some (Inr (Some (put_entry (unat slot_no) key expires_at allowed cache, tbl)))
     | None \<Rightarrow> (case l2_find_victim_slot cache now_ms of
         None \<Rightarrow> None
       | Some (victim_slot, c1) \<Rightarrow>
           if victim_slot = UINT32_MAX then Some (Inr (Some (c1, tbl)))
           else
             (let entry = l2_entries c1 ! unat victim_slot;
                  tbl1 = (if l2_valid entry then ht_remove ht (l2_key entry) tbl else tbl)
              in case ht_enter ht key victim_slot tbl1 of
                   None \<Rightarrow> Some (Inl L2IndexOutOfMemory)
                 | Some tbl2 \<Rightarrow>
                     Some (Inr (Some (put_entry (unat victim_slot) key expires_at allowed c1, tbl2)))))))"

section \<open>Invariant and content\<close>

text \<open>
  Index and array agree: a key in the index leads to a valid entry with that key, and a valid
  entry's key leads back to it. The index has room for twice the capacity.
\<close>

definition l2_wf :: "'h dynahash \<Rightarrow> 'h l2 \<Rightarrow> bool" where
  "l2_wf ht l2 \<longleftrightarrow> ht_ok ht \<and> (case l2 of None \<Rightarrow> True | Some (cache, tbl) \<Rightarrow>
     0 < l2_capacity cache \<and> length (l2_entries cache) = unat (l2_capacity cache) \<and>
     unat (l2_capacity cache) < ht_max ht tbl \<and>
     (\<forall>k s. ht_find ht tbl k = Some s \<longrightarrow> s < l2_capacity cache \<and>
        l2_valid (l2_entries cache ! unat s) \<and> l2_key (l2_entries cache ! unat s) = k) \<and>
     (\<forall>s < l2_capacity cache. l2_valid (l2_entries cache ! unat s) \<longrightarrow>
        ht_find ht tbl (l2_key (l2_entries cache ! unat s)) = Some s))"

text \<open>What a key has in the cache, among the entries of the current generation.\<close>

definition l2_entry_value :: "FgaL2AclCache \<Rightarrow> FgaL2AclEntry \<Rightarrow> (bool \<times> i64) option" where
  "l2_entry_value cache e = (if l2_global_gen (l2_value e) = l2_generation cache
     then Some (l2_allowed (l2_value e), l2_expires_at_ms (l2_value e)) else None)"

definition l2_content :: "'h dynahash \<Rightarrow> 'h l2 \<Rightarrow> FgaAclCacheKey \<rightharpoonup> bool \<times> i64" where
  "l2_content ht l2 key = (case l2 of None \<Rightarrow> None | Some (cache, tbl) \<Rightarrow>
     (case ht_find ht tbl key of None \<Rightarrow> None
      | Some s \<Rightarrow> l2_entry_value cache (l2_entries cache ! unat s)))"

definition l2_fresh :: "i64 \<Rightarrow> bool \<times> i64 \<Rightarrow> bool" where
  "l2_fresh now_ms v \<longleftrightarrow> \<not> s_le64 (snd v) now_ms"

text \<open>The caches differ in the clock hand and in usage counts.\<close>

definition forget_usage :: "FgaL2AclEntry \<Rightarrow> FgaL2AclEntry" where
  "forget_usage e = e\<lparr>l2_value := (l2_value e)\<lparr>usage_count := 0\<rparr>\<rparr>"

definition same_but_usage :: "FgaL2AclCache \<Rightarrow> FgaL2AclCache \<Rightarrow> bool" where
  "same_but_usage c c' \<longleftrightarrow> l2_capacity c' = l2_capacity c \<and> l2_generation c' = l2_generation c \<and>
     map forget_usage (l2_entries c') = map forget_usage (l2_entries c)"

lemma same_but_usage_refl [simp]: "same_but_usage c c"
  by (simp add: same_but_usage_def)

lemma same_but_usage_trans:
  "same_but_usage a b \<Longrightarrow> same_but_usage b c \<Longrightarrow> same_but_usage a c"
  by (simp add: same_but_usage_def)

lemma same_but_usage_nth:
  assumes "same_but_usage c c'" and "i < length (l2_entries c)"
  shows "forget_usage (l2_entries c' ! i) = forget_usage (l2_entries c ! i)"
proof -
  have "map forget_usage (l2_entries c') ! i = map forget_usage (l2_entries c) ! i"
    and len: "length (l2_entries c') = length (l2_entries c)"
    using assms(1) map_eq_imp_length_eq by (auto simp: same_but_usage_def)
  then show ?thesis using assms(2) by simp
qed

lemma same_but_usage_length: "same_but_usage c c' \<Longrightarrow> length (l2_entries c') = length (l2_entries c)"
  using map_eq_imp_length_eq by (auto simp: same_but_usage_def)

lemma forget_usage_eq:
  "forget_usage e' = forget_usage e \<longleftrightarrow> l2_key e' = l2_key e \<and> l2_valid e' = l2_valid e \<and>
    l2_allowed (l2_value e') = l2_allowed (l2_value e) \<and>
    l2_global_gen (l2_value e') = l2_global_gen (l2_value e) \<and>
    l2_object_gen (l2_value e') = l2_object_gen (l2_value e) \<and>
    l2_expires_at_ms (l2_value e') = l2_expires_at_ms (l2_value e)"
  by (cases e; cases e'; cases "l2_value e"; cases "l2_value e'") (auto simp: forget_usage_def)

lemma set_usage_same: "same_but_usage c (set_usage i u c)"
proof (cases "i < length (l2_entries c)")
  case True
  then have "map forget_usage (l2_entries (set_usage i u c)) = map forget_usage (l2_entries c)"
    by (auto simp: set_usage_def map_update forget_usage_def nth_list_update intro!: nth_equalityI)
  then show ?thesis by (simp add: same_but_usage_def set_usage_def)
qed (simp add: same_but_usage_def set_usage_def list_update_beyond)

lemma nextVictim_same: "same_but_usage c (c\<lparr>nextVictim := h\<rparr>)"
  by (simp add: same_but_usage_def)

lemma l2_wf_same:
  assumes wf: "l2_wf ht (Some (c, tbl))" and same: "same_but_usage c c'"
  shows "l2_wf ht (Some (c', tbl))" and "l2_content ht (Some (c', tbl)) = l2_content ht (Some (c, tbl))"
proof -
  have len: "length (l2_entries c) = unat (l2_capacity c)" using wf by (simp add: l2_wf_def)
  have cap: "l2_capacity c' = l2_capacity c" "l2_generation c' = l2_generation c"
    using same by (simp_all add: same_but_usage_def)
  have ent: "forget_usage (l2_entries c' ! unat s) = forget_usage (l2_entries c ! unat s)"
    if "s < l2_capacity c" for s
    using same_but_usage_nth [OF same] that by (simp add: len word_less_nat_alt)
  note ent' = ent [unfolded forget_usage_eq]
  have find: "s < l2_capacity c \<and> l2_valid (l2_entries c ! unat s) \<and> l2_key (l2_entries c ! unat s) = k"
    if "ht_find ht tbl k = Some s" for k s
    using wf that by (simp add: l2_wf_def)
  show "l2_wf ht (Some (c', tbl))"
    using wf same_but_usage_length [OF same] cap(1) ent'
    by (simp add: l2_wf_def)
  show "l2_content ht (Some (c', tbl)) = l2_content ht (Some (c, tbl))"
  proof
    fix k
    show "l2_content ht (Some (c', tbl)) k = l2_content ht (Some (c, tbl)) k"
      using find [of k] ent' cap(2)
      by (auto simp: l2_content_def l2_entry_value_def split: option.splits)
  qed
qed

lemma l2_expired_same:
  "same_but_usage c c' \<Longrightarrow> forget_usage e' = forget_usage e \<Longrightarrow>
    l2_entry_expired c' e' now = l2_entry_expired c e now"
  by (simp add: same_but_usage_def l2_entry_expired_def forget_usage_eq)

section \<open>The clock sweep\<close>

text \<open>
  With more than one slot the hand finds a victim: a slot of the array that has expired or whose
  usage count has run out. With one slot it may give up instead.
\<close>

lemma le_UINT32_MAX: "x \<le> UINT32_MAX"
  by simp

lemma l2_clock_sweep_spec:
  assumes "l2_clock_sweep cache = (idx, c1)" and "0 < l2_capacity cache"
  shows "idx < l2_capacity cache" and "same_but_usage cache c1"
    and "l2_entries c1 = l2_entries cache" and "l2_capacity c1 = l2_capacity cache"
  using assms by (auto simp: l2_clock_sweep_def Let_def nextVictim_same word_less_nat_alt unat_mod)

lemma l2_find_victim_loop_spec:
  assumes "0 < l2_capacity cache" and "length (l2_entries cache) = unat (l2_capacity cache)"
  shows "\<exists>slot c'. l2_find_victim_loop now trycounter cache = Some (slot, c') \<and>
    same_but_usage cache c' \<and>
    (if slot = UINT32_MAX then l2_capacity cache = 1
     else slot < l2_capacity cache \<and> (l2_entry_expired c' (l2_entries c' ! unat slot) now \<or>
            usage_count (l2_value (l2_entries c' ! unat slot)) = 0))"
  using assms
proof (induction now trycounter cache rule: l2_find_victim_loop.induct)
  case (1 now trycounter cache)
  let ?ok = "\<lambda>c slot c'. if slot = UINT32_MAX then l2_capacity c = 1
     else slot < l2_capacity c \<and> (l2_entry_expired c' (l2_entries c' ! unat slot) now \<or>
            usage_count (l2_value (l2_entries c' ! unat slot)) = 0)"
  obtain idx c1 where sweep: "l2_clock_sweep cache = (idx, c1)" by fastforce
  note s = l2_clock_sweep_spec [OF sweep 1(2)]
  have lt: "unat idx < length (l2_entries c1)" using s 1(3) by (simp add: word_less_nat_alt)
  have ne: "idx \<noteq> UINT32_MAX"
    using s(1) le_UINT32_MAX by (metis not_le)
  let ?e = "l2_entries c1 ! unat idx"
  let ?c2 = "set_usage (unat idx) (usage_count (l2_value ?e) - 1) c1"
  note unf = l2_find_victim_loop.simps [of now trycounter cache]
  show ?case
  proof (cases "l2_entry_expired c1 ?e now \<or> usage_count (l2_value ?e) = 0")
    case True
    then have "l2_find_victim_loop now trycounter cache = Some (idx, c1)"
      by (subst unf) (auto simp: sweep lt Let_def)
    with True s ne show ?thesis by auto
  next
    case False
    have pos: "0 < usage_count (l2_value ?e)" using False by (simp add: word_neq_0_conv)
    have same: "same_but_usage cache ?c2"
      by (rule same_but_usage_trans [OF s(2) set_usage_same])
    have cap2: "l2_capacity ?c2 = l2_capacity cache" using same by (simp add: same_but_usage_def)
    have step: "l2_find_victim_loop now trycounter cache =
        (if l2_capacity cache = 1 then Some (UINT32_MAX, ?c2)
         else l2_find_victim_loop now (l2_capacity cache - 1) ?c2)"
      using False pos lt by (subst unf) (simp add: sweep Let_def cap2)
    show ?thesis
    proof (cases "l2_capacity cache = 1")
      case True
      with step same show ?thesis by auto
    next
      case cap: False
      have "\<exists>slot c'. l2_find_victim_loop now (l2_capacity cache - 1) ?c2 = Some (slot, c') \<and>
        same_but_usage ?c2 c' \<and> ?ok ?c2 slot c'"
      proof (rule "1.IH" [OF sweep [symmetric] lt refl _ pos refl, of "l2_capacity cache - 1"])
        show "\<not> l2_entry_expired c1 ?e now" using False by simp
        show "l2_capacity cache - 1 = l2_capacity ?c2 - 1" by (simp add: cap2)
        show "l2_capacity cache - 1 \<noteq> 0" using cap by simp
        show "0 < l2_capacity ?c2" using 1(2) by (simp add: cap2)
        show "length (l2_entries ?c2) = unat (l2_capacity ?c2)"
          using same_but_usage_length [OF same] 1(3) by (simp add: cap2)
      qed
      then obtain slot c' where "l2_find_victim_loop now (l2_capacity cache - 1) ?c2 = Some (slot, c')"
        "same_but_usage ?c2 c'" "?ok ?c2 slot c'" by blast
      moreover from this(2) same have "same_but_usage cache c'" by (rule same_but_usage_trans [rotated])
      ultimately show ?thesis
        using step cap by (intro exI [of _ slot] exI [of _ c']) (simp add: cap2 split: if_splits)
    qed
  qed
qed

section \<open>Lookup and store\<close>

lemma l2_put_entry:
  assumes wf: "l2_wf ht (Some (c, tbl))" and slot: "slot < l2_capacity c"
    and find: "ht_find ht tbl' = (\<lambda>k. if k = key then Some slot
      else if ht_find ht tbl k = Some slot then None else ht_find ht tbl k)"
    and mx: "ht_max ht tbl' = ht_max ht tbl"
    and new: "ht_find ht tbl key = None \<or> ht_find ht tbl key = Some slot"
  shows "l2_wf ht (Some (put_entry (unat slot) key e a c, tbl'))"
    and "l2_content ht (Some (put_entry (unat slot) key e a c, tbl')) = (\<lambda>k. if k = key then Some (a, e)
      else if ht_find ht tbl k = Some slot then None else l2_content ht (Some (c, tbl)) k)"
proof -
  have len: "length (l2_entries c) = unat (l2_capacity c)" and ok: "ht_ok ht"
    and i1: "\<And>k s. ht_find ht tbl k = Some s \<Longrightarrow> s < l2_capacity c \<and>
        l2_valid (l2_entries c ! unat s) \<and> l2_key (l2_entries c ! unat s) = k"
    and i2: "\<And>s. s < l2_capacity c \<Longrightarrow> l2_valid (l2_entries c ! unat s) \<Longrightarrow>
        ht_find ht tbl (l2_key (l2_entries c ! unat s)) = Some s"
    using wf by (simp_all add: l2_wf_def)
  have nth: "l2_entries (put_entry (unat slot) key e a c) ! unat s =
      (if s = slot then l2_update_entry (l2_entries c ! unat slot) key e a (l2_generation c)
       else l2_entries c ! unat s)" if "s < l2_capacity c" for s
    using that slot by (auto simp: put_entry_def nth_list_update len word_less_nat_alt word_unat_eq_iff)
  have cap: "l2_capacity (put_entry (unat slot) key e a c) = l2_capacity c"
    and gen: "l2_generation (put_entry (unat slot) key e a c) = l2_generation c"
    and len': "length (l2_entries (put_entry (unat slot) key e a c)) = length (l2_entries c)"
    by (simp_all add: put_entry_def)
  show "l2_wf ht (Some (put_entry (unat slot) key e a c, tbl'))"
    unfolding l2_wf_def option.case prod.case
  proof (intro conjI allI impI)
    fix k s assume f: "ht_find ht tbl' k = Some s"
    then have "k = key \<and> s = slot \<or> k \<noteq> key \<and> s \<noteq> slot \<and> ht_find ht tbl k = Some s"
      by (auto simp: find split: if_splits)
    then show "s < l2_capacity (put_entry (unat slot) key e a c)"
      and "l2_valid (l2_entries (put_entry (unat slot) key e a c) ! unat s)"
      and "l2_key (l2_entries (put_entry (unat slot) key e a c) ! unat s) = k"
      using slot i1 [of k s] by (auto simp: cap nth l2_update_entry_def)
  next
    fix s assume "s < l2_capacity (put_entry (unat slot) key e a c)"
      and "l2_valid (l2_entries (put_entry (unat slot) key e a c) ! unat s)"
    then show "ht_find ht tbl' (l2_key (l2_entries (put_entry (unat slot) key e a c) ! unat s)) = Some s"
      using i2 [of s] new by (auto simp: cap nth find l2_update_entry_def)
  qed (use wf in \<open>simp_all add: ok cap len len' mx l2_wf_def\<close>)
  show "l2_content ht (Some (put_entry (unat slot) key e a c, tbl')) = (\<lambda>k. if k = key then Some (a, e)
      else if ht_find ht tbl k = Some slot then None else l2_content ht (Some (c, tbl)) k)"
  proof
    fix k
    show "l2_content ht (Some (put_entry (unat slot) key e a c, tbl')) k = (if k = key then Some (a, e)
      else if ht_find ht tbl k = Some slot then None else l2_content ht (Some (c, tbl)) k)"
      using slot i1 [of k]
      by (auto simp: l2_content_def find nth gen l2_entry_value_def l2_update_entry_def
          split: option.splits)
  qed
qed

lemma l2_lookup_spec:
  assumes wf: "l2_wf ht l2" and look: "l2_lookup ht key now l2 = (r, l2')"
  shows "l2_wf ht l2'" and "l2_content ht l2' = l2_content ht l2"
    and "r = (case l2_content ht l2 key of None \<Rightarrow> None
              | Some v \<Rightarrow> if l2_fresh now v then Some v else None)"
proof -
  have "l2_wf ht l2' \<and> l2_content ht l2' = l2_content ht l2 \<and>
    r = (case l2_content ht l2 key of None \<Rightarrow> None
         | Some v \<Rightarrow> if l2_fresh now v then Some v else None)"
  proof (cases l2)
    case None
    with wf look show ?thesis by (simp add: l2_lookup_def l2_content_def)
  next
    case (Some p)
    obtain cache tbl where p: "p = (cache, tbl)" by fastforce
    show ?thesis
    proof (cases "ht_find ht tbl key")
      case None
      with wf look show ?thesis by (auto simp: Some p l2_lookup_def l2_content_def)
    next
      case find: (Some s)
      let ?e = "l2_entries cache ! unat s"
      have lt: "unat s < length (l2_entries cache)" and valid: "l2_valid ?e"
        using wf find by (auto simp: Some p l2_wf_def word_less_nat_alt)
      define cache' where "cache' = (if l2_entry_expired cache ?e now then set_usage (unat s) 0 cache
        else if usage_count (l2_value ?e) < FGA_L2_USAGE_MAX
        then set_usage (unat s) (usage_count (l2_value ?e) + 1) cache else cache)"
      have same: "same_but_usage cache cache'"
        by (simp add: cache'_def set_usage_same)
      have "l2' = Some (cache', tbl)"
        using look by (auto simp: Some p l2_lookup_def find Let_def cache'_def split: if_splits)
      moreover have "r = (case l2_content ht l2 key of None \<Rightarrow> None
         | Some v \<Rightarrow> if l2_fresh now v then Some v else None)"
        using look valid by (auto simp: Some p l2_lookup_def find Let_def l2_content_def
            l2_entry_value_def l2_fresh_def l2_entry_expired_def split: if_splits)
      ultimately show ?thesis
        using l2_wf_same [OF wf [unfolded Some p] same] by (simp add: Some p)
    qed
  qed
  then show "l2_wf ht l2'" and "l2_content ht l2' = l2_content ht l2"
    and "r = (case l2_content ht l2 key of None \<Rightarrow> None
              | Some v \<Rightarrow> if l2_fresh now v then Some v else None)" by blast+
qed

lemma l2_index_card:
  assumes wf: "l2_wf ht (Some (cache, tbl))"
  shows "finite (dom (ht_find ht tbl)) \<and> card (dom (ht_find ht tbl)) < ht_max ht tbl"
proof -
  let ?f = "\<lambda>k. unat (the (ht_find ht tbl k))"
  have i1: "s < l2_capacity cache \<and> l2_key (l2_entries cache ! unat s) = k"
    if "ht_find ht tbl k = Some s" for k s
    using wf that by (simp add: l2_wf_def)
  have inj: "inj_on ?f (dom (ht_find ht tbl))"
    by (rule inj_on_inverseI [of _ "\<lambda>i. l2_key (l2_entries cache ! i)"]) (auto dest: i1)
  have sub: "?f ` dom (ht_find ht tbl) \<subseteq> {..<unat (l2_capacity cache)}"
    using i1 by (force simp: word_less_nat_alt)
  have "finite (dom (ht_find ht tbl))"
    using inj_on_finite [OF inj sub] by simp
  moreover have "card (dom (ht_find ht tbl)) \<le> unat (l2_capacity cache)"
    using card_inj_on_le [OF inj sub] by simp
  ultimately show ?thesis using wf by (simp add: l2_wf_def)
qed

text \<open>
  A store succeeds: it makes the value what its key has, and drops at most one other key. It
  gives up only on a cache of one slot, whose entry is live and not worn down.
\<close>

text \<open>The index once the victim's key has been removed and the new key entered in its place.\<close>

lemma l2_index_replace:
  assumes wf: "l2_wf ht (Some (c, tbl))" and slot: "slot < l2_capacity c" and new: "ht_find ht tbl key = None"
  obtains tbl2 where
    "ht_enter ht key slot (if l2_valid (l2_entries c ! unat slot)
       then ht_remove ht (l2_key (l2_entries c ! unat slot)) tbl else tbl) = Some tbl2"
    and "ht_find ht tbl2 = (\<lambda>k. if k = key then Some slot
        else if ht_find ht tbl k = Some slot then None else ht_find ht tbl k)"
    and "ht_max ht tbl2 = ht_max ht tbl"
proof -
  let ?entry = "l2_entries c ! unat slot"
  have ok: "ht_ok ht" using wf by (simp add: l2_wf_def)
  define tbl1 where "tbl1 = (if l2_valid ?entry then ht_remove ht (l2_key ?entry) tbl else tbl)"
  have i1: "l2_valid (l2_entries c ! unat s') \<and> l2_key (l2_entries c ! unat s') = k"
    if "ht_find ht tbl k = Some s'" for k s'
    using wf that by (simp add: l2_wf_def)
  have find1: "ht_find ht tbl1 = (\<lambda>k. if ht_find ht tbl k = Some slot then None else ht_find ht tbl k)"
  proof
    fix k
    have "ht_find ht tbl (l2_key ?entry) = Some slot" if "l2_valid ?entry"
      using wf slot that by (simp add: l2_wf_def)
    with i1 [of k slot] have "ht_find ht tbl k = Some slot \<longleftrightarrow> l2_valid ?entry \<and> k = l2_key ?entry"
      by blast
    then show "ht_find ht tbl1 k = (if ht_find ht tbl k = Some slot then None else ht_find ht tbl k)"
      by (simp add: tbl1_def ht_find_remove [OF ok])
  qed
  have mx1: "ht_max ht tbl1 = ht_max ht tbl" by (simp add: tbl1_def ht_max_remove [OF ok])
  have "dom (ht_find ht tbl1) \<subseteq> dom (ht_find ht tbl)" by (auto simp: find1 split: if_splits)
  with l2_index_card [OF wf] have "finite (dom (ht_find ht tbl1)) \<and>
      card (dom (ht_find ht tbl1)) < ht_max ht tbl1"
    using card_mono [of "dom (ht_find ht tbl)"] finite_subset mx1 by (metis le_less_trans)
  then obtain tbl2 where enter: "ht_enter ht key slot tbl1 = Some tbl2" using ht_enter_room [OF ok] by blast
  show thesis
    by (rule that [of tbl2]) (use enter in \<open>auto simp: tbl1_def [symmetric] find1 mx1
      ht_find_enter [OF ok enter] ht_max_enter [OF ok enter]\<close>)
qed

lemma l2_store_spec:
  assumes wf: "l2_wf ht (Some (cache, tbl))"
  shows "\<exists>l2'. l2_store ht key now e a (Some (cache, tbl)) = Some (Inr l2') \<and> l2_wf ht l2' \<and>
    (l2_content ht l2' key = Some (a, e) \<or>
      l2_capacity cache = 1 \<and> ht_find ht tbl key = None \<and> l2_content ht l2' key = None) \<and>
    (\<forall>k. k \<noteq> key \<longrightarrow> l2_content ht l2' k = None \<or>
      l2_content ht l2' k = l2_content ht (Some (cache, tbl)) k)"
proof (cases "ht_find ht tbl key")
  case (Some slot)
  have find: "ht_find ht tbl = (\<lambda>k. if k = key then Some slot
      else if ht_find ht tbl k = Some slot then None else ht_find ht tbl k)"
  proof
    fix k
    have "l2_key (l2_entries cache ! unat s) = k'" if "ht_find ht tbl k' = Some s" for k' s
      using wf that by (simp add: l2_wf_def)
    from this [of k slot] this [OF Some]
    show "ht_find ht tbl k = (if k = key then Some slot
      else if ht_find ht tbl k = Some slot then None else ht_find ht tbl k)"
      using Some by (cases "k = key") auto
  qed
  have slot: "slot < l2_capacity cache" using wf Some by (simp add: l2_wf_def)
  have "l2_store ht key now e a (Some (cache, tbl))
      = Some (Inr (Some (put_entry (unat slot) key e a cache, tbl)))"
    by (simp add: l2_store_def Some)
  with l2_put_entry [OF wf slot find refl, of e a] Some show ?thesis by simp
next
  case None
  have pre: "0 < l2_capacity cache" "length (l2_entries cache) = unat (l2_capacity cache)"
    using wf by (simp_all add: l2_wf_def)
  from l2_find_victim_loop_spec [OF pre, of now "l2_capacity cache"] obtain slot c1
    where vic: "l2_find_victim_slot cache now = Some (slot, c1)" and same: "same_but_usage cache c1"
      and s: "if slot = UINT32_MAX then l2_capacity cache = 1 else slot < l2_capacity cache"
    unfolding l2_find_victim_slot_def by (auto split: if_splits)
  note wf1 = l2_wf_same [OF wf same]
  show ?thesis
  proof (cases "slot = UINT32_MAX")
    case True
    have "l2_content ht (Some (cache, tbl)) key = None" by (simp add: l2_content_def None)
    with True s None wf1 show ?thesis
      by (auto simp: l2_store_def vic)
  next
    case False
    then have slot: "slot < l2_capacity c1" using s same by (simp add: same_but_usage_def)
    obtain tbl2 where enter: "ht_enter ht key slot (if l2_valid (l2_entries c1 ! unat slot)
        then ht_remove ht (l2_key (l2_entries c1 ! unat slot)) tbl else tbl) = Some tbl2"
      and find2: "ht_find ht tbl2 = (\<lambda>k. if k = key then Some slot
        else if ht_find ht tbl k = Some slot then None else ht_find ht tbl k)"
      and mx2: "ht_max ht tbl2 = ht_max ht tbl"
      by (rule l2_index_replace [OF wf1(1) slot None])
    have st: "l2_store ht key now e a (Some (cache, tbl))
        = Some (Inr (Some (put_entry (unat slot) key e a c1, tbl2)))"
      using False enter by (simp add: l2_store_def None vic Let_def)
    note put = l2_put_entry [OF wf1(1) slot find2 mx2, of e a]
    show ?thesis
      using put None wf1(2) by (simp add: st)
  qed
qed

section \<open>The contract\<close>

text \<open>The cache after a store, for the runs of \<open>Cache_Spec\<close>; by \<open>l2_store_spec\<close> there always is one.\<close>

definition l2_after_store ::
  "'h dynahash \<Rightarrow> FgaAclCacheKey \<Rightarrow> i64 \<Rightarrow> i64 \<Rightarrow> bool \<Rightarrow> 'h l2 \<Rightarrow> 'h l2" where
  "l2_after_store ht key now_ms expires_at allowed l2 =
     (case l2_store ht key now_ms expires_at allowed l2 of Some (Inr l2') \<Rightarrow> l2' | _ \<Rightarrow> l2)"

lemma l2_after_store_spec:
  assumes "l2_wf ht l2"
  shows "l2_wf ht (l2_after_store ht key now e a l2) \<and>
    l2_content ht (l2_after_store ht key now e a l2) \<subseteq>\<^sub>m map_upd_class (=) (l2_content ht l2) key (a, e)"
proof (cases l2)
  case None
  with assms show ?thesis
    by (simp add: l2_after_store_def l2_store_def l2_content_def map_le_def dom_def)
next
  case (Some p)
  obtain cache tbl where p: "p = (cache, tbl)" by fastforce
  from l2_store_spec [OF assms [unfolded Some p], of key now e a] obtain l2'
    where st: "l2_store ht key now e a l2 = Some (Inr l2')" and wf: "l2_wf ht l2'"
      and key: "l2_content ht l2' key = Some (a, e) \<or> l2_content ht l2' key = None"
      and other: "\<And>k. k \<noteq> key \<Longrightarrow> l2_content ht l2' k = None \<or> l2_content ht l2' k = l2_content ht l2 k"
    by (auto simp: Some p)
  have "l2_content ht l2' \<subseteq>\<^sub>m map_upd_class (=) (l2_content ht l2) key (a, e)"
    unfolding map_le_def map_upd_class_def dom_def using key other by fastforce
  with st wf show ?thesis by (simp add: l2_after_store_def)
qed

interpretation l2: acl_cache "l2_wf ht" "(=)" "l2_content ht" "\<lambda>s t. l2_fresh t" "\<lambda>v. v"
  "\<lambda>t key. l2_lookup ht key t" "\<lambda>t key v. l2_after_store ht key t (snd v) (fst v)"
  for ht :: "'h dynahash"
proof (unfold_locales, goal_cases)
  case (1 s t k r s')
  from l2_lookup_spec [OF this] show ?case by simp
next
  case (2 s t k v)
  from l2_after_store_spec [OF this, of k t "snd v" "fst v"] show ?case by simp
qed

text \<open>A cache with no valid entry and an empty index of twice its size.\<close>

lemma l2_wf_fresh:
  assumes "ht_ok ht" and "0 < l2_capacity cache" and "length (l2_entries cache) = unat (l2_capacity cache)"
    and "\<forall>e \<in> set (l2_entries cache). \<not> l2_valid e"
    and "l2_startup ht cache None = Some tbl"
  shows "l2_wf ht (Some (cache, tbl)) \<and> l2_content ht (Some (cache, tbl)) = Map.empty"
proof -
  have tbl: "tbl = ht_create ht (l2_hash_size (ucast (l2_capacity cache)))"
    using assms(5) by (simp add: l2_startup_def)
  have "unat (l2_capacity cache) < 2 ^ 32" using unsigned_less [of "l2_capacity cache"] by simp
  then have "unat (l2_hash_size (ucast (l2_capacity cache))) = 2 * unat (l2_capacity cache)"
    by (simp add: l2_hash_size_def unat_word_ariths unsigned_ucast_eq take_bit_eq_mod)
  moreover have "0 < unat (l2_capacity cache)" using assms(2) by (simp add: word_less_nat_alt)
  ultimately have "unat (l2_capacity cache) < ht_max ht tbl"
    by (simp add: tbl ht_max_create [OF assms(1)])
  moreover have "\<not> l2_valid (l2_entries cache ! unat s)" if "s < l2_capacity cache" for s
    using assms(3,4) that by (simp add: word_less_nat_alt)
  ultimately show ?thesis
    using assms(1-4)
    by (auto simp: l2_wf_def l2_content_def tbl ht_find_create [OF assms(1)] fun_eq_iff)
qed

section \<open>A hash table\<close>

text \<open>A table as an association list of at most \<open>ht_max\<close> keys: an instance of the parameter.\<close>

definition list_ht :: "(nat \<times> (FgaAclCacheKey \<times> u32) list) dynahash" where
  "list_ht = \<lparr>ht_create = (\<lambda>n. (unat n, [])), ht_max = fst, ht_find = (\<lambda>h. map_of (snd h)),
     ht_enter = (\<lambda>k s h. if k \<in> fst ` set (snd h) \<or> length (remdups (map fst (snd h))) < fst h
       then Some (fst h, (k, s) # snd h) else None),
     ht_remove = (\<lambda>k h. (fst h, filter (\<lambda>p. fst p \<noteq> k) (snd h)))\<rparr>"

lemma map_of_filter_key: "map_of (filter (\<lambda>p. fst p \<noteq> k) xs) = (map_of xs)(k := None)"
  by (induction xs) auto

lemma list_ht_ok: "ht_ok list_ht"
  by (auto simp: ht_ok_def list_ht_def map_of_filter_key dom_map_of_conv_image_fst length_remdups_card_conv)

definition zero_l2_entry :: FgaL2AclEntry where
  "zero_l2_entry = \<lparr>l2_key = zero_key, l2_value = \<lparr>l2_allowed = False, l2_global_gen = 0,
     l2_object_gen = 0, l2_expires_at_ms = 0, usage_count = 0\<rparr>, l2_valid = False\<rparr>"

definition example_l2 :: "(FgaL2AclCache \<times> (nat \<times> (FgaAclCacheKey \<times> u32) list)) option" where
  "example_l2 = Some (\<lparr>nextVictim = 0, l2_capacity = 2, l2_generation = 0,
     l2_entries = replicate 2 zero_l2_entry\<rparr>, (4, []))"

lemma example_l2_wf: "l2_wf list_ht example_l2 \<and> l2_content list_ht example_l2 = Map.empty"
  unfolding example_l2_def
  by (rule l2_wf_fresh [OF list_ht_ok])
    (auto simp: l2_startup_def zero_l2_entry_def list_ht_def l2_hash_size_def)

section \<open>Properties\<close>

text \<open>In every sequence of lookups and stores on the shared cache, from any well-formed cache
  holding nothing, a hit at time \<open>now\<close> returns the decision and expiry time stored last under
  exactly that key, and the expiry time is still ahead.\<close>

theorem l2_hits_are_stored:
  assumes "l2_wf ht l2" and "l2_content ht l2 = Map.empty"
    and "(s, now, last_stored, Some (allowed, expires)) \<in> set (cache_run (=)
      (\<lambda>t key. l2_lookup ht key t) (\<lambda>t key v. l2_after_store ht key t (snd v) (fst v)) ops l2 Map.empty)"
  shows "last_stored = Some (allowed, expires) \<and> \<not> s_le64 expires now"
proof -
  have "l2.within ht l2 Map.empty" using assms(1,2) by (simp add: l2.within_def)
  from l2.run_sound [OF this assms(3)] show ?thesis by (auto simp: l2_fresh_def)
qed

theorem l2_hits_are_stored_witness:
  "Some (True, 500) = Some (True, 500 :: i64) \<and> \<not> s_le64 500 (200 :: i64)"
proof -
  have "\<exists>s. (s, 200, Some (True, 500), Some (True, 500)) \<in> set (cache_run (=)
      (\<lambda>t key. l2_lookup list_ht key t) (\<lambda>t key v. l2_after_store list_ht key t (snd v) (fst v))
      [Store 100 zero_key (True, 500), Lookup 200 zero_key] example_l2 Map.empty)"
  proof -
    have "fst (l2_lookup list_ht zero_key 200 (l2_after_store list_ht zero_key 100 500 True example_l2))
        = Some (True, 500)"
      by code_simp
    then obtain s' where "l2_lookup list_ht zero_key 200
        (l2_after_store list_ht zero_key 100 500 True example_l2) = (Some (True, 500), s')"
      by (metis prod.collapse)
    then show ?thesis by (simp add: map_upd_class_def)
  qed
  then obtain s where s: "(s, 200, Some (True, 500), Some (True, 500)) \<in> set (cache_run (=)
      (\<lambda>t key. l2_lookup list_ht key t) (\<lambda>t key v. l2_after_store list_ht key t (snd v) (fst v))
      [Store 100 zero_key (True, 500), Lookup 200 zero_key] example_l2 Map.empty)" by blast
  from example_l2_wf have "l2_wf list_ht example_l2" "l2_content list_ht example_l2 = Map.empty"
    by blast+
  from l2_hits_are_stored [OF this s] show ?thesis by simp
qed

text \<open>C19: On a well-formed cache of more than one slot, \<open>l2_store\<close> never runs out of index memory
  and never gives up: the cache stays well formed, from then on the key answers with what was
  stored until it expires, and every other key answers as before or not at all.\<close>

theorem l2_store_takes_effect:
  assumes "l2_wf ht (Some (cache, tbl))" and "1 < l2_capacity cache"
  shows "\<exists>l2'. l2_store ht key now expires allowed (Some (cache, tbl)) = Some (Inr l2') \<and>
    l2_wf ht l2' \<and>
    (\<forall>later. fst (l2_lookup ht key later l2') = (if s_le64 expires later then None else Some (allowed, expires))) \<and>
    (\<forall>k later. k \<noteq> key \<longrightarrow> fst (l2_lookup ht k later l2') = None \<or>
      fst (l2_lookup ht k later l2') = fst (l2_lookup ht k later (Some (cache, tbl))))"
proof -
  have look: "fst (l2_lookup ht k later l2) = (case l2_content ht l2 k of None \<Rightarrow> None
      | Some v \<Rightarrow> if l2_fresh later v then Some v else None)" if "l2_wf ht l2" for k later l2
  proof -
    obtain r l2' where "l2_lookup ht k later l2 = (r, l2')" by fastforce
    with l2_lookup_spec(3) [OF that this] show ?thesis by simp
  qed
  from l2_store_spec [OF assms(1), of key now expires allowed] assms(2) obtain l2'
    where "l2_store ht key now expires allowed (Some (cache, tbl)) = Some (Inr l2')" "l2_wf ht l2'"
      "l2_content ht l2' key = Some (allowed, expires)"
      "\<forall>k. k \<noteq> key \<longrightarrow> l2_content ht l2' k = None \<or>
        l2_content ht l2' k = l2_content ht (Some (cache, tbl)) k"
    by (auto simp: word_less_nat_alt)
  then show ?thesis
    using assms(1) by (intro exI [of _ l2']) (auto simp: look l2_fresh_def)
qed

theorem l2_store_takes_effect_witness:
  "\<exists>l2'. l2_store list_ht zero_key 100 500 True example_l2 = Some (Inr l2') \<and> l2_wf list_ht l2' \<and>
     fst (l2_lookup list_ht zero_key 300 l2') = Some (True, 500) \<and>
     fst (l2_lookup list_ht zero_key 500 l2') = None"
proof -
  obtain cache tbl where l2: "example_l2 = Some (cache, tbl)" and cap: "1 < l2_capacity cache"
    by (auto simp: example_l2_def)
  have wf: "l2_wf list_ht (Some (cache, tbl))" using example_l2_wf by (simp add: l2)
  from l2_store_takes_effect [OF wf cap, of zero_key 100 500 True] obtain l2'
    where "l2_store list_ht zero_key 100 500 True (Some (cache, tbl)) = Some (Inr l2')"
      "l2_wf list_ht l2'" and look: "\<And>later. fst (l2_lookup list_ht zero_key later l2')
        = (if s_le64 500 later then None else Some (True, 500))" by blast
  moreover have "\<not> s_le64 500 (300 :: i64)" "s_le64 500 (500 :: i64)" by code_simp+
  ultimately show ?thesis by (intro exI [of _ l2']) (simp add: l2)
qed

text \<open>C20: The clock sweep ends: on a well-formed cache it reads no cell beyond the array and, with
  more than one slot, returns a slot of the array whose entry has expired or has used up its
  usage count. Only with a single slot can it return \<open>UINT32_MAX\<close>, the value for no victim. It
  changes nothing but the clock hand and usage counts, so it loses no decision.\<close>

theorem l2_victim_found:
  assumes "l2_wf ht (Some (cache, tbl))"
  shows "\<exists>slot cache'. l2_find_victim_slot cache now = Some (slot, cache') \<and>
    (if slot = UINT32_MAX then l2_capacity cache = 1
     else slot < l2_capacity cache \<and>
       (l2_entry_expired cache' (l2_entries cache' ! unat slot) now \<or>
        usage_count (l2_value (l2_entries cache' ! unat slot)) = 0)) \<and>
    l2_wf ht (Some (cache', tbl)) \<and>
    l2_content ht (Some (cache', tbl)) = l2_content ht (Some (cache, tbl))"
proof -
  have "0 < l2_capacity cache" "length (l2_entries cache) = unat (l2_capacity cache)"
    using assms by (simp_all add: l2_wf_def)
  from l2_find_victim_loop_spec [OF this, of now "l2_capacity cache"] obtain slot c'
    where "l2_find_victim_slot cache now = Some (slot, c')" and same: "same_but_usage cache c'"
      and "if slot = UINT32_MAX then l2_capacity cache = 1
     else slot < l2_capacity cache \<and> (l2_entry_expired c' (l2_entries c' ! unat slot) now \<or>
            usage_count (l2_value (l2_entries c' ! unat slot)) = 0)"
    unfolding l2_find_victim_slot_def by blast
  with l2_wf_same [OF assms same] show ?thesis by blast
qed

theorem l2_victim_found_witness:
  "\<exists>slot cache'. l2_find_victim_slot \<lparr>nextVictim = 0xFFFFFFFF, l2_capacity = 2, l2_generation = 0,
      l2_entries = replicate 2 zero_l2_entry\<rparr> 100 = Some (slot, cache') \<and>
    (slot = 0 \<or> slot = 1)"
proof -
  let ?c = "\<lparr>nextVictim = 0xFFFFFFFF, l2_capacity = 2, l2_generation = 0,
      l2_entries = replicate 2 zero_l2_entry\<rparr>"
  have "l2_wf list_ht (Some (?c, (4, [])))"
    using l2_wf_fresh [OF list_ht_ok, of ?c "(4, [])"]
    by (auto simp: l2_startup_def zero_l2_entry_def list_ht_def l2_hash_size_def)
  from l2_victim_found [OF this, of 100] obtain slot cache'
    where "l2_find_victim_slot ?c 100 = Some (slot, cache')" and "slot < 2"
    by (auto split: if_splits)
  moreover from this(2) have "slot = 0 \<or> slot = 1"
    by (auto simp: word_less_nat_alt word_unat_eq_iff)
  ultimately show ?thesis by blast
qed

end
