(* ===== verification/Guc.thy ===== *)
theory Guc
  imports Prelude
begin

text \<open>
  The configuration: \<open>FgaConfig\<close> of \<open>src/config.h\<close> and the variables \<open>src/guc.c\<close> binds to it. The
  GUC machinery is PostgreSQL's; \<open>guc_step\<close> states what it may do with the defined variables: it
  assigns a value within the declared bounds that the check hook accepted. The lemmas show the
  bounds every reachable configuration respects, and what an empty endpoint does.
\<close>

section \<open>Configuration\<close>

text \<open>C's \<open>int\<close> is a 32-bit word read as signed.\<close>

record FgaConfig =
  cfg_endpoint :: "string option"
  cfg_store_id :: "string option"
  cfg_model_id :: "string option"
  cfg_fallback_to_grpc_on_miss :: bool
  cfg_cache_enabled :: bool
  cfg_cache_size :: "32 word"
  cfg_cache_ttl_ms :: "32 word"
  cfg_max_slots :: "32 word"
  cfg_max_relations :: "32 word"

definition fga_config_instance :: FgaConfig where
  "fga_config_instance = \<lparr>cfg_endpoint = None, cfg_store_id = None, cfg_model_id = None,
     cfg_fallback_to_grpc_on_miss = False, cfg_cache_enabled = False, cfg_cache_size = 0,
     cfg_cache_ttl_ms = 0, cfg_max_slots = 0, cfg_max_relations = 0\<rparr>"

section \<open>Check hooks\<close>

datatype GucSource = PGC_S_DEFAULT | PGC_S_DYNAMIC_DEFAULT | PGC_S_EXPLICIT

datatype guc_report = CheckErrmsg string | CheckErrdetail string | CheckErrhint string

text \<open>\<open>getenv\<close> is the environment of the server process.\<close>

definition env_or_default :: "(string \<Rightarrow> string option) \<Rightarrow> string \<Rightarrow> string \<Rightarrow> string" where
  "env_or_default getenv env_name default_value = (case getenv env_name of
     Some val \<Rightarrow> if val \<noteq> [] then val else default_value
   | None \<Rightarrow> default_value)"

text \<open>
  \<open>char **newval\<close>: the outer option is the pointer, the inner one the string it points to. A
  hook returns its verdict and the messages it set.
\<close>

definition no_string :: "string option option \<Rightarrow> bool" where
  "no_string newval = (case newval of Some (Some s) \<Rightarrow> s = [] | _ \<Rightarrow> True)"

definition validate_endpoint :: "string option option \<Rightarrow> GucSource \<Rightarrow> bool \<times> guc_report list" where
  "validate_endpoint newval source =
     (if source = PGC_S_DEFAULT \<or> source = PGC_S_DYNAMIC_DEFAULT then (True, [])
      else if no_string newval then (True,
        [CheckErrmsg ''postfga.endpoint must not be empty'',
         CheckErrdetail ''Set the gRPC endpoint address for OpenFGA server.''])
      else (True, []))"

definition validate_store_id :: "string option option \<Rightarrow> GucSource \<Rightarrow> bool \<times> guc_report list" where
  "validate_store_id newval source =
     (if source = PGC_S_DEFAULT \<or> source = PGC_S_DYNAMIC_DEFAULT then (True, [])
      else if no_string newval then (False,
        [CheckErrmsg ''postfga.store_id must not be empty'',
         CheckErrhint ''Specifies the store ID to use in OpenFGA (can be set at system/db/role/session level).'',
         CheckErrdetail ''Set the store ID for OpenFGA.''])
      else (True, []))"

text \<open>The verdict, the messages and the value written back through \<open>newval\<close>.\<close>

definition validate_cache_size :: "32 word \<Rightarrow> GucSource \<Rightarrow> (bool \<times> guc_report list) \<times> 32 word" where
  "validate_cache_size newval source =
     (let v = newval in
      if source = PGC_S_DEFAULT \<or> source = PGC_S_DYNAMIC_DEFAULT then ((True, []), newval)
      else (let v = (if sint v < 1 then 1 else v) in ((True, []), v)))"

section \<open>The variables\<close>

datatype GucContext = PGC_POSTMASTER | PGC_SIGHUP | PGC_SUSET | PGC_USERSET

datatype guc_flag = GUC_SUPERUSER_ONLY | GUC_UNIT_MB | GUC_UNIT_MS

text \<open>A defined variable: its name, where it is stored, its boot value, bounds, hook.\<close>

datatype guc_var =
  StringVar string "string option \<Rightarrow> FgaConfig \<Rightarrow> FgaConfig" string GucContext "guc_flag list"
    "(string option option \<Rightarrow> GucSource \<Rightarrow> bool \<times> guc_report list) option"
| BoolVar string "bool \<Rightarrow> FgaConfig \<Rightarrow> FgaConfig" bool GucContext "guc_flag list"
| IntVar string "32 word \<Rightarrow> FgaConfig \<Rightarrow> FgaConfig" "32 word" "32 word" "32 word" GucContext
    "guc_flag list" "(32 word \<Rightarrow> GucSource \<Rightarrow> (bool \<times> guc_report list) \<times> 32 word) option"

definition fga_guc_vars :: "(string \<Rightarrow> string option) \<Rightarrow> guc_var list" where
  "fga_guc_vars getenv =
     [StringVar ''fga.endpoint'' (\<lambda>v cfg. cfg\<lparr>cfg_endpoint := v\<rparr>)
        (env_or_default getenv ''FGA_ENDPOINT'' [])
        PGC_SIGHUP [GUC_SUPERUSER_ONLY] (Some validate_endpoint),
      StringVar ''fga.store_id'' (\<lambda>v cfg. cfg\<lparr>cfg_store_id := v\<rparr>)
        (env_or_default getenv ''FGA_STORE_ID'' []) PGC_USERSET [] (Some validate_store_id),
      StringVar ''fga.model_id'' (\<lambda>v cfg. cfg\<lparr>cfg_model_id := v\<rparr>)
        (env_or_default getenv ''FGA_MODEL_ID'' []) PGC_SUSET [GUC_SUPERUSER_ONLY] None,
      BoolVar ''fga.cache_enabled'' (\<lambda>v cfg. cfg\<lparr>cfg_cache_enabled := v\<rparr>) False PGC_SIGHUP [],
      IntVar ''fga.cache_size'' (\<lambda>v cfg. cfg\<lparr>cfg_cache_size := v\<rparr>) 32 1 1024 PGC_POSTMASTER
        [GUC_UNIT_MB] (Some validate_cache_size),
      IntVar ''fga.cache_ttl_ms'' (\<lambda>v cfg. cfg\<lparr>cfg_cache_ttl_ms := v\<rparr>) 60000 1000 3600000
        PGC_SIGHUP [GUC_UNIT_MS] None]"

text \<open>Defining a variable stores its boot value.\<close>

fun define_variable :: "guc_var \<Rightarrow> FgaConfig \<Rightarrow> FgaConfig" where
  "define_variable (StringVar _ put boot _ _ _) cfg = put (Some boot) cfg"
| "define_variable (BoolVar _ put boot _ _) cfg = put boot cfg"
| "define_variable (IntVar _ put boot _ _ _ _ _) cfg = put boot cfg"

definition fga_guc_init :: "(string \<Rightarrow> string option) \<Rightarrow> FgaConfig \<Rightarrow> FgaConfig" where
  "fga_guc_init getenv cfg = fold define_variable (fga_guc_vars getenv) cfg"

section \<open>Reachable configurations\<close>

text \<open>An assignment PostgreSQL may make: in bounds, accepted by the check hook.\<close>

inductive guc_step :: "(string \<Rightarrow> string option) \<Rightarrow> FgaConfig \<Rightarrow> FgaConfig \<Rightarrow> bool" for getenv where
  set_string: "StringVar n put boot ctx fl hook \<in> set (fga_guc_vars getenv) \<Longrightarrow>
     hook = None \<or> fst (the hook (Some (Some s)) source) \<Longrightarrow> guc_step getenv cfg (put (Some s) cfg)"
| set_bool: "BoolVar n put boot ctx fl \<in> set (fga_guc_vars getenv) \<Longrightarrow> guc_step getenv cfg (put b cfg)"
| set_int: "IntVar n put boot lo hi ctx fl hook \<in> set (fga_guc_vars getenv) \<Longrightarrow>
     sint lo \<le> sint v \<Longrightarrow> sint v \<le> sint hi \<Longrightarrow>
     v' = (case hook of None \<Rightarrow> v | Some h \<Rightarrow> snd (h v source)) \<Longrightarrow>
     case hook of None \<Rightarrow> True | Some h \<Rightarrow> fst (fst (h v source)) \<Longrightarrow>
     guc_step getenv cfg (put v' cfg)"

inductive_cases guc_stepE: "guc_step getenv cfg cfg'"

definition config_bounds :: "FgaConfig \<Rightarrow> bool" where
  "config_bounds cfg \<longleftrightarrow> 1 \<le> sint (cfg_cache_size cfg) \<and> sint (cfg_cache_size cfg) \<le> 1024 \<and>
     1000 \<le> sint (cfg_cache_ttl_ms cfg) \<and> sint (cfg_cache_ttl_ms cfg) \<le> 3600000 \<and>
     cfg_max_slots cfg = 0 \<and> cfg_max_relations cfg = 0 \<and>
     cfg_endpoint cfg \<noteq> None \<and> cfg_store_id cfg \<noteq> None \<and> cfg_model_id cfg \<noteq> None"

lemma config_bounds_init: "config_bounds (fga_guc_init getenv fga_config_instance)"
  by (simp add: config_bounds_def fga_guc_init_def fga_guc_vars_def fga_config_instance_def)

lemma config_bounds_step:
  assumes "guc_step getenv cfg cfg'" and "config_bounds cfg"
  shows "config_bounds cfg'"
  using assms
  by (elim guc_stepE)
    (auto simp: fga_guc_vars_def config_bounds_def validate_cache_size_def Let_def split: if_splits)

text \<open>C32: Every configuration the server can reach keeps the cache size within 1 to 1024 megabytes
  and the time to live within a second to an hour, has all three strings set, and leaves
  \<open>max_slots\<close> and \<open>max_relations\<close> at zero: no variable is bound to them, so the number of request
  slots always follows \<open>max_connections\<close>.\<close>

theorem config_reachable_bounds:
  assumes "(guc_step getenv)\<^sup>*\<^sup>* (fga_guc_init getenv fga_config_instance) cfg"
  shows "config_bounds cfg"
  using assms by (induction) (auto intro: config_bounds_init config_bounds_step)

theorem config_reachable_bounds_witness:
  "config_bounds ((fga_guc_init (\<lambda>_. None) fga_config_instance)\<lparr>cfg_cache_size := 1024\<rparr>)"
proof (rule config_reachable_bounds)
  show "(guc_step (\<lambda>_. None))\<^sup>*\<^sup>* (fga_guc_init (\<lambda>_. None) fga_config_instance)
      ((fga_guc_init (\<lambda>_. None) fga_config_instance)\<lparr>cfg_cache_size := 1024\<rparr>)"
    by (intro r_into_rtranclp set_int [where hook = "Some validate_cache_size" and v = 1024 and
          source = PGC_S_EXPLICIT])
      (auto simp: fga_guc_vars_def validate_cache_size_def Let_def)
qed

text \<open>The check hooks differ on an empty value: \<open>validate_store_id\<close> refuses it from every explicit
  source, \<open>validate_endpoint\<close> reports that the endpoint must not be empty and then accepts it.\<close>

theorem empty_endpoint_accepted:
  "fst (validate_endpoint (Some (Some [])) source) \<and>
   (fst (validate_store_id (Some (Some [])) source) \<longleftrightarrow> source \<noteq> PGC_S_EXPLICIT) \<and>
   (snd (validate_endpoint (Some (Some [])) source) \<noteq> [] \<longleftrightarrow> source = PGC_S_EXPLICIT)"
  by (cases source) (simp_all add: validate_endpoint_def validate_store_id_def no_string_def)

end
