(* ===== verification/Stats.thy ===== *)
theory Stats
  imports Prelude
begin

text \<open>
  Statistics: the counters of \<open>src/stats.h\<close> and \<open>src/stats.c\<close>, one record per backend in shared
  memory, and the report \<open>fga_stats\<close> of \<open>src/func_stats.c\<close>. \<open>MyProcNumber\<close> is an option, \<open>None\<close>
  for \<open>INVALID_PROC_NUMBER\<close>. What \<open>fga_stats\<close> asks of the executor (a result set, materialize mode,
  a row type) are its arguments.

  The lemmas show that a counter function adds one to one counter of one backend, and that the
  report is the sum over the backends, wrapping at \<open>2 ^ 64\<close>.
\<close>

section \<open>Counters\<close>

record FgaBackendStats =
  check_calls :: u64
  check_allowed :: u64
  check_denied :: u64
  check_error :: u64
  cache_l1_hits :: u64
  cache_l1_misses :: u64
  cache_l1_evictions :: u64
  cache_l2_hits :: u64
  cache_l2_misses :: u64
  cache_l2_evictions :: u64
  rpc_check_calls :: u64
  rpc_check_error :: u64
  rpc_check_latency_sum_us :: u64

record FgaStats =
  cache_entries :: u64
  cache_hits :: u64
  cache_misses :: u64
  cache_evictions :: u64
  bgw_wakeups :: u64
  requests_enqueued :: u64
  requests_processed :: u64
  backends :: "FgaBackendStats list"

definition zero_backend_stats :: FgaBackendStats where
  "zero_backend_stats = \<lparr>check_calls = 0, check_allowed = 0, check_denied = 0, check_error = 0,
     cache_l1_hits = 0, cache_l1_misses = 0, cache_l1_evictions = 0, cache_l2_hits = 0,
     cache_l2_misses = 0, cache_l2_evictions = 0, rpc_check_calls = 0, rpc_check_error = 0,
     rpc_check_latency_sum_us = 0\<rparr>"

definition fga_stats_shmem_init :: "nat \<Rightarrow> FgaStats" where
  "fga_stats_shmem_init MaxBackends = \<lparr>cache_entries = 0, cache_hits = 0, cache_misses = 0,
     cache_evictions = 0, bgw_wakeups = 0, requests_enqueued = 0, requests_processed = 0,
     backends = replicate MaxBackends zero_backend_stats\<rparr>"

text \<open>\<open>backend_stats()\<close> of stats.c, and an update through the pointer it returns.\<close>

definition my_backend_stats :: "nat option \<Rightarrow> FgaStats \<Rightarrow> FgaBackendStats option" where
  "my_backend_stats MyProcNumber stats = map_option (\<lambda>i. backends stats ! i) MyProcNumber"

definition bump ::
  "nat option \<Rightarrow> (FgaBackendStats \<Rightarrow> FgaBackendStats) \<Rightarrow> FgaStats \<Rightarrow> FgaStats" where
  "bump MyProcNumber f stats = (case MyProcNumber of None \<Rightarrow> stats
     | Some i \<Rightarrow> stats\<lparr>backends := (backends stats)[i := f (backends stats ! i)]\<rparr>)"

definition fga_stats_l1_hit :: "nat option \<Rightarrow> FgaStats \<Rightarrow> FgaStats" where
  "fga_stats_l1_hit me = bump me (\<lambda>b. b\<lparr>cache_l1_hits := cache_l1_hits b + 1\<rparr>)"

definition fga_stats_l1_miss :: "nat option \<Rightarrow> FgaStats \<Rightarrow> FgaStats" where
  "fga_stats_l1_miss me = bump me (\<lambda>b. b\<lparr>cache_l1_misses := cache_l1_misses b + 1\<rparr>)"

definition fga_stats_l1_eviction :: "nat option \<Rightarrow> FgaStats \<Rightarrow> FgaStats" where
  "fga_stats_l1_eviction me = bump me (\<lambda>b. b\<lparr>cache_l1_evictions := cache_l1_evictions b + 1\<rparr>)"

definition fga_stats_l2_hit :: "nat option \<Rightarrow> FgaStats \<Rightarrow> FgaStats" where
  "fga_stats_l2_hit me = bump me (\<lambda>b. b\<lparr>cache_l2_hits := cache_l2_hits b + 1\<rparr>)"

definition fga_stats_l2_miss :: "nat option \<Rightarrow> FgaStats \<Rightarrow> FgaStats" where
  "fga_stats_l2_miss me = bump me (\<lambda>b. b\<lparr>cache_l2_misses := cache_l2_misses b + 1\<rparr>)"

definition fga_stats_l2_eviction :: "nat option \<Rightarrow> FgaStats \<Rightarrow> FgaStats" where
  "fga_stats_l2_eviction me = bump me (\<lambda>b. b\<lparr>cache_l2_evictions := cache_l2_evictions b + 1\<rparr>)"

lemmas stats_defs = fga_stats_l1_hit_def fga_stats_l1_miss_def fga_stats_l1_eviction_def
  fga_stats_l2_hit_def fga_stats_l2_miss_def fga_stats_l2_eviction_def bump_def

section \<open>The report\<close>

text \<open>
  The twelve accumulators of \<open>backend_stats\<close> in func_stats.c, in the order of its rows, and the
  loop over the backends.
\<close>

definition report_fields :: "(string \<times> string \<times> (FgaBackendStats \<Rightarrow> u64)) list" where
  "report_fields =
     [(''cache.l1'', ''hits'', cache_l1_hits),
      (''cache.l1'', ''misses'', cache_l1_misses),
      (''cache.l1'', ''evictions'', cache_l1_evictions),
      (''cache.l2'', ''hits'', cache_l2_hits),
      (''cache.l2'', ''misses'', cache_l2_misses),
      (''cache.l2'', ''evictions'', cache_l2_evictions),
      (''check'', ''calls'', check_calls),
      (''check'', ''allowed'', check_allowed),
      (''check'', ''denied'', check_denied),
      (''rpc'', ''calls'', rpc_check_calls),
      (''rpc'', ''errors'', rpc_check_error),
      (''rpc'', ''latency_sum_us'', rpc_check_latency_sum_us)]"

fun accumulate :: "FgaBackendStats list \<Rightarrow> u64 list \<Rightarrow> u64 list" where
  "accumulate [] accs = accs"
| "accumulate (b # bs) accs =
     accumulate bs (map2 (\<lambda>acc (_, _, field). acc + field b) accs report_fields)"

type_synonym stats_row = "string \<times> string \<times> i64"

definition backend_stats :: "FgaStats \<Rightarrow> stats_row list" where
  "backend_stats stats =
     map2 (\<lambda>(sec, metric, _) acc. (sec, metric, acc)) report_fields
       (accumulate (backends stats) (replicate (length report_fields) 0))"

datatype stats_error = NoResultSet | MaterializeRequired | NotRowType

text \<open>\<open>rsinfo\<close> is \<open>None\<close> when it is null or not a \<open>ReturnSetInfo\<close>, else whether it allows
  materialize mode; \<open>composite\<close> is whether the call's result type is a row type.\<close>

definition fga_stats :: "bool option \<Rightarrow> bool \<Rightarrow> FgaStats \<Rightarrow> stats_error + stats_row list" where
  "fga_stats rsinfo composite stats = (case rsinfo of
     None \<Rightarrow> Inl NoResultSet
   | Some materialize \<Rightarrow>
       if \<not> materialize then Inl MaterializeRequired
       else if \<not> composite then Inl NotRowType
       else Inr (backend_stats stats))"

lemma accumulate_sum:
  "length accs = length report_fields \<Longrightarrow>
    accumulate bs accs = map2 (\<lambda>acc (_, _, field). acc + (\<Sum>b \<leftarrow> bs. field b)) accs report_fields"
proof (induction bs arbitrary: accs)
  case Nil
  then show ?case
    by (intro nth_equalityI) (simp_all add: split_beta)
next
  case (Cons b bs)
  have "length (map2 (\<lambda>acc (_, _, field). acc + field b) accs report_fields) = length report_fields"
    using Cons.prems by simp
  note IH = Cons.IH [OF this]
  show ?case
    by (intro nth_equalityI) (simp_all add: IH Cons.prems split_beta ac_simps)
qed

lemma backend_stats_rows:
  "backend_stats stats =
    map (\<lambda>(sec, metric, field). (sec, metric, \<Sum>b \<leftarrow> backends stats. field b)) report_fields"
  by (intro nth_equalityI) (simp_all add: backend_stats_def accumulate_sum split_beta)

text \<open>Adding to one backend's counter adds to the sum.\<close>

lemma sum_list_bump:
  fixes f :: "'a \<Rightarrow> u64"
  assumes "i < length xs" and "f x = f (xs ! i) + d"
  shows "(\<Sum>y \<leftarrow> xs[i := x]. f y) = (\<Sum>y \<leftarrow> xs. f y) + d"
  using assms
proof (induction xs arbitrary: i)
  case Nil
  then show ?case by simp
next
  case (Cons y ys)
  then show ?case by (cases i) (simp_all add: ac_simps)
qed

text \<open>When the executor accepts a materialized row set, \<open>fga_stats\<close> returns twelve rows, and each
  is its counter summed over the backends modulo \<open>2 ^ 64\<close>, in the order of the report; otherwise
  it raises, checking the result set first, then materialize mode, then the row type.\<close>

theorem stats_report_sums:
  "fga_stats rsinfo composite stats =
     (if rsinfo = None then Inl NoResultSet
      else if rsinfo = Some False then Inl MaterializeRequired
      else if \<not> composite then Inl NotRowType
      else Inr (map (\<lambda>(sec, metric, field). (sec, metric, \<Sum>b \<leftarrow> backends stats. field b)) report_fields)) \<and>
   length report_fields = 12"
  by (auto simp: fga_stats_def backend_stats_rows report_fields_def split: option.splits)

end
