(* ===== verification/Cache.thy ===== *)
theory Cache
  imports "HOL-Library.Signed_Division" Cache_L1 Cache_L2 Guc Stats
begin

text \<open>
  The permission cache of \<open>src/cache.c\<close>: the backend's own L1 over the shared L2, with the
  configuration and the counters. One backend sees \<open>cache_view\<close>; \<open>cache_sys\<close> is the server: an L1
  per backend, one L2, one statistics area. The clock is an argument, in the microseconds of
  \<open>GetCurrentTimestamp\<close>.

  The theorems on runs of the server show that an answer from the cache was stored by some backend
  under the same key less than a time to live ago, and that the counters add up.
\<close>

section \<open>One backend\<close>

record 'h cache_view =
  view_l1 :: "FgaL1Cache option"
  view_l2 :: "FgaL2AclCache \<times> 'h"
  view_stats :: FgaStats

definition get_now_ms :: "i64 \<Rightarrow> i64" where
  "get_now_ms now = word_of_int (sint now sdiv 1000)"

text \<open>\<open>fga_cache_shmem_init\<close> on the shared memory at the cache: \<open>mem\<close> are the entries there.\<close>

definition fga_cache_shmem_init :: "FgaConfig \<Rightarrow> FgaL2AclEntry list \<Rightarrow> FgaL2AclCache" where
  "fga_cache_shmem_init config mem =
     (let capacity = ucast (l2_capacity_from_config (cfg_cache_size config)) :: u32
      in \<lparr>nextVictim = 0, l2_capacity = capacity, l2_generation = 0,
          l2_entries = map (\<lambda>e. e\<lparr>l2_valid := False\<rparr>) (take (unat capacity) mem)\<rparr>)"

definition fga_cache_shmem_each_startup ::
  "'h dynahash \<Rightarrow> FgaL2AclCache \<Rightarrow> FgaL1Cache option \<Rightarrow> 'h option \<Rightarrow> FgaL1Cache option \<times> 'h option" where
  "fga_cache_shmem_each_startup ht cache l1_cache l2_slot_table =
     (l1_startup l1_cache, l2_startup ht cache l2_slot_table)"

definition with_l2 :: "'h l2 \<Rightarrow> FgaL2AclCache \<times> 'h \<Rightarrow> FgaL2AclCache \<times> 'h" where
  "with_l2 l2 old = (case l2 of Some s \<Rightarrow> s | None \<Rightarrow> old)"

text \<open>The answer written to \<open>*allowed_out\<close>, \<open>None\<close> for \<open>false\<close>. \<open>me\<close> is \<open>MyProcNumber\<close>.\<close>

definition fga_cache_lookup ::
  "'h dynahash \<Rightarrow> FgaConfig \<Rightarrow> nat option \<Rightarrow> i64 \<Rightarrow> FgaAclCacheKey \<Rightarrow> 'h cache_view
    \<Rightarrow> bool option \<times> 'h cache_view" where
  "fga_cache_lookup ht config me clock key view =
     (if \<not> cfg_cache_enabled config then (None, view)
      else
        let l2 = view_l2 view; gen = l2_generation (fst l2); now_ms = get_now_ms clock;
            (r1, l1') = l1_lookup key gen now_ms (view_l1 view);
            view1 = view\<lparr>view_l1 := l1'\<rparr>
        in case r1 of
             Some allowed \<Rightarrow>
               (Some allowed, view1\<lparr>view_stats := fga_stats_l1_hit me (view_stats view1)\<rparr>)
           | None \<Rightarrow>
               (let view2 = view1\<lparr>view_stats := fga_stats_l1_miss me (view_stats view1)\<rparr>;
                    (r2, l2') = l2_lookup ht key now_ms (Some l2);
                    view3 = view2\<lparr>view_l2 := with_l2 l2' l2\<rparr>
                in case r2 of
                     Some (allowed, expires_at) \<Rightarrow>
                       (Some allowed, view3\<lparr>
                          view_l1 := l1_store key (l2_generation (fst (view_l2 view3))) expires_at
                            allowed (view_l1 view3),
                          view_stats := fga_stats_l2_hit me (view_stats view3)\<rparr>)
                   | None \<Rightarrow> (None, view3\<lparr>view_stats := fga_stats_l2_miss me (view_stats view3)\<rparr>)))"

text \<open>\<open>expires_at = now_ms + config->cache_ttl_ms\<close>, an \<open>int\<close> added to an \<open>int64\<close>.\<close>

definition cache_expiry :: "FgaConfig \<Rightarrow> i64 \<Rightarrow> i64" where
  "cache_expiry config clock = get_now_ms clock + scast (cfg_cache_ttl_ms config)"

text \<open>\<open>None\<close> is an access beyond the array in \<open>l2_store\<close>; \<open>Inl\<close> an error raised there, when the
  L1 has been written.\<close>

definition fga_cache_store ::
  "'h dynahash \<Rightarrow> FgaConfig \<Rightarrow> i64 \<Rightarrow> FgaAclCacheKey \<Rightarrow> bool \<Rightarrow> 'h cache_view
    \<Rightarrow> ((fga_error \<times> 'h cache_view) + 'h cache_view) option" where
  "fga_cache_store ht config clock key allowed view =
     (if \<not> cfg_cache_enabled config then Some (Inr view)
      else
        let l2 = view_l2 view; now_ms = get_now_ms clock;
            expires_at = cache_expiry config clock;
            view1 = view\<lparr>view_l1 := l1_store key (l2_generation (fst l2)) expires_at allowed
                           (view_l1 view)\<rparr>
        in case l2_store ht key now_ms expires_at allowed (Some l2) of
             None \<Rightarrow> None
           | Some (Inl err) \<Rightarrow> Some (Inl (err, view1))
           | Some (Inr l2') \<Rightarrow> Some (Inr (view1\<lparr>view_l2 := with_l2 l2' l2\<rparr>)))"

section \<open>The server\<close>

text \<open>Backend \<open>b\<close> has \<open>MyProcNumber\<close> \<open>b\<close> and the \<open>b\<close>th L1.\<close>

record 'h cache_sys =
  sys_l1 :: "FgaL1Cache option list"
  sys_l2 :: "FgaL2AclCache \<times> 'h"
  sys_stats :: FgaStats

definition sys_view :: "nat \<Rightarrow> 'h cache_sys \<Rightarrow> 'h cache_view" where
  "sys_view b sys = \<lparr>view_l1 = sys_l1 sys ! b, view_l2 = sys_l2 sys, view_stats = sys_stats sys\<rparr>"

definition sys_put :: "nat \<Rightarrow> 'h cache_view \<Rightarrow> 'h cache_sys \<Rightarrow> 'h cache_sys" where
  "sys_put b view sys = sys\<lparr>sys_l1 := (sys_l1 sys)[b := view_l1 view], sys_l2 := view_l2 view,
     sys_stats := view_stats view\<rparr>"

text \<open>A backend's lookup or store, under the configuration and clock it reads.\<close>

datatype sys_op =
    SysLookup nat FgaConfig i64 FgaAclCacheKey
  | SysStore nat FgaConfig i64 FgaAclCacheKey bool

fun sys_step :: "'h dynahash \<Rightarrow> sys_op \<Rightarrow> 'h cache_sys \<Rightarrow> bool option \<times> 'h cache_sys" where
  "sys_step ht (SysLookup b config clock key) sys =
     (case fga_cache_lookup ht config (Some b) clock key (sys_view b sys) of
        (r, view) \<Rightarrow> (r, sys_put b view sys))"
| "sys_step ht (SysStore b config clock key allowed) sys =
     (None, case fga_cache_store ht config clock key allowed (sys_view b sys) of
        Some (Inr view) \<Rightarrow> sys_put b view sys
      | Some (Inl (err, view)) \<Rightarrow> sys_put b view sys
      | None \<Rightarrow> sys)"

text \<open>For every operation of a run: the operations before it, latest first, itself, its answer.\<close>

fun sys_run :: "'h dynahash \<Rightarrow> sys_op list \<Rightarrow> 'h cache_sys \<Rightarrow> sys_op list
    \<Rightarrow> (sys_op list \<times> sys_op \<times> bool option) list" where
  "sys_run ht [] sys past = []"
| "sys_run ht (act # acts) sys past =
     (case sys_step ht act sys of (r, sys') \<Rightarrow> (past, act, r) # sys_run ht acts sys' (act # past))"

section \<open>Every cached answer was stored\<close>

definition stored :: "sys_op list \<Rightarrow> FgaAclCacheKey \<Rightarrow> bool \<Rightarrow> i64 \<Rightarrow> bool" where
  "stored past key allowed expires \<longleftrightarrow> (\<exists>b config clock k. SysStore b config clock k allowed \<in> set past \<and>
     cfg_cache_enabled config \<and> l1_key_equals k key \<and> expires = cache_expiry config clock)"

lemma stored_mono: "stored past key a e \<Longrightarrow> stored (act # past) key a e"
  by (auto simp: stored_def)

lemma stored_keq: "stored past k a e \<Longrightarrow> l1_key_equals k k' \<Longrightarrow> stored past k' a e"
  unfolding stored_def using l1_key_equals_trans by blast

definition l1_backed :: "sys_op list \<Rightarrow> FgaL1Cache option \<Rightarrow> bool" where
  "l1_backed past l1c \<longleftrightarrow> l1_wf l1c \<and>
     (\<forall>k a e g. l1_content l1c k = Some (a, e, g) \<longrightarrow> stored past k a e)"

definition l2_backed :: "'h dynahash \<Rightarrow> sys_op list \<Rightarrow> FgaL2AclCache \<times> 'h \<Rightarrow> bool" where
  "l2_backed ht past l2 \<longleftrightarrow> l2_wf ht (Some l2) \<and>
     (\<forall>k a e. l2_content ht (Some l2) k = Some (a, e) \<longrightarrow> stored past k a e)"

lemma l1_backed_mono: "l1_backed past l1c \<Longrightarrow> l1_backed (act # past) l1c"
  by (auto simp: l1_backed_def intro: stored_mono)

lemma l2_backed_mono: "l2_backed ht past l2 \<Longrightarrow> l2_backed ht (act # past) l2"
  by (auto simp: l2_backed_def intro: stored_mono)

lemma map_leD: "m \<subseteq>\<^sub>m m' \<Longrightarrow> m k = Some v \<Longrightarrow> m' k = Some v"
  by (auto simp: map_le_def dom_def)

lemma l1_backed_lookup:
  assumes "l1_backed past l1c" and "l1_lookup key gen now l1c = (r, l1c')"
  shows "l1_backed past l1c'"
    and "r = Some a \<Longrightarrow> \<exists>e. stored past key a e \<and> now < e"
proof -
  note spec = l1_lookup_spec [OF _ assms(2)]
  show "l1_backed past l1c'"
    using assms(1) spec unfolding l1_backed_def by (blast dest: map_leD)
  show "r = Some a \<Longrightarrow> \<exists>e. stored past key a e \<and> now < e"
    using assms(1) spec unfolding l1_backed_def l1_fresh_def
    by (cases "l1_content l1c key") (auto split: if_splits, blast+)
qed

lemma l1_backed_store:
  assumes "l1_backed past l1c" and "stored past key a e"
  shows "l1_backed past (l1_store key g e a l1c)"
proof -
  have wf: "l1_wf l1c" using assms(1) by (simp add: l1_backed_def)
  note spec = l1_store_spec [OF wf, of key g e a]
  have "stored past k a' e'" if "l1_content (l1_store key g e a l1c) k = Some (a', e', g')" for k a' e' g'
  proof -
    have "map_upd_class l1_key_equals (l1_content l1c) key (a, e, g) k = Some (a', e', g')"
      by (rule map_leD [OF conjunct2 [OF spec] that])
    with assms show ?thesis
      by (auto simp: map_upd_class_def l1_backed_def intro: stored_keq split: if_splits)
  qed
  with spec show ?thesis by (simp add: l1_backed_def)
qed

lemma l2_backed_lookup:
  assumes "l2_backed ht past l2" and "l2_lookup ht key now (Some l2) = (r, l2')"
  shows "l2_backed ht past (with_l2 l2' l2)"
    and "r = Some (a, e) \<Longrightarrow> stored past key a e \<and> \<not> s_le64 e now"
proof -
  have wf: "l2_wf ht (Some l2)" using assms(1) by (simp add: l2_backed_def)
  note spec = l2_lookup_spec [OF wf assms(2)]
  show "l2_backed ht past (with_l2 l2' l2)"
    using assms(1) spec(1,2) by (cases l2') (simp_all add: l2_backed_def with_l2_def)
  show "r = Some (a, e) \<Longrightarrow> stored past key a e \<and> \<not> s_le64 e now"
    using assms(1) spec(3) by (auto simp: l2_backed_def l2_fresh_def split: option.splits if_splits)
qed

lemma l2_backed_store:
  assumes "l2_backed ht past l2" and "stored past key a e"
  shows "\<exists>l2'. l2_store ht key now e a (Some l2) = Some (Inr l2') \<and> l2_backed ht past (with_l2 l2' l2)"
proof -
  obtain cache tbl where l2: "l2 = (cache, tbl)" by fastforce
  have wf: "l2_wf ht (Some (cache, tbl))" using assms(1) by (simp add: l2_backed_def l2)
  from l2_store_spec [OF wf, of key now e a] obtain l2'
    where st: "l2_store ht key now e a (Some (cache, tbl)) = Some (Inr l2')" and wf': "l2_wf ht l2'"
      and key: "l2_content ht l2' key = Some (a, e) \<or> l2_content ht l2' key = None"
      and other: "\<And>k. k \<noteq> key \<Longrightarrow> l2_content ht l2' k = None \<or>
        l2_content ht l2' k = l2_content ht (Some (cache, tbl)) k"
    by auto
  have "stored past k a' e'" if "l2_content ht l2' k = Some (a', e')" for k a' e'
    using that key other [of k] assms by (cases "k = key") (auto simp: l2_backed_def l2)
  with st wf' assms(1) show ?thesis
    by (intro exI [of _ l2']) (cases l2'; simp add: l2 l2_backed_def with_l2_def)
qed

definition view_backed :: "'h dynahash \<Rightarrow> sys_op list \<Rightarrow> 'h cache_view \<Rightarrow> bool" where
  "view_backed ht past view \<longleftrightarrow> l1_backed past (view_l1 view) \<and> l2_backed ht past (view_l2 view)"

lemma fga_cache_lookup_backed:
  assumes "view_backed ht past view" and "fga_cache_lookup ht config me clock key view = (r, view')"
  shows "view_backed ht past view'"
    and "r = Some a \<Longrightarrow> \<exists>e. stored past key a e \<and>
      (get_now_ms clock < e \<or> \<not> s_le64 e (get_now_ms clock))"
proof -
  let ?now = "get_now_ms clock" and ?gen = "l2_generation (fst (view_l2 view))"
  obtain r1 l1' where l1: "l1_lookup key ?gen ?now (view_l1 view) = (r1, l1')" by fastforce
  obtain r2 l2' where l2: "l2_lookup ht key ?now (Some (view_l2 view)) = (r2, l2')" by fastforce
  from assms(1) have b: "l1_backed past (view_l1 view)" "l2_backed ht past (view_l2 view)"
    by (simp_all add: view_backed_def)
  note s1 = l1_backed_lookup [OF b(1) l1] and s2 = l2_backed_lookup [OF b(2) l2]
  have "view_backed ht past view' \<and> (\<forall>a. r = Some a \<longrightarrow> (\<exists>e. stored past key a e \<and>
      (?now < e \<or> \<not> s_le64 e ?now)))"
  proof (cases "cfg_cache_enabled config")
    case False
    with assms show ?thesis by (auto simp: fga_cache_lookup_def)
  next
    case en: True
    show ?thesis
    proof (cases r1)
      case (Some a)
      have "r = Some a" "view_l1 view' = l1'" "view_l2 view' = view_l2 view"
        using assms(2) en by (auto simp: fga_cache_lookup_def Let_def l1 Some)
      with s1 b Some show ?thesis by (auto simp: view_backed_def)
    next
      case None
      show ?thesis
      proof (cases r2)
        case None2: None
        have "r = None" "view_l1 view' = l1'" "view_l2 view' = with_l2 l2' (view_l2 view)"
          using assms(2) en by (auto simp: fga_cache_lookup_def Let_def l1 l2 None None2)
        with s1 s2 show ?thesis by (auto simp: view_backed_def)
      next
        case (Some p)
        obtain a e where p: "p = (a, e)" by fastforce
        have "r = Some a" "view_l2 view' = with_l2 l2' (view_l2 view)"
          "view_l1 view' = l1_store key (l2_generation (fst (with_l2 l2' (view_l2 view)))) e a l1'"
          using assms(2) en by (auto simp: fga_cache_lookup_def Let_def l1 l2 None Some p)
        with s1(1) s2 l1_backed_store show ?thesis by (fastforce simp: view_backed_def Some p)
      qed
    qed
  qed
  then show "view_backed ht past view'"
    and "r = Some a \<Longrightarrow> \<exists>e. stored past key a e \<and> (?now < e \<or> \<not> s_le64 e ?now)" by blast+
qed

lemma fga_cache_store_backed:
  assumes "view_backed ht past view"
  shows "\<exists>view'. fga_cache_store ht config clock key a view = Some (Inr view') \<and>
    view_backed ht (SysStore b config clock key a # past) view'"
proof (cases "cfg_cache_enabled config")
  case False
  with assms show ?thesis
    by (auto simp: fga_cache_store_def view_backed_def intro: l1_backed_mono l2_backed_mono)
next
  case True
  let ?past = "SysStore b config clock key a # past"
  have st: "stored ?past key a (cache_expiry config clock)"
    unfolding stored_def
    by (intro exI [of _ b] exI [of _ config] exI [of _ clock] exI [of _ key]) (simp add: True)
  have b: "l1_backed ?past (view_l1 view)" "l2_backed ht ?past (view_l2 view)"
    using assms by (auto simp: view_backed_def intro: l1_backed_mono l2_backed_mono)
  from l2_backed_store [OF b(2) st, of "get_now_ms clock"] obtain l2'
    where "l2_store ht key (get_now_ms clock) (cache_expiry config clock) a (Some (view_l2 view))
        = Some (Inr l2')"
      and "l2_backed ht ?past (with_l2 l2' (view_l2 view))" by blast
  with True l1_backed_store [OF b(1) st] show ?thesis
    by (simp add: fga_cache_store_def Let_def view_backed_def)
qed

text \<open>The server: what holds of every backend's view.\<close>

definition sys_backed :: "'h dynahash \<Rightarrow> sys_op list \<Rightarrow> 'h cache_sys \<Rightarrow> bool" where
  "sys_backed ht past sys \<longleftrightarrow> (\<forall>l1c \<in> set (sys_l1 sys). l1_backed past l1c) \<and>
     l2_backed ht past (sys_l2 sys)"

fun op_backend :: "sys_op \<Rightarrow> nat" where
  "op_backend (SysLookup b _ _ _) = b"
| "op_backend (SysStore b _ _ _ _) = b"

lemma sys_backed_view:
  "sys_backed ht past sys \<Longrightarrow> b < length (sys_l1 sys) \<Longrightarrow> view_backed ht past (sys_view b sys)"
  by (simp add: sys_backed_def view_backed_def sys_view_def)

lemma sys_backed_put:
  assumes "sys_backed ht past sys" and "view_backed ht (past1 @ past) view" and "length past1 \<le> 1"
  shows "sys_backed ht (past1 @ past) (sys_put b view sys)"
proof -
  have "l1_backed (past1 @ past) l1c" if "l1_backed past l1c" for l1c
    using that assms(3) by (cases past1) (auto intro: l1_backed_mono)
  with assms(1,2) show ?thesis
    by (auto simp: sys_backed_def view_backed_def sys_put_def dest!: set_update_subset_insert [THEN subsetD])
qed

lemma length_sys_put [simp]: "length (sys_l1 (sys_put b view sys)) = length (sys_l1 sys)"
  by (simp add: sys_put_def)

lemma sys_step_backed:
  assumes inv: "sys_backed ht past sys" and b: "op_backend act < length (sys_l1 sys)"
    and step: "sys_step ht act sys = (r, sys')"
  shows "sys_backed ht (act # past) sys'" and "length (sys_l1 sys') = length (sys_l1 sys)"
    and "act = SysLookup bk config clock key \<Longrightarrow> r = Some a \<Longrightarrow> \<exists>e. stored past key a e \<and>
      (get_now_ms clock < e \<or> \<not> s_le64 e (get_now_ms clock))"
proof -
  have "sys_backed ht (act # past) sys' \<and> length (sys_l1 sys') = length (sys_l1 sys) \<and>
    (\<forall>bk config clock key a. act = SysLookup bk config clock key \<longrightarrow> r = Some a \<longrightarrow> (\<exists>e. stored past key a e \<and>
      (get_now_ms clock < e \<or> \<not> s_le64 e (get_now_ms clock))))"
  proof (cases act)
    case (SysLookup bk config clock key)
    obtain view where l: "fga_cache_lookup ht config (Some bk) clock key (sys_view bk sys) = (r, view)"
      and sys': "sys' = sys_put bk view sys"
      using step by (auto simp: SysLookup split: prod.splits)
    have "view_backed ht past (sys_view bk sys)"
      using sys_backed_view [OF inv] b by (simp add: SysLookup)
    note lb = fga_cache_lookup_backed [OF this l]
    have "view_backed ht ([act] @ past) view"
      using lb(1) by (auto simp: view_backed_def intro: l1_backed_mono l2_backed_mono)
    from sys_backed_put [OF inv this] lb(2) show ?thesis by (auto simp: sys' SysLookup)
  next
    case (SysStore bk config clock key a)
    have "view_backed ht past (sys_view bk sys)"
      using sys_backed_view [OF inv] b by (simp add: SysStore)
    from fga_cache_store_backed [OF this, of config clock key a bk] obtain view
      where "fga_cache_store ht config clock key a (sys_view bk sys) = Some (Inr view)"
        and v: "view_backed ht ([act] @ past) view" by (auto simp: SysStore)
    then have "sys' = sys_put bk view sys" using step by (auto simp: SysStore)
    with sys_backed_put [OF inv v] show ?thesis by (simp add: SysStore)
  qed
  then show "sys_backed ht (act # past) sys'" and "length (sys_l1 sys') = length (sys_l1 sys)"
    and "act = SysLookup bk config clock key \<Longrightarrow> r = Some a \<Longrightarrow> \<exists>e. stored past key a e \<and>
      (get_now_ms clock < e \<or> \<not> s_le64 e (get_now_ms clock))" by blast+
qed

lemma sys_run_backed:
  assumes "sys_backed ht past0 sys" and "\<forall>act \<in> set acts. op_backend act < length (sys_l1 sys)"
    and "(past, SysLookup b config clock key, Some a) \<in> set (sys_run ht acts sys past0)"
  shows "(\<exists>e. stored past key a e \<and> (get_now_ms clock < e \<or> \<not> s_le64 e (get_now_ms clock))) \<and>
    SysLookup b config clock key \<in> set acts \<and> set past \<subseteq> set past0 \<union> set acts"
  using assms
proof (induction acts arbitrary: sys past0)
  case Nil
  then show ?case by simp
next
  case (Cons act acts)
  obtain r sys' where step: "sys_step ht act sys = (r, sys')" by fastforce
  have "op_backend act < length (sys_l1 sys)" using Cons.prems(2) by simp
  note sb = sys_step_backed [OF Cons.prems(1) this step]
  from Cons.prems(3) step consider "past = past0" "act = SysLookup b config clock key" "r = Some a"
    | "(past, SysLookup b config clock key, Some a) \<in> set (sys_run ht acts sys' (act # past0))"
    by auto
  then show ?case
  proof cases
    case 1
    with sb(3) show ?thesis by auto
  next
    case 2
    from Cons.IH [OF sb(1) _ 2] Cons.prems(2) sb(2) show ?thesis by auto
  qed
qed

section \<open>Times\<close>

text \<open>Clocks before the year 38000 or so: no overflow, and signed and unsigned comparison agree.\<close>

fun op_times :: "sys_op \<Rightarrow> bool" where
  "op_times (SysLookup b config clock key) \<longleftrightarrow> 0 \<le> sint clock \<and> sint clock < 2 ^ 60"
| "op_times (SysStore b config clock key a) \<longleftrightarrow> 0 \<le> sint clock \<and> sint clock < 2 ^ 60 \<and>
     config_bounds config"

lemma sint_of_small:
  assumes "- (2 ^ 63) \<le> x" and "x < 2 ^ 63"
  shows "sint (word_of_int x :: 64 word) = x"
  using assms by (simp add: signed_of_int signed_take_bit_int_eq_self)

lemma sint_get_now_ms:
  assumes "0 \<le> sint clock" and "sint clock < 2 ^ 60"
  shows "sint (get_now_ms clock) = sint clock div 1000"
proof -
  have "sint clock sdiv 1000 = sint clock div 1000"
    using assms(1) by (cases "sint clock = 0") (simp_all add: signed_divide_int_def)
  moreover have "0 \<le> sint clock div 1000" "sint clock div 1000 < 2 ^ 60" using assms by simp_all
  ultimately show ?thesis by (simp add: get_now_ms_def sint_of_small)
qed

lemma sint_cache_expiry:
  assumes "0 \<le> sint clock" and "sint clock < 2 ^ 60" and "config_bounds config"
  shows "sint (cache_expiry config clock) = sint clock div 1000 + sint (cfg_cache_ttl_ms config)"
proof -
  have e: "cache_expiry config clock
      = word_of_int (sint (get_now_ms clock) + sint (cfg_cache_ttl_ms config))"
    unfolding cache_expiry_def scast_eq by simp
  have "0 \<le> sint clock div 1000" "sint clock div 1000 < 2 ^ 60" using assms by simp_all
  moreover have "0 \<le> sint (cfg_cache_ttl_ms config)" "sint (cfg_cache_ttl_ms config) \<le> 3600000"
    using assms(3) by (simp_all add: config_bounds_def)
  ultimately show ?thesis
    unfolding e sint_get_now_ms [OF assms(1,2)] by (intro sint_of_small) simp_all
qed

lemma nonneg_less_iff:
  fixes x y :: "64 word"
  assumes "0 \<le> sint x" and "0 \<le> sint y"
  shows "x < y \<longleftrightarrow> sint x < sint y"
proof -
  have "uint w = sint w" if "0 \<le> sint w" for w :: "64 word"
  proof -
    have lt: "sint w < 2 ^ 63"
      using signed_take_bit_int_less_exp [of 63 "uint w"] by (simp add: sint_uint)
    have u: "uint (word_of_int z :: 64 word) = z" if "0 \<le> z" "z < 2 ^ 63" for z
      using that by (simp add: unsigned_of_int take_bit_eq_mod)
    show ?thesis using u [OF that lt] by simp
  qed
  with assms show ?thesis by (simp add: word_less_def)
qed

section \<open>Properties\<close>

lemma stored_in_time:
  assumes "stored past key a e" and "get_now_ms clock < e \<or> \<not> s_le64 e (get_now_ms clock)"
    and "0 \<le> sint clock" and "sint clock < 2 ^ 60" and "\<forall>act \<in> set past. op_times act"
  shows "\<exists>b' config' clock' key'. SysStore b' config' clock' key' a \<in> set past \<and>
    cfg_cache_enabled config' \<and> l1_key_equals key' key \<and>
    sint clock div 1000 < sint clock' div 1000 + sint (cfg_cache_ttl_ms config')"
proof -
  from assms(1) obtain b' config' clock' key' where s: "SysStore b' config' clock' key' a \<in> set past"
    "cfg_cache_enabled config'" "l1_key_equals key' key" and e: "e = cache_expiry config' clock'"
    by (auto simp: stored_def)
  from s(1) assms(5) have t: "0 \<le> sint clock'" "sint clock' < 2 ^ 60" "config_bounds config'" by auto
  note se = sint_cache_expiry [OF t, folded e]
  have "0 \<le> sint e" using se t by (simp add: config_bounds_def)
  then have "sint (get_now_ms clock) < sint e"
    using assms(2,3) nonneg_less_iff [of "get_now_ms clock" e]
    by (auto simp: s_le64_def sint_get_now_ms [OF assms(3,4)])
  with s se show ?thesis using sint_get_now_ms [OF assms(3,4)] by fastforce
qed

text \<open>A server with \<open>n\<close> backends just started: empty caches, zero counters.\<close>

definition sys_fresh :: "'h dynahash \<Rightarrow> nat \<Rightarrow> 'h cache_sys \<Rightarrow> bool" where
  "sys_fresh ht n sys \<longleftrightarrow> sys_l1 sys = replicate n (l1_startup None) \<and> l2_wf ht (Some (sys_l2 sys)) \<and>
     l2_content ht (Some (sys_l2 sys)) = Map.empty \<and> sys_stats sys = fga_stats_shmem_init n"

lemma sys_fresh_backed: "sys_fresh ht n sys \<Longrightarrow> sys_backed ht [] sys"
  using l1_wf_startup by (auto simp: sys_fresh_def sys_backed_def l1_backed_def l2_backed_def)


text \<open>A second backend gets what the first one stored, from the shared cache.\<close>

definition example_config :: FgaConfig where
  "example_config = (fga_guc_init (\<lambda>_. None) fga_config_instance)\<lparr>cfg_cache_enabled := True\<rparr>"

definition example_sys :: "(nat \<times> (FgaAclCacheKey \<times> u32) list) cache_sys" where
  "example_sys = \<lparr>sys_l1 = replicate 2 (l1_startup None), sys_l2 = the example_l2,
     sys_stats = fga_stats_shmem_init 2\<rparr>"

lemma example_sys_fresh: "sys_fresh list_ht 2 example_sys"
  using example_l2_wf by (simp add: sys_fresh_def example_sys_def example_l2_def)

lemma example_config_bounds: "config_bounds example_config"
  using config_bounds_init [of "\<lambda>_. None"] by (simp add: example_config_def config_bounds_def)

lemma l1_lookup_startup: "fst (l1_lookup key gen now (l1_startup None)) = None"
  using l1_wf_startup by (simp add: l1_lookup_content)

lemma example_run:
  "\<exists>past. (past, SysLookup 1 example_config 2000000 zero_key, Some True) \<in> set (sys_run list_ht
     [SysStore 0 example_config 1000000 zero_key True, SysLookup 1 example_config 2000000 zero_key]
     example_sys [])"
proof -
  let ?l2 = "the example_l2"
  obtain l2' where st: "l2_store list_ht zero_key (get_now_ms 1000000)
      (cache_expiry example_config 1000000) True (Some ?l2) = Some (Inr (Some l2'))"
    and look: "fst (l2_lookup list_ht zero_key (get_now_ms 2000000) (Some l2'))
      = Some (True, cache_expiry example_config 1000000)"
  proof -
    have "case l2_store list_ht zero_key (get_now_ms 1000000)
      (cache_expiry example_config 1000000) True (Some ?l2) of
        Some (Inr (Some l2')) \<Rightarrow> fst (l2_lookup list_ht zero_key (get_now_ms 2000000) (Some l2'))
            = Some (True, cache_expiry example_config 1000000)
      | _ \<Rightarrow> False"
      by code_simp
    then show thesis by (auto split: option.splits sum.splits intro: that)
  qed
  define sys1 where "sys1 = snd (sys_step list_ht (SysStore 0 example_config 1000000 zero_key True) example_sys)"
  have en: "cfg_cache_enabled example_config" by (simp add: example_config_def)
  have sys1: "sys_l1 sys1 ! 1 = l1_startup None" "sys_l2 sys1 = l2'"
    using st by (simp_all add: sys1_def example_sys_def sys_view_def fga_cache_store_def en Let_def
        with_l2_def sys_put_def numeral_2_eq_2)
  have miss: "fst (l1_lookup zero_key gen now (sys_l1 sys1 ! 1)) = None" for gen now
    unfolding sys1(1) by (rule l1_lookup_startup)
  have "fst (sys_step list_ht (SysLookup 1 example_config 2000000 zero_key) sys1) = Some True"
  proof -
    obtain x where x: "l1_lookup zero_key (l2_generation (fst l2')) (get_now_ms 2000000)
        (sys_l1 sys1 ! Suc 0) = (None, x)"
      using miss [unfolded One_nat_def] by (metis prod.collapse)
    obtain y where "l2_lookup list_ht zero_key (get_now_ms 2000000) (Some l2')
        = (Some (True, cache_expiry example_config 1000000), y)"
      using look by (metis prod.collapse)
    with x show ?thesis by (simp add: fga_cache_lookup_def en Let_def sys_view_def sys1(2))
  qed
  then show ?thesis
    by (auto simp: sys1_def split_beta prod_eq_iff simp del: sys_step.simps)
qed


section \<open>Counters\<close>

definition total :: "(FgaBackendStats \<Rightarrow> u64) \<Rightarrow> FgaStats \<Rightarrow> u64" where
  "total f stats = (\<Sum>b \<leftarrow> backends stats. f b)"

lemma total_bump:
  assumes "b < length (backends stats)" and "\<And>x. f (g x) = f x + d"
  shows "total f (bump (Some b) g stats) = total f stats + d"
  using assms by (simp add: total_def bump_def sum_list_bump)

lemma length_bump [simp]: "length (backends (bump me g stats)) = length (backends stats)"
  by (simp add: bump_def split: option.splits)

lemma total_stats:
  assumes "b < length (backends s)"
  shows "total cache_l1_hits (fga_stats_l1_hit (Some b) s) = total cache_l1_hits s + 1"
    "total cache_l1_misses (fga_stats_l1_hit (Some b) s) = total cache_l1_misses s"
    "total cache_l2_hits (fga_stats_l1_hit (Some b) s) = total cache_l2_hits s"
    "total cache_l2_misses (fga_stats_l1_hit (Some b) s) = total cache_l2_misses s"
    "total cache_l1_hits (fga_stats_l1_miss (Some b) s) = total cache_l1_hits s"
    "total cache_l1_misses (fga_stats_l1_miss (Some b) s) = total cache_l1_misses s + 1"
    "total cache_l2_hits (fga_stats_l1_miss (Some b) s) = total cache_l2_hits s"
    "total cache_l2_misses (fga_stats_l1_miss (Some b) s) = total cache_l2_misses s"
    "total cache_l1_hits (fga_stats_l2_hit (Some b) s) = total cache_l1_hits s"
    "total cache_l1_misses (fga_stats_l2_hit (Some b) s) = total cache_l1_misses s"
    "total cache_l2_hits (fga_stats_l2_hit (Some b) s) = total cache_l2_hits s + 1"
    "total cache_l2_misses (fga_stats_l2_hit (Some b) s) = total cache_l2_misses s"
    "total cache_l1_hits (fga_stats_l2_miss (Some b) s) = total cache_l1_hits s"
    "total cache_l1_misses (fga_stats_l2_miss (Some b) s) = total cache_l1_misses s"
    "total cache_l2_hits (fga_stats_l2_miss (Some b) s) = total cache_l2_hits s"
    "total cache_l2_misses (fga_stats_l2_miss (Some b) s) = total cache_l2_misses s + 1"
  using total_bump [OF assms, where d = 0] total_bump [OF assms, where d = 1]
  by (simp_all add: fga_stats_l1_hit_def fga_stats_l1_miss_def fga_stats_l2_hit_def fga_stats_l2_miss_def)

lemma length_stats [simp]:
  "length (backends (fga_stats_l1_hit me s)) = length (backends s)"
  "length (backends (fga_stats_l1_miss me s)) = length (backends s)"
  "length (backends (fga_stats_l2_hit me s)) = length (backends s)"
  "length (backends (fga_stats_l2_miss me s)) = length (backends s)"
  by (simp_all add: fga_stats_l1_hit_def fga_stats_l1_miss_def fga_stats_l2_hit_def fga_stats_l2_miss_def)

lemma fga_cache_lookup_stats:
  assumes "fga_cache_lookup ht config me clock key view = (r, view')"
  shows "if \<not> cfg_cache_enabled config then r = None \<and> view_stats view' = view_stats view
    else (r \<noteq> None \<and> view_stats view' = fga_stats_l1_hit me (view_stats view)) \<or>
      (r \<noteq> None \<and> view_stats view' = fga_stats_l2_hit me (fga_stats_l1_miss me (view_stats view))) \<or>
      (r = None \<and> view_stats view' = fga_stats_l2_miss me (fga_stats_l1_miss me (view_stats view)))"
  using assms by (auto simp: fga_cache_lookup_def Let_def split: prod.splits option.splits if_splits)

lemma fga_cache_store_stats:
  "fga_cache_store ht config clock key a view = Some (Inr view') \<Longrightarrow> view_stats view' = view_stats view"
  "fga_cache_store ht config clock key a view = Some (Inl (err, view')) \<Longrightarrow> view_stats view' = view_stats view"
  by (auto simp: fga_cache_store_def Let_def split: if_splits option.splits sum.splits)

fun is_enabled_lookup :: "sys_op \<Rightarrow> bool" where
  "is_enabled_lookup (SysLookup b config clock key) = cfg_cache_enabled config"
| "is_enabled_lookup (SysStore b config clock key a) = False"

definition sys_final :: "'h dynahash \<Rightarrow> sys_op list \<Rightarrow> 'h cache_sys \<Rightarrow> 'h cache_sys" where
  "sys_final ht acts sys = fold (\<lambda>act s. snd (sys_step ht act s)) acts sys"

lemma sys_step_totals:
  assumes "op_backend act < length (backends (sys_stats sys))" and "sys_step ht act sys = (r, sys')"
  defines "T \<equiv> \<lambda>f s. total f (sys_stats s)"
  shows "length (backends (sys_stats sys')) = length (backends (sys_stats sys)) \<and>
    T cache_l1_hits sys' + T cache_l1_misses sys' = T cache_l1_hits sys + T cache_l1_misses sys +
      of_bool (is_enabled_lookup act) \<and>
    T cache_l2_hits sys' + T cache_l2_misses sys' - T cache_l1_misses sys' =
      T cache_l2_hits sys + T cache_l2_misses sys - T cache_l1_misses sys \<and>
    T cache_l1_hits sys' + T cache_l2_hits sys' = T cache_l1_hits sys + T cache_l2_hits sys +
      of_bool (r \<noteq> None)"
proof (cases act)
  case (SysLookup b config clock key)
  obtain view where l: "fga_cache_lookup ht config (Some b) clock key (sys_view b sys) = (r, view)"
    and sys': "sys' = sys_put b view sys"
    using assms(2) by (auto simp: SysLookup split: prod.splits)
  have b: "b < length (backends (sys_stats sys))" using assms(1) by (simp add: SysLookup)
  have "sys_stats sys' = view_stats view" "view_stats (sys_view b sys) = sys_stats sys"
    by (simp_all add: sys' sys_put_def sys_view_def)
  with fga_cache_lookup_stats [OF l] b show ?thesis
    by (auto simp: T_def SysLookup total_stats split: if_splits)
next
  case (SysStore b config clock key a)
  have "sys_stats sys' = sys_stats sys" "r = None"
    using assms(2) fga_cache_store_stats [of ht config clock key a "sys_view b sys"]
    by (auto simp: SysStore sys_put_def sys_view_def split: option.splits sum.splits)
  then show ?thesis by (simp add: T_def SysStore)
qed

text \<open>C29: The counters of the report add up: after any run on a fresh server, over all backends,
  L1 hits and misses together count the lookups made with the cache enabled, L2 hits and misses
  together count the L1 misses, and L1 and L2 hits together count the lookups answered (all
  modulo \<open>2 ^ 64\<close>).\<close>

theorem cache_counters_add_up:
  assumes "sys_stats sys = fga_stats_shmem_init n" and "\<forall>act \<in> set acts. op_backend act < n"
  shows "let final = sys_stats (sys_final ht acts sys) in
    total cache_l1_hits final + total cache_l1_misses final = of_nat (length (filter is_enabled_lookup acts)) \<and>
    total cache_l2_hits final + total cache_l2_misses final = total cache_l1_misses final \<and>
    total cache_l1_hits final + total cache_l2_hits final =
      of_nat (length (filter (\<lambda>(_, _, r). r \<noteq> None) (sys_run ht acts sys past)))"
proof -
  have gen: "length (backends (sys_stats sys)) = n \<Longrightarrow> \<forall>act \<in> set acts. op_backend act < n \<Longrightarrow>
    let final = sys_stats (sys_final ht acts sys); s = sys_stats sys in
    total cache_l1_hits final + total cache_l1_misses final =
      total cache_l1_hits s + total cache_l1_misses s + of_nat (length (filter is_enabled_lookup acts)) \<and>
    total cache_l2_hits final + total cache_l2_misses final - total cache_l1_misses final =
      total cache_l2_hits s + total cache_l2_misses s - total cache_l1_misses s \<and>
    total cache_l1_hits final + total cache_l2_hits final = total cache_l1_hits s + total cache_l2_hits s +
      of_nat (length (filter (\<lambda>(_, _, r). r \<noteq> None) (sys_run ht acts sys past)))" for sys past
  proof (induction acts arbitrary: sys past)
    case Nil
    then show ?case by (simp add: sys_final_def)
  next
    case (Cons act acts)
    obtain r sys' where step: "sys_step ht act sys = (r, sys')" by fastforce
    have "op_backend act < length (backends (sys_stats sys))" using Cons.prems by simp
    note st = sys_step_totals [OF this step]
    have "sys_final ht (act # acts) sys = sys_final ht acts sys'" by (simp add: sys_final_def step)
    with st Cons.IH [of sys' "act # past"] Cons.prems show ?case
      by (cases r) (simp_all add: step Let_def ac_simps)
  qed
  have "total f (fga_stats_shmem_init n) = 0" if "f zero_backend_stats = 0" for f
    using that by (simp add: total_def fga_stats_shmem_init_def sum_list_replicate)
  then have "total cache_l1_hits (sys_stats sys) = 0" "total cache_l1_misses (sys_stats sys) = 0"
    "total cache_l2_hits (sys_stats sys) = 0" "total cache_l2_misses (sys_stats sys) = 0"
    by (simp_all add: assms(1) zero_backend_stats_def)
  with gen [of sys past] assms show ?thesis
    by (simp add: Let_def fga_stats_shmem_init_def)
qed

theorem cache_counters_add_up_witness:
  "let final = sys_stats (sys_final list_ht [SysStore 0 example_config 1000000 zero_key True,
       SysLookup 1 example_config 2000000 zero_key] example_sys) in
   total cache_l1_hits final + total cache_l1_misses final = 1"
  using cache_counters_add_up [of example_sys 2 "[SysStore 0 example_config 1000000 zero_key True,
      SysLookup 1 example_config 2000000 zero_key]" list_ht "[]"]
  by (simp add: example_sys_def example_config_def Let_def)

section \<open>Start-up\<close>

lemma l2_capacity_value:
  assumes "1 \<le> sint cs" and "sint cs \<le> 1024"
  shows "unat (l2_capacity_from_config cs) = nat (sint cs) * 16384"
proof -
  have u: "unat (word_of_int z :: 64 word) = nat z" if "0 \<le> z" "z < 2 ^ 64" for z
    using that by (simp add: unsigned_of_int take_bit_eq_mod)
  have "(scast cs :: 64 word) * 1024 * 1024 = word_of_int (sint cs * 1048576)"
    unfolding scast_eq by simp
  moreover have "unat (word_of_int (sint cs * 1048576) :: 64 word) = nat (sint cs * 1048576)"
    using assms by (intro u) simp_all
  moreover have "nat (sint cs * 1048576) = nat (sint cs) * 1048576"
    using assms by (simp add: nat_mult_distrib)
  ultimately have "unat ((scast cs :: 64 word) * 1024 * 1024) = nat (sint cs) * 1048576" by metis
  then show ?thesis
    unfolding l2_capacity_from_config_def Let_def unat_div by simp
qed

text \<open>With any configuration the server can have, on zeroed shared memory with room for the
  entries, start-up gives the shared cache 16384 slots per megabyte (so more than one), consistent
  with an empty index, and the backend an empty cache; running it again changes neither.\<close>

theorem cache_startup_fresh:
  assumes "ht_ok ht" and "config_bounds config"
    and "mem = replicate m zero_l2_entry" and "nat (sint (cfg_cache_size config)) * 16384 \<le> m"
  shows "let cache = fga_cache_shmem_init config mem;
      (l1c, index) = fga_cache_shmem_each_startup ht cache None None
    in unat (l2_capacity cache) = nat (sint (cfg_cache_size config)) * 16384 \<and>
      1 < l2_capacity cache \<and>
      (\<exists>tbl. index = Some tbl \<and> l2_wf ht (Some (cache, tbl)) \<and>
        l2_content ht (Some (cache, tbl)) = Map.empty) \<and>
      l1_wf l1c \<and> l1_content l1c = Map.empty \<and>
      fga_cache_shmem_each_startup ht cache l1c index = (l1c, index)"
proof -
  let ?n = "nat (sint (cfg_cache_size config)) * 16384"
  let ?cache = "fga_cache_shmem_init config mem"
  have b: "1 \<le> sint (cfg_cache_size config)" "sint (cfg_cache_size config) \<le> 1024"
    using assms(2) by (simp_all add: config_bounds_def)
  then have n: "?n \<le> 16777216" "16384 \<le> ?n" by linarith+
  have cap: "unat (l2_capacity ?cache) = ?n"
    using l2_capacity_value [OF b] n
    by (simp add: fga_cache_shmem_init_def Let_def unsigned_ucast_eq take_bit_eq_mod)
  have ents: "l2_entries ?cache = replicate ?n (zero_l2_entry\<lparr>l2_valid := False\<rparr>)"
    using assms(3,4) cap by (simp add: fga_cache_shmem_init_def Let_def min_def)
  obtain tbl where tbl: "l2_startup ht ?cache None = Some tbl" by (simp add: l2_startup_def)
  have pos: "1 < l2_capacity ?cache" using cap n(2) by (simp add: word_less_nat_alt)
  then have "0 < l2_capacity ?cache" by (simp add: word_less_nat_alt)
  then have "l2_wf ht (Some (?cache, tbl)) \<and> l2_content ht (Some (?cache, tbl)) = Map.empty"
    by (rule l2_wf_fresh [OF assms(1) _ _ _ tbl])
      (simp_all add: cap ents zero_l2_entry_def)
  moreover obtain c where "l1_startup None = Some c" by (auto simp: l1_startup_def)
  ultimately show ?thesis
    using l1_wf_startup cap pos tbl
    by (simp add: Let_def fga_cache_shmem_each_startup_def) (simp add: l1_startup_def l2_startup_def)
qed

theorem cache_startup_fresh_witness:
  "unat (l2_capacity (fga_cache_shmem_init example_config (replicate 524288 zero_l2_entry))) = 524288"
proof -
  have "sint (cfg_cache_size example_config) = 32"
    by (simp add: example_config_def fga_guc_init_def fga_guc_vars_def)
  then show ?thesis
    using cache_startup_fresh [OF list_ht_ok example_config_bounds refl, of 524288]
    by (simp add: Let_def split: prod.splits)
qed

end
