(* ===== verification/Func_Fga.thy ===== *)
theory Func_Fga
  imports Channel Cache
begin

text \<open>
  The SQL functions of \<open>src/func_fga.c\<close>: argument checks, the request a call puts in its slot, and
  the bodies of \<open>fga_check\<close>, \<open>fga_write_tuple\<close>, \<open>fga_delete_tuple\<close>, \<open>fga_create_store\<close> and
  \<open>fga_delete_store\<close> with their \<open>PG_TRY\<close> / \<open>PG_CATCH\<close> blocks. A \<open>text\<close> argument is the list of its
  bytes, \<open>None\<close> for SQL null.

  The theorems give the request each call sends, the answer it returns, and what every path leaves
  in the slot pool.
\<close>

section \<open>Arguments\<close>

record TupleArgsView =
  arg_object_type :: "char list"
  arg_object_id :: "char list"
  arg_subject_type :: "char list"
  arg_subject_id :: "char list"
  arg_relation :: "char list"
  arg_options :: "char list option"

text \<open>\<open>dst_size > 0\<close> is the \<open>Assert\<close>; \<open>dst\<close> is the whole buffer.\<close>

definition write_text :: "char list \<Rightarrow> char list \<Rightarrow> char list" where
  "write_text dst src =
     (let len = length src;
          len = (if length dst \<le> len then length dst - 1 else len)
      in copy_terminated dst (take len src))"

definition fill_tuple :: "TupleArgsView \<Rightarrow> FgaTuple \<Rightarrow> FgaTuple" where
  "fill_tuple v t = t\<lparr>object_type := write_text (object_type t) (arg_object_type v),
     object_id := write_text (object_id t) (arg_object_id v),
     subject_type := write_text (subject_type t) (arg_subject_type v),
     subject_id := write_text (subject_id t) (arg_subject_id v),
     relation := write_text (relation t) (arg_relation v)\<rparr>"

definition fill_request :: "FgaConfig \<Rightarrow> FgaRequest \<Rightarrow> fga_error + FgaRequest" where
  "fill_request config req = (case cfg_store_id config of
     None \<Rightarrow> Inl StoreIdNotConfigured
   | Some store_id \<Rightarrow>
       if c_str store_id = [] then Inl StoreIdNotConfigured
       else (let req1 = req\<lparr>req_store_id := strlcpy (req_store_id req) store_id\<rparr>
             in Inr (case cfg_model_id config of
                  None \<Rightarrow> req1
                | Some model_id \<Rightarrow> req1\<lparr>req_model_id := strlcpy (req_model_id req1) model_id\<rparr>)))"

definition build_cache_key ::
  "xxh3 \<Rightarrow> FgaConfig \<Rightarrow> TupleArgsView \<Rightarrow> FgaAclCacheKey \<Rightarrow> FgaAclCacheKey option" where
  "build_cache_key xx config args key = fga_cache_key xx key
     \<lparr>ka_store_id = cfg_store_id config, ka_model_id = cfg_model_id config,
      ka_object_type = Some (arg_object_type args), ka_object_id = Some (arg_object_id args),
      ka_subject_type = Some (arg_subject_type args), ka_subject_id = Some (arg_subject_id args),
      ka_relation = Some (arg_relation args)\<rparr>"

definition validate_not_empty :: "char list option \<Rightarrow> string \<Rightarrow> fga_error + char list" where
  "validate_not_empty arg argname = (case arg of
     None \<Rightarrow> Inl (ArgNull argname)
   | Some t \<Rightarrow> if length t = 0 then Inl (ArgEmpty argname) else Inr t)"

text \<open>\<open>fcinfo\<close> is the list of the call's arguments; the five text arguments are checked in order.\<close>

definition read_tuple_args :: "char list option list \<Rightarrow> fga_error + TupleArgsView" where
  "read_tuple_args fcinfo =
     (case validate_not_empty (fcinfo ! 0) ''object_type'' of Inl err \<Rightarrow> Inl err | Inr ot \<Rightarrow>
     (case validate_not_empty (fcinfo ! 1) ''object_id'' of Inl err \<Rightarrow> Inl err | Inr oid \<Rightarrow>
     (case validate_not_empty (fcinfo ! 2) ''subject_type'' of Inl err \<Rightarrow> Inl err | Inr st \<Rightarrow>
     (case validate_not_empty (fcinfo ! 3) ''subject_id'' of Inl err \<Rightarrow> Inl err | Inr sid \<Rightarrow>
     (case validate_not_empty (fcinfo ! 4) ''relation'' of Inl err \<Rightarrow> Inl err | Inr r \<Rightarrow>
        Inr \<lparr>arg_object_type = ot, arg_object_id = oid, arg_subject_type = st,
              arg_subject_id = sid, arg_relation = r,
              arg_options = (if 6 \<le> length fcinfo then fcinfo ! 5 else None)\<rparr>)))))"

section \<open>Slots\<close>

abbreviation slot_request :: "'l FgaState \<Rightarrow> nat \<Rightarrow> FgaRequest" where
  "slot_request s i \<equiv> request (payload (slot_of s i))"

abbreviation slot_response :: "'l FgaState \<Rightarrow> nat \<Rightarrow> FgaResponse" where
  "slot_response s i \<equiv> response (payload (slot_of s i))"

definition put_request :: "nat \<Rightarrow> FgaRequest \<Rightarrow> 'l FgaState \<Rightarrow> 'l FgaState" where
  "put_request i req = set_slot i (\<lambda>slot. slot\<lparr>payload := (payload slot)\<lparr>request := req\<rparr>\<rparr>)"

text \<open>
  The statements that put a tuple request in the slot: its type, the identifiers, the tuple. When
  \<open>fill_request\<close> raises, the type has been written.
\<close>

definition put_tuple_request ::
  "FgaRequestType \<Rightarrow> FgaConfig \<Rightarrow> TupleArgsView \<Rightarrow> nat \<Rightarrow> 'l FgaState \<Rightarrow> unit outcome \<times> 'l FgaState" where
  "put_tuple_request rtype config args i s =
     (let s1 = put_request i ((slot_request s i)\<lparr>req_type := request_type_code rtype\<rparr>) s
      in case fill_request config (slot_request s1 i) of
           Inl err \<Rightarrow> (Raise err, s1)
         | Inr req \<Rightarrow> (Return (), put_request i (req\<lparr>req_body :=
             set_body_tuple (fill_tuple args (body_tuple (req_body req))) (req_body req)\<rparr>) s1))"

text \<open>\<open>PG_CATCH\<close> of the four functions that have one: release the slot, throw again.\<close>

definition catch_release ::
  "'l slist_ops \<Rightarrow> nat \<Rightarrow> 'a outcome \<times> 'l FgaState \<Rightarrow> 'a outcome \<times> 'l FgaState" where
  "catch_release sl i res = (case res of
     (Raise err, s) \<Rightarrow> (Raise err, fga_channel_release_slot sl i s)
   | _ \<Rightarrow> res)"

definition and_then ::
  "'a outcome \<times> 's \<Rightarrow> ('a \<Rightarrow> 's \<Rightarrow> 'b outcome \<times> 's) \<Rightarrow> 'b outcome \<times> 's" where
  "and_then res k = (case res of
     (Return x, s) \<Rightarrow> k x s
   | (Raise err, s) \<Rightarrow> (Raise err, s)
   | (Waiting, s) \<Rightarrow> (Waiting, s)
   | (Crash, s) \<Rightarrow> (Crash, s))"

section \<open>The functions\<close>

text \<open>
  The backend's own state: its cache view beside the shared channel. \<open>call_env\<close> is what a call
  takes from its process: the process id and number, the configuration and clock, the wake-ups
  while it waits, and the bytes the C stack happens to hold in \<open>key\<close> and \<open>allowed\<close>, which
  \<open>fga_check\<close> declares without initializing.
\<close>

record 'l call_env =
  ce_pid :: int
  ce_proc :: "nat option"
  ce_config :: FgaConfig
  ce_clock :: i64
  ce_wakes :: "'l wake_up list"
  ce_stack_key :: FgaAclCacheKey
  ce_stack_allowed :: bool

text \<open>
  The block of \<open>fga_check\<close> that asks the server, when the cache has no answer; it has no
  \<open>PG_TRY\<close>. With the answer come the \<open>INFO\<close> messages.
\<close>

definition fga_check_remote ::
  "'l slist_ops \<Rightarrow> 'l call_env \<Rightarrow> TupleArgsView \<Rightarrow> 'l FgaState \<Rightarrow> (bool \<times> string list) outcome \<times> 'l FgaState" where
  "fga_check_remote sl env args s =
     (case fga_channel_acquire_slot sl (ce_pid env) s of
        (Inl err, s1) \<Rightarrow> (Raise err, s1)
      | (Inr i, s1) \<Rightarrow>
          and_then (put_tuple_request FGA_REQUEST_CHECK (ce_config env) args i s1) (\<lambda>_ s2.
          and_then (fga_channel_execute_slot sl (ce_pid env) i (ce_wakes env) s2) (\<lambda>_ s3.
            let (allowed, info) =
                  (if status (slot_response s3 i) = FGA_RESPONSE_OK
                   then (body_flag (res_body (slot_response s3 i)), [])
                   else (ce_stack_allowed env,
                         [''postfga: check tuple failed - '' @ c_str (error_message (slot_response s3 i))]))
            in (Return (allowed, info), fga_channel_release_slot sl i s3))))"

text \<open>\<open>None\<close> is the overflow of the stack buffer in \<open>fga_cache_key\<close>.\<close>

definition fga_check ::
  "'l slist_ops \<Rightarrow> 'h dynahash \<Rightarrow> xxh3 \<Rightarrow> 'l call_env \<Rightarrow> char list option list
    \<Rightarrow> 'h cache_view \<Rightarrow> 'l FgaState
    \<Rightarrow> ((bool \<times> string list) outcome \<times> 'h cache_view \<times> 'l FgaState) option" where
  "fga_check sl ht xx env fcinfo view s = (case read_tuple_args fcinfo of
     Inl err \<Rightarrow> Some (Raise err, view, s)
   | Inr args \<Rightarrow> (case build_cache_key xx (ce_config env) args (ce_stack_key env) of
       None \<Rightarrow> None
     | Some key \<Rightarrow>
         (case fga_cache_lookup ht (ce_config env) (ce_proc env) (ce_clock env) key view of
            (Some allowed, view1) \<Rightarrow> Some (Return (allowed, []), view1, s)
          | (None, view1) \<Rightarrow>
              (case fga_check_remote sl env args s of (res, s1) \<Rightarrow> Some (res, view1, s1)))))"

text \<open>The common shape of \<open>fga_write_tuple\<close> and \<open>fga_delete_tuple\<close>.\<close>

definition fga_write_tuple ::
  "'l slist_ops \<Rightarrow> 'l call_env \<Rightarrow> char list option list \<Rightarrow> 'l FgaState \<Rightarrow> bool outcome \<times> 'l FgaState" where
  "fga_write_tuple sl env fcinfo s = (case read_tuple_args fcinfo of
     Inl err \<Rightarrow> (Raise err, s)
   | Inr args \<Rightarrow> (case fga_channel_acquire_slot sl (ce_pid env) s of
       (Inl err, s1) \<Rightarrow> (Raise err, s1)
     | (Inr i, s1) \<Rightarrow> catch_release sl i (
         and_then (put_tuple_request FGA_REQUEST_WRITE_TUPLE (ce_config env) args i s1) (\<lambda>_ s2.
         and_then (fga_channel_execute_slot sl (ce_pid env) i (ce_wakes env) s2) (\<lambda>_ s3.
           if status (slot_response s3 i) \<noteq> FGA_RESPONSE_OK
           then (Raise (WriteTupleFailed (c_str (error_message (slot_response s3 i)))), s3)
           else (Return True, fga_channel_release_slot sl i s3))))))"

definition fga_delete_tuple ::
  "'l slist_ops \<Rightarrow> 'l call_env \<Rightarrow> char list option list \<Rightarrow> 'l FgaState \<Rightarrow> bool outcome \<times> 'l FgaState" where
  "fga_delete_tuple sl env fcinfo s = (case read_tuple_args fcinfo of
     Inl err \<Rightarrow> (Raise err, s)
   | Inr args \<Rightarrow> (case fga_channel_acquire_slot sl (ce_pid env) s of
       (Inl err, s1) \<Rightarrow> (Raise err, s1)
     | (Inr i, s1) \<Rightarrow> catch_release sl i (
         and_then (put_tuple_request FGA_REQUEST_DELETE_TUPLE (ce_config env) args i s1) (\<lambda>_ s2.
         and_then (fga_channel_execute_slot sl (ce_pid env) i (ce_wakes env) s2) (\<lambda>_ s3.
           if status (slot_response s3 i) \<noteq> FGA_RESPONSE_OK
           then (Raise (DeleteTupleFailed (c_str (error_message (slot_response s3 i)))), s3)
           else (Return True, fga_channel_release_slot sl i s3))))))"

text \<open>
  \<open>text_to_cstring\<close> copies the bytes and terminates them. \<open>composite\<close> is whether
  \<open>get_call_result_type\<close> finds a row type; the row is the pair of its columns.
\<close>

definition fga_create_store ::
  "'l slist_ops \<Rightarrow> 'l call_env \<Rightarrow> char list option \<Rightarrow> bool \<Rightarrow> 'l FgaState
    \<Rightarrow> (string \<times> string) outcome \<times> 'l FgaState" where
  "fga_create_store sl env arg composite s = (case arg of
     None \<Rightarrow> (Raise StoreNameNull, s)
   | Some t \<Rightarrow> (let store_name = c_str t in
       case fga_channel_acquire_slot sl (ce_pid env) s of
         (Inl err, s1) \<Rightarrow> (Raise err, s1)
       | (Inr i, s1) \<Rightarrow> catch_release sl i (
           let req = slot_request s1 i;
               s2 = put_request i (req\<lparr>req_type := request_type_code FGA_REQUEST_CREATE_STORE,
                      req_body := set_body_store_name
                        (strlcpy (body_store_name (req_body req)) store_name) (req_body req)\<rparr>) s1
           in and_then (fga_channel_execute_slot sl (ce_pid env) i (ce_wakes env) s2) (\<lambda>_ s3.
             let res = slot_response s3 i in
             if status res \<noteq> FGA_RESPONSE_OK
             then (Raise (CreateStoreFailed store_name (c_str (error_message res))), s3)
             else if \<not> composite then (Raise NotRowContext, s3)
             else (Return (c_str (body_created_id (res_body res)), c_str (body_created_name (res_body res))),
                   fga_channel_release_slot sl i s3)))))"

definition fga_delete_store ::
  "'l slist_ops \<Rightarrow> 'l call_env \<Rightarrow> char list \<Rightarrow> 'l FgaState \<Rightarrow> unit outcome \<times> 'l FgaState" where
  "fga_delete_store sl env arg s = (let store_id = c_str arg in
     case fga_channel_acquire_slot sl (ce_pid env) s of
       (Inl err, s1) \<Rightarrow> (Raise err, s1)
     | (Inr i, s1) \<Rightarrow> catch_release sl i (
         let req = slot_request s1 i;
             s2 = put_request i (req\<lparr>req_type := request_type_code FGA_REQUEST_DELETE_STORE,
                    req_store_id := strlcpy (req_store_id req) store_id\<rparr>) s1
         in and_then (fga_channel_execute_slot sl (ce_pid env) i (ce_wakes env) s2) (\<lambda>_ s3.
           let res = slot_response s3 i in
           if status res \<noteq> FGA_RESPONSE_OK
           then (Raise (DeleteStoreFailed store_id (c_str (error_message res))), s3)
           else (Return (), fga_channel_release_slot sl i s3))))"

end
