(* ===== verification/Processor.thy ===== *)
theory Processor
  imports Func_Fga
begin

text \<open>
  The background worker's \<open>Processor\<close> (\<open>src/bgw/processor.cpp\<close>): it drains the queue, claims each
  slot with a compare-and-swap, hands the requests to the client, and turns each completion into
  the state DONE and a wake-up of the backend. The client is the parameter \<open>serve\<close>: the
  response it leaves in the payload, computed from the request and the response's former bytes.
  \<open>worker_round\<close> is one \<open>execute()\<close> in which all the calls handed out complete before
  \<open>drainCompleted\<close>; the interleavings in general are the step relation of \<open>Protocol\<close>.
\<close>

section \<open>Operations\<close>

abbreviation MAX_BATCH :: u32 where "MAX_BATCH \<equiv> 50"

definition slot_state_set :: "nat \<Rightarrow> FgaChannelSlotState \<Rightarrow> 'l FgaState \<Rightarrow> 'l FgaState" where
  "slot_state_set i st = set_slot i (\<lambda>slot. slot\<lparr>slot_state := st\<rparr>)"

text \<open>The last branch also logs a warning.\<close>

definition beginProcessing :: "'l slist_ops \<Rightarrow> nat \<Rightarrow> 'l FgaState \<Rightarrow> bool \<times> 'l FgaState" where
  "beginProcessing sl i s =
     (if slot_state (slot_of s i) = FGA_CHANNEL_SLOT_PENDING
      then (True, slot_state_set i FGA_CHANNEL_SLOT_PROCESSING s)
      else if slot_state (slot_of s i) = FGA_CHANNEL_SLOT_CANCELED
      then (False, fga_channel_release_slot sl i s)
      else (False, s))"

text \<open>The slots of a drain that were claimed, in order.\<close>

fun begin_slots :: "'l slist_ops \<Rightarrow> nat list \<Rightarrow> 'l FgaState \<Rightarrow> nat list \<times> 'l FgaState" where
  "begin_slots sl [] s = ([], s)"
| "begin_slots sl (i # is) s =
     (case beginProcessing sl i s of (ok, s1) \<Rightarrow>
        (case begin_slots sl is s1 of (begun, s2) \<Rightarrow> (if ok then i # begun else begun, s2)))"

definition execute_begin :: "'l slist_ops \<Rightarrow> 'l FgaState \<Rightarrow> nat list \<times> 'l FgaState" where
  "execute_begin sl s = (case fga_channel_drain_slots MAX_BATCH s of (slots, s1) \<Rightarrow> begin_slots sl slots s1)"

text \<open>The client has answered the request in a slot.\<close>

definition complete ::
  "(FgaRequest \<Rightarrow> FgaResponse \<Rightarrow> FgaResponse) \<Rightarrow> nat \<Rightarrow> 'l FgaState \<Rightarrow> 'l FgaState" where
  "complete serve i = set_slot i (\<lambda>slot. slot\<lparr>payload := (payload slot)
     \<lparr>response := serve (request (payload slot)) (response (payload slot))\<rparr>\<rparr>)"

definition wakeBackend :: "'l slist_ops \<Rightarrow> nat \<Rightarrow> 'l FgaState \<Rightarrow> 'l FgaState" where
  "wakeBackend sl i s = (case fga_channel_wake_backend i s of (woken, s1) \<Rightarrow>
     if woken then s1 else fga_channel_release_slot sl i s1)"

definition handleResponse :: "'l slist_ops \<Rightarrow> nat \<Rightarrow> 'l FgaState \<Rightarrow> 'l FgaState" where
  "handleResponse sl i s =
     (if slot_state (slot_of s i) = FGA_CHANNEL_SLOT_CANCELED then fga_channel_release_slot sl i s
      else wakeBackend sl i (slot_state_set i FGA_CHANNEL_SLOT_DONE s))"

text \<open>\<open>strncpy\<close> into a zeroed buffer and the last byte set to NUL: \<open>msg\<close> cut to 127 bytes.\<close>

definition handleException :: "'l slist_ops \<Rightarrow> nat \<Rightarrow> char list option \<Rightarrow> 'l FgaState \<Rightarrow> 'l FgaState" where
  "handleException sl i msg s =
     (let zero = \<lparr>status = FGA_RESPONSE_SERVER_ERROR,
            error_message = zero_bytes FGA_RESPONSE_ERROR_MESSAGE_LEN, res_body = zero_bytes RESPONSE_BODY_SIZE\<rparr>;
          resp = (case msg of None \<Rightarrow> zero
            | Some m \<Rightarrow> zero\<lparr>error_message := strlcpy (error_message zero) m\<rparr>)
      in handleResponse sl i (set_slot i (\<lambda>slot. slot\<lparr>payload := (payload slot)\<lparr>response := resp\<rparr>\<rparr>) s))"

text \<open>The completed slots are handled in the order of the completed queue.\<close>

definition drainCompleted :: "'l slist_ops \<Rightarrow> nat list \<Rightarrow> 'l FgaState \<Rightarrow> 'l FgaState" where
  "drainCompleted sl completed s = fold (handleResponse sl) completed s"

definition worker_round ::
  "'l slist_ops \<Rightarrow> (FgaRequest \<Rightarrow> FgaResponse \<Rightarrow> FgaResponse) \<Rightarrow> 'l FgaState \<Rightarrow> 'l FgaState" where
  "worker_round sl serve s = (case execute_begin sl s of (begun, s1) \<Rightarrow>
     drainCompleted sl begun (fold (complete serve) begun s1))"

section \<open>Requests\<close>

text \<open>A field written by \<open>write_text\<close> reads back as the first 63 bytes of the argument.\<close>

lemma c_str_write_text [cstr_simps]:
  assumes "dst \<noteq> []" and "NUL \<notin> set src"
  shows "c_str (write_text dst src) = take (length dst - 1) src"
  using assms by (cases "length dst \<le> length src") (simp_all add: write_text_def Let_def c_str_copy_terminated)

lemma length_write_text [simp]: "dst \<noteq> [] \<Longrightarrow> length (write_text dst src) = length dst"
  by (cases dst) (simp_all add: write_text_def Let_def min_def)

lemma fill_tuple_wf: "tuple_wf t \<Longrightarrow> tuple_wf (fill_tuple v t)"
  by (simp add: tuple_wf_def fill_tuple_def) (metis length_0_conv length_write_text zero_neq_numeral)

definition args_text :: "TupleArgsView \<Rightarrow> bool" where
  "args_text args \<longleftrightarrow> NUL \<notin> set (arg_object_type args) \<and> NUL \<notin> set (arg_object_id args) \<and>
     NUL \<notin> set (arg_subject_type args) \<and> NUL \<notin> set (arg_subject_id args) \<and>
     NUL \<notin> set (arg_relation args)"

text \<open>The request says what the call was asked: its type, identifiers and tuple.\<close>

definition tuple_strings :: "FgaTuple \<Rightarrow> string list" where
  "tuple_strings t = [c_str (object_type t), c_str (object_id t), c_str (subject_type t),
     c_str (subject_id t), c_str (relation t)]"

definition args_strings :: "TupleArgsView \<Rightarrow> string list" where
  "args_strings v = map (take 63) [arg_object_type v, arg_object_id v, arg_subject_type v,
     arg_subject_id v, arg_relation v]"

definition carries :: "FgaRequestType \<Rightarrow> FgaConfig \<Rightarrow> TupleArgsView \<Rightarrow> FgaRequest \<Rightarrow> bool" where
  "carries rtype config args req \<longleftrightarrow> req_type req = request_type_code rtype \<and>
     c_str (req_store_id req) = take 63 (c_str (the (cfg_store_id config))) \<and>
     c_str (req_model_id req) = (case cfg_model_id config of None \<Rightarrow> [] | Some m \<Rightarrow> take 63 (c_str m)) \<and>
     tuple_strings (body_tuple (req_body req)) = args_strings args"

definition store_configured :: "FgaConfig \<Rightarrow> bool" where
  "store_configured config \<longleftrightarrow> (case cfg_store_id config of None \<Rightarrow> False | Some s \<Rightarrow> c_str s \<noteq> [])"

lemma tuple_strings_fill:
  assumes "tuple_wf t" and "args_text args"
  shows "tuple_strings (fill_tuple args t) = args_strings args"
proof -
  from assms(1) have "object_type t \<noteq> []" "object_id t \<noteq> []" "subject_type t \<noteq> []"
    "subject_id t \<noteq> []" "relation t \<noteq> []" by (auto simp: tuple_wf_def)
  with assms show ?thesis
    by (simp add: tuple_strings_def args_strings_def fill_tuple_def c_str_write_text tuple_wf_def
        args_text_def)
qed

definition zeroed_request :: "FgaRequest \<Rightarrow> bool" where
  "zeroed_request req \<longleftrightarrow> (\<exists>rid. req = (request zero_payload)\<lparr>request_id := rid\<rparr>)"

lemma put_request_twice:
  assumes "i < slot_count s"
  shows "put_request i q (put_request i p s) = put_request i q s"
proof -
  have "set_slot i f (set_slot i g s) = set_slot i (\<lambda>x. f (g x)) s" for f g
    using assms by (simp add: set_slot_def on_pool_def update_slot_def slot_count_def)
  then show ?thesis by (simp add: put_request_def)
qed

text \<open>The request that \<open>fill_request\<close> and the tuple's fields make of a zeroed one.\<close>

lemma filled_request_carries:
  assumes st: "cfg_store_id config = Some st" "c_str st \<noteq> []" and args: "args_text args"
    and req1: "req1 = (request zero_payload)\<lparr>request_id := rid, req_type := request_type_code rtype\<rparr>"
  obtains req2 where "fill_request config req1 = Inr req2"
    and "carries rtype config args
      (req2\<lparr>req_body := set_body_tuple (fill_tuple args (body_tuple (req_body req2))) (req_body req2)\<rparr>)"
proof -
  define req2 where "req2 = (case fill_request config req1 of Inr q \<Rightarrow> q)"
  have fill: "fill_request config req1 = Inr req2" by (simp add: req2_def fill_request_def st Let_def)
  have body: "req_body req2 = zero_bytes REQUEST_BODY_SIZE" "req_type req2 = request_type_code rtype"
    "c_str (req_store_id req2) = take 63 (c_str st)"
    "c_str (req_model_id req2) = (case cfg_model_id config of None \<Rightarrow> [] | Some m \<Rightarrow> take 63 (c_str m))"
    by (simp_all add: req2_def fill_request_def st Let_def req1 zero_payload_def c_str_strlcpy
        c_str_zero_bytes zero_bytes_def [symmetric] split: option.splits)
      (simp_all add: zero_bytes_def c_str_strlcpy)
  have wf: "tuple_wf (body_tuple (zero_bytes REQUEST_BODY_SIZE))" by (simp add: tuple_wf_body_tuple)
  have "body_tuple (set_body_tuple (fill_tuple args (body_tuple (zero_bytes REQUEST_BODY_SIZE)))
      (zero_bytes REQUEST_BODY_SIZE)) = fill_tuple args (body_tuple (zero_bytes REQUEST_BODY_SIZE))"
    by (rule body_tuple_set(1) [OF fill_tuple_wf [OF wf]]) simp
  then have "carries rtype config args
      (req2\<lparr>req_body := set_body_tuple (fill_tuple args (body_tuple (req_body req2))) (req_body req2)\<rparr>)"
    using tuple_strings_fill [OF wf args] by (simp add: carries_def body st(1))
  with fill show thesis by (rule that)
qed

lemma put_tuple_request_spec:
  assumes i: "i < slot_count s" and z: "zeroed_request (slot_request s i)" and args: "args_text args"
    and put: "put_tuple_request rtype config args i s = (r, s')"
  shows "r = (if store_configured config then Return () else Raise StoreIdNotConfigured)"
    and "\<exists>req. s' = put_request i req s \<and>
      (store_configured config \<longrightarrow> carries rtype config args req)"
proof -
  obtain rid where req: "slot_request s i = (request zero_payload)\<lparr>request_id := rid\<rparr>"
    using z by (auto simp: zeroed_request_def)
  let ?req1 = "(slot_request s i)\<lparr>req_type := request_type_code rtype\<rparr>"
  have s1: "slot_request (put_request i ?req1 s) i = ?req1"
    using i by (simp add: put_request_def)
  show "r = (if store_configured config then Return () else Raise StoreIdNotConfigured)"
    using put by (auto simp: put_tuple_request_def Let_def s1 fill_request_def store_configured_def
        split: option.splits if_splits)
  show "\<exists>req. s' = put_request i req s \<and> (store_configured config \<longrightarrow> carries rtype config args req)"
  proof (cases "store_configured config")
    case False
    then have "s' = put_request i ?req1 s"
      using put by (auto simp: put_tuple_request_def Let_def s1 fill_request_def store_configured_def
          split: option.splits if_splits)
    with False show ?thesis by blast
  next
    case True
    then obtain st where st: "cfg_store_id config = Some st" "c_str st \<noteq> []"
      by (auto simp: store_configured_def split: option.splits)
    have req1: "?req1 = (request zero_payload)\<lparr>request_id := rid, req_type := request_type_code rtype\<rparr>"
      by (simp add: req)
    obtain req2 where fill: "fill_request config ?req1 = Inr req2"
      and c: "carries rtype config args
        (req2\<lparr>req_body := set_body_tuple (fill_tuple args (body_tuple (req_body req2))) (req_body req2)\<rparr>)"
      by (rule filled_request_carries [OF st args req1])
    have "s' = put_request i (req2\<lparr>req_body := set_body_tuple (fill_tuple args (body_tuple (req_body req2))) (req_body req2)\<rparr>) s"
      using put by (simp add: put_tuple_request_def Let_def s1 fill put_request_twice [OF i])
    with c show ?thesis by blast
  qed
qed

section \<open>One request, one worker\<close>

text \<open>The channel with one pending request, as a backend leaves it when it starts to wait.\<close>

definition one_pending :: "'l slist_ops \<Rightarrow> nat \<Rightarrow> int \<Rightarrow> nat \<Rightarrow> 'l FgaState \<Rightarrow> bool" where
  "one_pending sl n pid i s \<longleftrightarrow> chan_wf sl n s \<and> i < n \<and> i \<notin> set (free_slots sl s) \<and>
     queued s = [i] \<and> slot_state (slot_of s i) = FGA_CHANNEL_SLOT_PENDING \<and>
     backend_pid (slot_of s i) = pid \<and> proc_latch s pid \<noteq> None"

lemma execute_begin_single:
  assumes "chan_wf sl n s" and "queued s = [i]" and "i < n"
    and "execute_begin sl s = (begun, s')"
  shows "(begun, s') = (case beginProcessing sl i (snd (fga_channel_drain_slots MAX_BATCH s)) of
      (ok, s1) \<Rightarrow> (if ok then [i] else [], s1))"
    and "queued (snd (fga_channel_drain_slots MAX_BATCH s)) = []"
proof -
  obtain xs s1 where d: "fga_channel_drain_slots MAX_BATCH s = (xs, s1)" by fastforce
  note ds = fga_channel_drain_slots_spec [OF assms(1) d]
  have "xs = take (unat (if FGA_CHANNEL_DRAIN_MAX < MAX_BATCH then FGA_CHANNEL_DRAIN_MAX else MAX_BATCH)) [i]"
    using ds assms(2) by metis
  then have xs: "xs = [i]" by simp
  moreover have "queued s = xs @ queued s1" using ds by blast
  ultimately have "queued s1 = []" using assms(2) by simp
  note xs = xs this
  show "queued (snd (fga_channel_drain_slots MAX_BATCH s)) = []" by (simp add: d xs)
  show "(begun, s') = (case beginProcessing sl i (snd (fga_channel_drain_slots MAX_BATCH s)) of
      (ok, s1) \<Rightarrow> (if ok then [i] else [], s1))"
  proof -
    obtain ok s2 where "beginProcessing sl i s1 = (ok, s2)" by fastforce
    with assms(4) show ?thesis by (simp add: execute_begin_def d xs)
  qed
qed

lemma worker_round_single:
  fixes serve :: "FgaRequest \<Rightarrow> FgaResponse \<Rightarrow> FgaResponse"
  assumes "one_pending sl n pid i s"
  defines "s' \<equiv> worker_round sl serve s"
  shows "chan_wf sl n s' \<and> queued s' = [] \<and> free_slots sl s' = free_slots sl s \<and>
    slot_state (slot_of s' i) = FGA_CHANNEL_SLOT_DONE \<and>
    slot_response s' i = serve (slot_request s i) (slot_response s i) \<and>
    backend_pid (slot_of s' i) = pid \<and> bgw_latch s' = bgw_latch s \<and> proc_latch s' pid \<noteq> None"
proof -
  have wf: "chan_wf sl n s" and i: "i < n" "i \<notin> set (free_slots sl s)" and q: "queued s = [i]"
    and pend: "slot_state (slot_of s i) = FGA_CHANNEL_SLOT_PENDING"
    and pid: "backend_pid (slot_of s i) = pid" "proc_latch s pid \<noteq> None"
    using assms(1) by (simp_all add: one_pending_def)
  obtain xs s1 where d: "fga_channel_drain_slots MAX_BATCH s = (xs, s1)" by fastforce
  note ds = fga_channel_drain_slots_spec [OF wf d]
  have i1: "i < slot_count s1" using ds chan_wf_count i(1) by metis
  have q1: "queued s1 = []" using execute_begin_single(2) [OF wf q i(1)] d by (metis prod.collapse snd_conv)
  let ?s2 = "slot_state_set i FGA_CHANNEL_SLOT_PROCESSING s1"
  have "beginProcessing sl i s1 = (True, ?s2)" using pend ds by (simp add: beginProcessing_def)
  moreover obtain begun s2 where e: "execute_begin sl s = (begun, s2)" by fastforce
  ultimately have "begun = [i]" "s2 = ?s2"
    using execute_begin_single(1) [OF wf q i(1) e] by (simp_all add: d)
  then have s': "s' = handleResponse sl i (complete serve i ?s2)"
    by (simp add: s'_def worker_round_def e drainCompleted_def)
  let ?s3 = "slot_state_set i FGA_CHANNEL_SLOT_DONE (complete serve i ?s2)"
  have "slot_state (slot_of (complete serve i ?s2) i) = FGA_CHANNEL_SLOT_PROCESSING"
    using i1 by (simp add: complete_def slot_state_set_def)
  moreover have "backend_pid (slot_of ?s3 i) = pid" "proc_latch ?s3 = proc_latch s"
    using i1 ds pid by (simp_all add: complete_def slot_state_set_def)
  ultimately have s'3: "s' = ?s3\<lparr>proc_latch := (proc_latch s)(pid \<mapsto> True)\<rparr>"
    using pid(2) by (auto simp: s' handleResponse_def wakeBackend_def fga_channel_wake_backend_def Let_def)
  have nf: "i \<notin> set (free_slots sl s1)" using i(2) ds by simp
  have "chan_wf sl n ?s3"
    unfolding slot_state_set_def complete_def
    by (intro chan_wf_set_slot) (use ds nf in simp_all)
  then show ?thesis
    unfolding s'3 using i1 ds q1 pid
    by (simp add: complete_def slot_state_set_def)
qed

text \<open>Spurious wake-ups, then the worker's round.\<close>

definition quiet :: "'l wake_up" where
  "quiet = \<lparr>wu_env = (\<lambda>s. s), wu_interrupt = None\<rparr>"

definition served :: "'l slist_ops \<Rightarrow> (FgaRequest \<Rightarrow> FgaResponse \<Rightarrow> FgaResponse) \<Rightarrow> 'l wake_up" where
  "served sl serve = \<lparr>wu_env = worker_round sl serve, wu_interrupt = None\<rparr>"

lemma one_pending_reset: "one_pending sl n pid i s \<Longrightarrow> one_pending sl n pid i (reset_latch pid s)"
  by (simp add: one_pending_def reset_latch_def del: not_None_eq)

lemma wait_loop_served:
  assumes "one_pending sl n pid i s"
  shows "\<exists>s0. one_pending sl n pid i s0 \<and> free_slots sl s0 = free_slots sl s \<and> slot_of s0 = slot_of s \<and>
    wait_loop pid i (replicate k quiet @ [served sl serve]) s =
      (Return FGA_CHANNEL_SLOT_DONE, reset_latch pid (worker_round sl serve s0))"
  using assms
proof (induction k arbitrary: s)
  case 0
  have "slot_state (slot_of (reset_latch pid (worker_round sl serve s)) i) = FGA_CHANNEL_SLOT_DONE"
    using worker_round_single [OF 0, of serve] by simp
  then have "wait_loop pid i [] (reset_latch pid (worker_round sl serve s)) =
      (Return FGA_CHANNEL_SLOT_DONE, reset_latch pid (worker_round sl serve s))"
    by (subst wait_loop.simps) simp
  moreover have "slot_state (slot_of s i) = FGA_CHANNEL_SLOT_PENDING" using 0 by (simp add: one_pending_def)
  ultimately have "wait_loop pid i [served sl serve] s =
      (Return FGA_CHANNEL_SLOT_DONE, reset_latch pid (worker_round sl serve s))"
    by (subst wait_loop.simps) (simp add: served_def)
  with 0 show ?case by auto
next
  case (Suc k)
  have "slot_state (slot_of s i) = FGA_CHANNEL_SLOT_PENDING" using Suc.prems by (simp add: one_pending_def)
  then have "wait_loop pid i (replicate (Suc k) quiet @ [served sl serve]) s =
      wait_loop pid i (replicate k quiet @ [served sl serve]) (reset_latch pid s)"
    by (subst wait_loop.simps) (simp add: quiet_def)
  with Suc.IH [OF one_pending_reset [OF Suc.prems]] show ?case by auto
qed

text \<open>A backend about to execute slot \<open>i\<close>, with an empty queue and the worker running.\<close>

definition ready :: "'l slist_ops \<Rightarrow> nat \<Rightarrow> int \<Rightarrow> nat \<Rightarrow> 'l FgaState \<Rightarrow> bool" where
  "ready sl n pid i s \<longleftrightarrow> chan_wf sl n s \<and> i < n \<and> i \<notin> set (free_slots sl s) \<and> queued s = [] \<and>
     0 < queue_capacity (ch_queue (channel s)) \<and>
     slot_state (slot_of s i) = FGA_CHANNEL_SLOT_PENDING \<and> backend_pid (slot_of s i) = pid \<and>
     bgw_latch s \<noteq> None \<and> proc_latch s pid \<noteq> None"

lemma execute_enqueued:
  assumes "ready sl n pid i s"
  obtains s1 where "one_pending sl n pid i s1" and "free_slots sl s1 = free_slots sl s"
    and "slot_of s1 = slot_of s"
    and "\<And>ws. fga_channel_execute_slot sl pid i ws s = finish_wait sl i (wait_response sl pid i ws s1)"
proof -
  obtain ok q where enq: "queue_enqueue (ch_queue (channel s)) (of_nat i) = (ok, q)" by fastforce
  have wf: "chan_wf sl n s" and i: "i < n" using assms by (simp_all add: ready_def)
  note e = enqueue_slot_spec [OF wf i enq]
  have ok: "ok" using e(1) assms by (simp add: ready_def)
  let ?s1 = "(put_queue q s)\<lparr>bgw_latch := Some True\<rparr>"
  obtain b where b: "bgw_latch s = Some b" using assms by (auto simp: ready_def)
  show thesis
  proof (rule that [of ?s1])
    show "one_pending sl n pid i ?s1"
      using assms e(2) [OF ok] by (simp add: one_pending_def ready_def)
    show "fga_channel_execute_slot sl pid i ws s = finish_wait sl i (wait_response sl pid i ws ?s1)" for ws
      using ok by (simp add: fga_channel_execute_slot_def Let_def enq fga_wake_bgw_def b)
  qed simp_all
qed

lemma execute_served:
  assumes r: "ready sl n pid i s"
  shows "\<exists>s'. fga_channel_execute_slot sl pid i (replicate k quiet @ [served sl serve]) s = (Return (), s') \<and>
    chan_wf sl n s' \<and> i < n \<and> queued s' = [] \<and> free_slots sl s' = free_slots sl s \<and>
    slot_response s' i = serve (slot_request s i) (slot_response s i)"
proof -
  obtain s1 where s1: "one_pending sl n pid i s1" "free_slots sl s1 = free_slots sl s" "slot_of s1 = slot_of s"
    and ex: "\<And>ws. fga_channel_execute_slot sl pid i ws s = finish_wait sl i (wait_response sl pid i ws s1)"
    by (rule execute_enqueued [OF r]) (rule that)
  obtain s0 where s0: "one_pending sl n pid i s0" "free_slots sl s0 = free_slots sl s1" "slot_of s0 = slot_of s1"
    "wait_loop pid i (replicate k quiet @ [served sl serve]) s1 =
      (Return FGA_CHANNEL_SLOT_DONE, reset_latch pid (worker_round sl serve s0))"
    using wait_loop_served [OF s1(1)] by blast
  have "i < n" using r by (simp add: ready_def)
  then show ?thesis
    using worker_round_single [OF s0(1), of serve] s0 s1
    by (simp add: ex wait_response_def finish_wait_def)
qed

end
