(* ===== verification/Calls.thy ===== *)
theory Calls
  imports Processor
begin

text \<open>
  The SQL functions against the worker: what a call returns, the request the OpenFGA server sees,
  and where the slot is afterwards, on every path. The paths that end well release the slot once;
  the theorems on the failing paths show which ones release it twice, while it is still queued, or
  never.
\<close>

section \<open>From the call to the wait\<close>

text \<open>An idle channel: a free slot, an empty queue, the worker running, the backend's latch there.\<close>

definition idle :: "'l slist_ops \<Rightarrow> nat \<Rightarrow> int \<Rightarrow> 'l FgaState \<Rightarrow> bool" where
  "idle sl n pid s \<longleftrightarrow> chan_wf sl n s \<and> free_slots sl s \<noteq> [] \<and> queued s = [] \<and>
     0 < queue_capacity (ch_queue (channel s)) \<and> bgw_latch s \<noteq> None \<and> proc_latch s pid \<noteq> None"

lemma acquire_idle:
  assumes "chan_wf sl n s" and "free_slots sl s \<noteq> []"
  obtains i s1 where "fga_channel_acquire_slot sl pid s = (Inr i, s1)" and "chan_wf sl n s1"
    and "i < n" and "free_slots sl s = i # free_slots sl s1" and "i \<notin> set (free_slots sl s1)"
    and "ch_queue (channel s1) = ch_queue (channel s)" and "queued s1 = queued s"
    and "slot_of s1 i = fresh_slot pid (ch_request_id (channel s) + 1)"
    and "bgw_latch s1 = bgw_latch s" and "proc_latch s1 = proc_latch s"
proof -
  obtain r s1 where a: "fga_channel_acquire_slot sl pid s = (r, s1)" by fastforce
  note spec = fga_channel_acquire_slot_spec [OF assms(1) a]
  with assms(2) obtain i where r: "r = Inr i" by (cases r) auto
  show thesis by (rule that [of i s1]) (use a spec in \<open>simp_all add: r\<close>)
qed

lemma fresh_slot_zeroed: "zeroed_request (request (payload (fresh_slot pid rid)))"
  by (auto simp: zeroed_request_def fresh_slot_def)

lemma put_request_views:
  "i < slot_count s \<Longrightarrow> slot_request (put_request i req s) i = req"
  "i < slot_count s \<Longrightarrow> slot_response (put_request i req s) i = slot_response s i"
  "i < slot_count s \<Longrightarrow> slot_state (slot_of (put_request i req s) i) = slot_state (slot_of s i)"
  "i < slot_count s \<Longrightarrow> backend_pid (slot_of (put_request i req s) i) = backend_pid (slot_of s i)"
  by (simp_all add: put_request_def)

text \<open>After a successful acquire and \<open>put_tuple_request\<close> the slot is ready to be executed.\<close>

lemma tuple_call_ready:
  assumes idle: "idle sl n pid s" and st: "store_configured config" and args: "args_text args"
  obtains i s1 req s2 where "fga_channel_acquire_slot sl pid s = (Inr i, s1)"
    and "put_tuple_request rtype config args i s1 = (Return (), s2)" and "ready sl n pid i s2"
    and "slot_request s2 i = req" and "carries rtype config args req"
    and "slot_response s2 i = response zero_payload" and "free_slots sl s = i # free_slots sl s2"
proof -
  from idle obtain i s1 where a: "fga_channel_acquire_slot sl pid s = (Inr i, s1)" "chan_wf sl n s1"
    "i < n" "free_slots sl s = i # free_slots sl s1" "i \<notin> set (free_slots sl s1)"
    "ch_queue (channel s1) = ch_queue (channel s)" "queued s1 = queued s"
    "slot_of s1 i = fresh_slot pid (ch_request_id (channel s) + 1)"
    "bgw_latch s1 = bgw_latch s" "proc_latch s1 = proc_latch s"
    unfolding idle_def by (elim conjE acquire_idle [of sl n s pid])
  have cnt: "i < slot_count s1" using a(2,3) chan_wf_count by metis
  have z: "zeroed_request (slot_request s1 i)" by (simp add: a(8) fresh_slot_zeroed)
  obtain r s2 where p: "put_tuple_request rtype config args i s1 = (r, s2)" by fastforce
  note ps = put_tuple_request_spec [OF cnt z args p]
  have r: "r = Return ()" using ps(1) st by simp
  from ps(2) st obtain req where s2: "s2 = put_request i req s1" and c: "carries rtype config args req"
    by blast
  have "chan_wf sl n s2" unfolding s2 put_request_def by (rule chan_wf_set_slot [OF a(2,5)])
  then have "ready sl n pid i s2"
    using a idle cnt by (simp add: ready_def s2 put_request_views idle_def)
      (simp add: put_request_def fresh_slot_def)
  moreover have "slot_response s2 i = response zero_payload"
    by (simp add: s2 put_request_views cnt a(8)) (simp add: fresh_slot_def)
  ultimately show thesis
    using a(1,4) p r c cnt
    by (intro that [of i s1 s2 req]) (simp_all add: s2 put_request_views, simp add: put_request_def)
qed

section \<open>Calls that are served\<close>

text \<open>The wake-ups of a call that is served: \<open>k\<close> spurious ones, then a round of the worker.\<close>

definition served_env :: "'l slist_ops \<Rightarrow> (FgaRequest \<Rightarrow> FgaResponse \<Rightarrow> FgaResponse) \<Rightarrow> 'l call_env \<Rightarrow> bool" where
  "served_env sl serve env \<longleftrightarrow> (\<exists>k. ce_wakes env = replicate k quiet @ [served sl serve])"

lemma fga_check_remote_served:
  assumes idle: "idle sl n (ce_pid env) s" and st: "store_configured (ce_config env)"
    and args: "args_text args" and env: "served_env sl serve env"
  shows "\<exists>req s'. carries FGA_REQUEST_CHECK (ce_config env) args req \<and>
    fga_check_remote sl env args s = (let res = serve req (response zero_payload) in
      if status res = FGA_RESPONSE_OK then (Return (body_flag (res_body res), []), s')
      else (Return (ce_stack_allowed env,
             [''postfga: check tuple failed - '' @ c_str (error_message res)]), s')) \<and>
    chan_wf sl n s' \<and> free_slots sl s' = free_slots sl s \<and> queued s' = []"
proof -
  let ?pid = "ce_pid env"
  obtain i s1 req s2 where a: "fga_channel_acquire_slot sl ?pid s = (Inr i, s1)"
    "put_tuple_request FGA_REQUEST_CHECK (ce_config env) args i s1 = (Return (), s2)"
    "ready sl n ?pid i s2" "slot_request s2 i = req" "carries FGA_REQUEST_CHECK (ce_config env) args req"
    "slot_response s2 i = response zero_payload" "free_slots sl s = i # free_slots sl s2"
    by (rule tuple_call_ready [OF idle st args])
  obtain k where k: "ce_wakes env = replicate k quiet @ [served sl serve]"
    using env by (auto simp: served_env_def)
  obtain s3 where e: "fga_channel_execute_slot sl ?pid i (ce_wakes env) s2 = (Return (), s3)"
    and s3: "chan_wf sl n s3" "i < n" "queued s3 = []" "free_slots sl s3 = free_slots sl s2"
      "slot_response s3 i = serve req (response zero_payload)"
    using execute_served [OF a(3), of k serve] a(4,6) by (auto simp: k)
  have nf: "i \<notin> set (free_slots sl s3)" using a(3) s3(4) by (simp add: ready_def)
  note rel = fga_channel_release_slot_spec [OF s3(1,2) nf]
  have "fga_check_remote sl env args s = (let res = serve req (response zero_payload) in
      if status res = FGA_RESPONSE_OK then (Return (body_flag (res_body res), []),
        fga_channel_release_slot sl i s3)
      else (Return (ce_stack_allowed env,
             [''postfga: check tuple failed - '' @ c_str (error_message res)]),
        fga_channel_release_slot sl i s3))"
    by (simp add: fga_check_remote_def a(1,2) and_then_def e s3(5) Let_def)
  then show ?thesis
    using a(5,7) rel s3
    by (intro exI [of _ req] exI [of _ "fga_channel_release_slot sl i s3"]) simp
qed

text \<open>The three outcomes of a served tuple write or delete, in one lemma for both functions.\<close>

lemma served_write_body:
  assumes idle: "idle sl n (ce_pid env) s" and st: "store_configured (ce_config env)"
    and args: "args_text args" and env: "served_env sl serve env"
    and acq: "fga_channel_acquire_slot sl (ce_pid env) s = (Inr i, s1)"
  shows "\<exists>req s'. carries rtype (ce_config env) args req \<and>
    catch_release sl i (
      and_then (put_tuple_request rtype (ce_config env) args i s1) (\<lambda>_ s2.
      and_then (fga_channel_execute_slot sl (ce_pid env) i (ce_wakes env) s2) (\<lambda>_ s3.
        if status (slot_response s3 i) \<noteq> FGA_RESPONSE_OK
        then (Raise (failed (c_str (error_message (slot_response s3 i)))), s3)
        else (Return True, fga_channel_release_slot sl i s3)))) =
    (let res = serve req (response zero_payload) in
       if status res = FGA_RESPONSE_OK then (Return True, s')
       else (Raise (failed (c_str (error_message res))), s')) \<and>
    chan_wf sl n s' \<and> free_slots sl s' = free_slots sl s \<and> queued s' = []"
proof -
  let ?pid = "ce_pid env"
  obtain i' s1' req s2 where a': "fga_channel_acquire_slot sl ?pid s = (Inr i', s1')"
    "put_tuple_request rtype (ce_config env) args i' s1' = (Return (), s2)"
    "ready sl n ?pid i' s2" "slot_request s2 i' = req" "carries rtype (ce_config env) args req"
    "slot_response s2 i' = response zero_payload" "free_slots sl s = i' # free_slots sl s2"
    by (rule tuple_call_ready [OF idle st args])
  have eq: "i' = i" "s1' = s1" using a'(1) acq by simp_all
  note a = a' [unfolded eq]
  obtain k where k: "ce_wakes env = replicate k quiet @ [served sl serve]"
    using env by (auto simp: served_env_def)
  obtain s3 where e: "fga_channel_execute_slot sl ?pid i (ce_wakes env) s2 = (Return (), s3)"
    and s3: "chan_wf sl n s3" "i < n" "queued s3 = []" "free_slots sl s3 = free_slots sl s2"
      "slot_response s3 i = serve req (response zero_payload)"
    using execute_served [OF a(3), of k serve] a(4,6) by (auto simp: k)
  have nf: "i \<notin> set (free_slots sl s3)" using a(3) s3(4) by (simp add: ready_def)
  note rel = fga_channel_release_slot_spec [OF s3(1,2) nf]
  show ?thesis
    using a(5,7) rel s3
    by (intro exI [of _ req] exI [of _ "fga_channel_release_slot sl i s3"])
      (simp add: a(2) and_then_def e catch_release_def Let_def)
qed

section \<open>Properties\<close>

definition enabled_config :: FgaConfig where
  "enabled_config = (fga_guc_init (\<lambda>_. None) fga_config_instance)\<lparr>cfg_store_id := Some ''store''\<rparr>"

text \<open>A channel of two slots, the worker running, one backend with process id 42.\<close>

definition example_state :: "nat list FgaState" where
  "example_state = \<lparr>channel = \<lparr>ch_request_id = 0,
       ch_pool = pool_init list_slist \<lparr>pool_head = [], pool_slots = replicate 2 (fresh_slot 0 0)\<rparr> 2,
       ch_queue = queue_init \<lparr>q_mask = 0, q_head = 0, q_tail = 0, q_values = [0, 0]\<rparr> 2\<rparr>,
     bgw_latch = Some False, proc_latch = Map.empty(42 \<mapsto> False)\<rparr>"

lemma example_state_idle: "idle list_slist 2 42 example_state"
proof -
  have "pool_wf list_slist 2 (ch_pool (channel example_state)) \<and>
      pool_free list_slist (ch_pool (channel example_state)) = rev [0..<2]"
    using pool_init_wf [OF list_slist_ok, of "\<lparr>pool_head = [], pool_slots = replicate 2 (fresh_slot 0 0)\<rparr>" 2]
    by (simp add: example_state_def)
  moreover have "queue_wf (ch_queue (channel example_state))" "queue_list (ch_queue (channel example_state)) = []"
    "queue_capacity (ch_queue (channel example_state)) = 1"
    by code_simp+
  ultimately show ?thesis
    by (simp add: idle_def chan_wf_def queued_def free_slots_def numeral_2_eq_2 del: not_None_eq) (simp add: example_state_def)
qed

definition example_fcinfo :: "char list option list" where
  "example_fcinfo = [Some ''doc'', Some ''1'', Some ''user'', Some ''anne'', Some ''viewer'', None]"

definition example_env :: "nat list wake_up list \<Rightarrow> nat list call_env" where
  "example_env ws = \<lparr>ce_pid = 42, ce_proc = Some 0, ce_config = enabled_config, ce_clock = 1000000,
     ce_wakes = ws, ce_stack_key = zero_key, ce_stack_allowed = True\<rparr>"

text \<open>A server that answers every request with the same status and flag.\<close>

definition answer_all :: "FgaResponseStatus \<Rightarrow> bool \<Rightarrow> FgaRequest \<Rightarrow> FgaResponse \<Rightarrow> FgaResponse" where
  "answer_all st allow req res = res\<lparr>status := st, res_body := set_body_flag allow (res_body res)\<rparr>"

text \<open>A check that is not answered from the cache returns what the OpenFGA server decided for
  the request that carries the call's tuple, store and model, whatever the number of spurious
  wake-ups before the worker's round, and leaves the slot free and the queue empty. When the
  server's response is an error the call still returns: the value of the uninitialized variable
  \<open>allowed\<close>, with an \<open>INFO\<close> message.\<close>

theorem check_returns_decision:
  assumes "idle sl n (ce_pid env) s" and "store_configured (ce_config env)"
    and "served_env sl serve env" and "\<not> cfg_cache_enabled (ce_config env)"
    and "read_tuple_args fcinfo = Inr args" and "args_text args"
    and "build_cache_key xx (ce_config env) args (ce_stack_key env) = Some key"
  shows "\<exists>req s'. carries FGA_REQUEST_CHECK (ce_config env) args req \<and>
    fga_check sl ht xx env fcinfo view s = (let res = serve req (response zero_payload) in
      if status res = FGA_RESPONSE_OK then Some (Return (body_flag (res_body res), []), view, s')
      else Some (Return (ce_stack_allowed env,
             [''postfga: check tuple failed - '' @ c_str (error_message res)]), view, s')) \<and>
    chan_wf sl n s' \<and> free_slots sl s' = free_slots sl s \<and> queued s' = []"
proof -
  obtain req s' where c: "carries FGA_REQUEST_CHECK (ce_config env) args req"
    and r: "fga_check_remote sl env args s = (let res = serve req (response zero_payload) in
      if status res = FGA_RESPONSE_OK then (Return (body_flag (res_body res), []), s')
      else (Return (ce_stack_allowed env,
             [''postfga: check tuple failed - '' @ c_str (error_message res)]), s'))"
    and s': "chan_wf sl n s'" "free_slots sl s' = free_slots sl s" "queued s' = []"
    using fga_check_remote_served [OF assms(1,2,6,3)] by blast
  have "fga_check sl ht xx env fcinfo view s =
      (case fga_check_remote sl env args s of (res, s1) \<Rightarrow> Some (res, view, s1))"
    by (simp add: fga_check_def assms(4,5,7) fga_cache_lookup_def)
  with c r s' show ?thesis
    by (intro exI [of _ req] exI [of _ s']) (simp add: Let_def)
qed

definition example_args :: TupleArgsView where
  "example_args = \<lparr>arg_object_type = ''doc'', arg_object_id = ''1'', arg_subject_type = ''user'',
     arg_subject_id = ''anne'', arg_relation = ''viewer'', arg_options = None\<rparr>"

lemma example_read: "read_tuple_args example_fcinfo = Inr example_args"
  by (simp add: read_tuple_args_def example_fcinfo_def validate_not_empty_def example_args_def)

lemma example_call:
  "idle list_slist 2 (ce_pid (example_env ws)) example_state"
  "store_configured (ce_config (example_env ws))" "\<not> cfg_cache_enabled (ce_config (example_env ws))"
  "args_text example_args"
  using example_state_idle
  by (simp_all add: example_env_def enabled_config_def store_configured_def c_str_def example_args_def
      args_text_def fga_guc_init_def fga_guc_vars_def)

theorem check_returns_decision_witness:
  "\<exists>view s'. fga_check list_slist list_ht sum_hash (example_env [quiet, served list_slist
     (answer_all FGA_RESPONSE_OK True)]) example_fcinfo (sys_view 0 example_sys) example_state =
     Some (Return (True, []), view, s') \<and> queued s' = []"
proof -
  let ?env = "example_env [quiet, served list_slist (answer_all FGA_RESPONSE_OK True)]"
  have env: "served_env list_slist (answer_all FGA_RESPONSE_OK True) ?env"
    unfolding served_env_def by (rule exI [of _ 1]) (simp add: example_env_def)
  obtain key where key: "build_cache_key sum_hash (ce_config ?env) example_args (ce_stack_key ?env) = Some key"
  proof -
    have "build_cache_key sum_hash (ce_config ?env) example_args (ce_stack_key ?env) \<noteq> None"
      unfolding example_env_def call_env.simps by code_simp
    then show thesis using that by blast
  qed
  have ok: "status (answer_all FGA_RESPONSE_OK True req (response zero_payload)) = FGA_RESPONSE_OK"
    "body_flag (res_body (answer_all FGA_RESPONSE_OK True req (response zero_payload)))" for req
    by (simp_all add: answer_all_def body_flag_set zero_payload_def zero_bytes_def)
  from check_returns_decision [OF example_call(1,2) env example_call(3) example_read example_call(4) key,
      of list_ht "sys_view 0 example_sys"] ok show ?thesis
    by (auto simp: Let_def)
qed

text \<open>A served tuple write or delete succeeds exactly when the server answers OK to the request
  that carries the call's tuple, and otherwise raises the error with the server's message; either
  way the slot is free again and the queue empty.\<close>

theorem write_delete_served:
  assumes "idle sl n (ce_pid env) s" and "store_configured (ce_config env)"
    and "served_env sl serve env" and "read_tuple_args fcinfo = Inr args" and "args_text args"
  shows "(\<exists>req s'. carries FGA_REQUEST_WRITE_TUPLE (ce_config env) args req \<and>
      fga_write_tuple sl env fcinfo s = (let res = serve req (response zero_payload) in
        if status res = FGA_RESPONSE_OK then (Return True, s')
        else (Raise (WriteTupleFailed (c_str (error_message res))), s')) \<and>
      chan_wf sl n s' \<and> free_slots sl s' = free_slots sl s \<and> queued s' = []) \<and>
    (\<exists>req s'. carries FGA_REQUEST_DELETE_TUPLE (ce_config env) args req \<and>
      fga_delete_tuple sl env fcinfo s = (let res = serve req (response zero_payload) in
        if status res = FGA_RESPONSE_OK then (Return True, s')
        else (Raise (DeleteTupleFailed (c_str (error_message res))), s')) \<and>
      chan_wf sl n s' \<and> free_slots sl s' = free_slots sl s \<and> queued s' = [])"
proof
  obtain i s1 where a: "fga_channel_acquire_slot sl (ce_pid env) s = (Inr i, s1)"
    using assms(1) acquire_idle [of sl n s "ce_pid env"] unfolding idle_def by metis
  note body = served_write_body [OF assms(1,2,5,3) a]
  show "\<exists>req s'. carries FGA_REQUEST_WRITE_TUPLE (ce_config env) args req \<and>
      fga_write_tuple sl env fcinfo s = (let res = serve req (response zero_payload) in
        if status res = FGA_RESPONSE_OK then (Return True, s')
        else (Raise (WriteTupleFailed (c_str (error_message res))), s')) \<and>
      chan_wf sl n s' \<and> free_slots sl s' = free_slots sl s \<and> queued s' = []"
    using body [of FGA_REQUEST_WRITE_TUPLE WriteTupleFailed]
    by (simp add: fga_write_tuple_def assms(4) a)
  show "\<exists>req s'. carries FGA_REQUEST_DELETE_TUPLE (ce_config env) args req \<and>
      fga_delete_tuple sl env fcinfo s = (let res = serve req (response zero_payload) in
        if status res = FGA_RESPONSE_OK then (Return True, s')
        else (Raise (DeleteTupleFailed (c_str (error_message res))), s')) \<and>
      chan_wf sl n s' \<and> free_slots sl s' = free_slots sl s \<and> queued s' = []"
    using body [of FGA_REQUEST_DELETE_TUPLE DeleteTupleFailed]
    by (simp add: fga_delete_tuple_def assms(4) a)
qed

theorem write_delete_served_witness:
  "\<exists>s'. fga_write_tuple list_slist (example_env [served list_slist (answer_all FGA_RESPONSE_OK True)])
     example_fcinfo example_state = (Return True, s') \<and> queued s' = []"
proof -
  let ?env = "example_env [served list_slist (answer_all FGA_RESPONSE_OK True)]"
  have env: "served_env list_slist (answer_all FGA_RESPONSE_OK True) ?env"
    unfolding served_env_def by (rule exI [of _ 0]) (simp add: example_env_def)
  have ok: "status (answer_all FGA_RESPONSE_OK True req res) = FGA_RESPONSE_OK" for req res
    by (simp add: answer_all_def)
  from write_delete_served [OF example_call(1,2) env example_read example_call(4)] ok show ?thesis
    by (auto simp: Let_def)
qed

section \<open>Calls that fail\<close>

text \<open>A query cancel that arrives while the request is still queued.\<close>

definition interrupted :: "'l wake_up" where
  "interrupted = \<lparr>wu_env = (\<lambda>s. s), wu_interrupt = Some QueryInterrupted\<rparr>"

lemma execute_interrupted:
  assumes r: "ready sl n pid i s"
  shows "\<exists>s'. fga_channel_execute_slot sl pid i [interrupted] s = (Raise QueryInterrupted, s') \<and>
    chan_wf sl n s' \<and> i < n \<and> i \<notin> set (free_slots sl s') \<and> queued s' = [i] \<and>
    free_slots sl s' = free_slots sl s \<and> slot_state (slot_of s' i) = FGA_CHANNEL_SLOT_CANCELED"
proof -
  obtain s1 where s1: "one_pending sl n pid i s1" "free_slots sl s1 = free_slots sl s" "slot_of s1 = slot_of s"
    and ex: "\<And>ws. fga_channel_execute_slot sl pid i ws s = finish_wait sl i (wait_response sl pid i ws s1)"
    by (rule execute_enqueued [OF r]) (rule that)
  have p: "chan_wf sl n s1" "i < n" "i \<notin> set (free_slots sl s1)" "queued s1 = [i]"
    "slot_state (slot_of s1 i) = FGA_CHANNEL_SLOT_PENDING"
    using s1(1) by (simp_all add: one_pending_def)
  have cnt: "i < slot_count s1" using chan_wf_count [OF p(1)] p(2) by simp
  have loop: "wait_loop pid i [interrupted] s1 = (Raise QueryInterrupted, reset_latch pid s1)"
    using p(5) by (subst wait_loop.simps) (simp add: interrupted_def)
  let ?s2 = "set_slot i (\<lambda>slot. slot\<lparr>slot_state := FGA_CHANNEL_SLOT_CANCELED\<rparr>) (reset_latch pid s1)"
  let ?s3 = "set_slot i (\<lambda>slot. slot\<lparr>backend_pid := InvalidPid\<rparr>) ?s2"
  have "wait_catch sl i (reset_latch pid s1) = ?s3" using p(5) by (simp add: wait_catch_def)
  then have "fga_channel_execute_slot sl pid i [interrupted] s = (Raise QueryInterrupted, ?s3)"
    by (simp add: ex wait_response_def loop finish_wait_def)
  moreover have "chan_wf sl n ?s3"
    by (intro chan_wf_set_slot) (use p in simp_all)
  ultimately show ?thesis using p cnt s1(2) by (intro exI [of _ ?s3]) simp
qed

text \<open>A check interrupted while its request is queued gives the slot up correctly: it raises and
  leaves the slot CANCELED in the queue and off the free list, and the worker's next round
  returns exactly that slot to the pool, without asking the server.\<close>

theorem check_interrupt_reclaimed:
  assumes "idle sl n (ce_pid env) s" and "store_configured (ce_config env)" and "args_text args"
    and "ce_wakes env = [interrupted]"
  shows "\<exists>i s'. fga_check_remote sl env args s = (Raise QueryInterrupted, s') \<and>
    free_slots sl s = i # free_slots sl s' \<and> queued s' = [i] \<and>
    slot_state (slot_of s' i) = FGA_CHANNEL_SLOT_CANCELED \<and>
    free_slots sl (worker_round sl serve s') = free_slots sl s \<and>
    queued (worker_round sl serve s') = [] \<and> chan_wf sl n (worker_round sl serve s')"
proof -
  obtain i s1 req s2 where a: "fga_channel_acquire_slot sl (ce_pid env) s = (Inr i, s1)"
    "put_tuple_request FGA_REQUEST_CHECK (ce_config env) args i s1 = (Return (), s2)"
    "ready sl n (ce_pid env) i s2" "free_slots sl s = i # free_slots sl s2"
    by (rule tuple_call_ready [OF assms(1,2,3)]) (rule that)
  from execute_interrupted [OF a(3)] obtain s3
    where e: "fga_channel_execute_slot sl (ce_pid env) i [interrupted] s2 = (Raise QueryInterrupted, s3)"
      and s3: "chan_wf sl n s3" "i < n" "i \<notin> set (free_slots sl s3)" "queued s3 = [i]"
        "free_slots sl s3 = free_slots sl s2" "slot_state (slot_of s3 i) = FGA_CHANNEL_SLOT_CANCELED"
    by blast
  have call: "fga_check_remote sl env args s = (Raise QueryInterrupted, s3)"
    by (simp add: fga_check_remote_def a(1,2) and_then_def e assms(4))
  obtain xs s4 where d: "fga_channel_drain_slots MAX_BATCH s3 = (xs, s4)" by fastforce
  note ds = fga_channel_drain_slots_spec [OF s3(1) d]
  obtain begun s5 where eb: "execute_begin sl s3 = (begun, s5)" by fastforce
  have b: "beginProcessing sl i s4 = (False, fga_channel_release_slot sl i s4)"
    using ds s3(6) by (simp add: beginProcessing_def)
  have w: "worker_round sl serve s3 = fga_channel_release_slot sl i s4"
    using execute_begin_single(1) [OF s3(1,4,2) eb] b
    by (simp add: worker_round_def eb d drainCompleted_def)
  have "queued s4 = []" using execute_begin_single(2) [OF s3(1,4,2) eb] by (simp add: d)
  moreover have "chan_wf sl n s4" "free_slots sl s4 = free_slots sl s3" using ds by simp_all
  ultimately show ?thesis
    using call s3 a(4) fga_channel_release_slot_spec [of sl n s4 i]
    by (intro exI [of _ i] exI [of _ s3]) (simp add: w)
qed

theorem check_interrupt_reclaimed_witness:
  "\<exists>s'. fga_check_remote list_slist (example_env [interrupted]) example_args example_state =
     (Raise QueryInterrupted, s') \<and> queued s' \<noteq> []"
  using check_interrupt_reclaimed [OF example_call(1,2,4), of "[interrupted]"
      "answer_all FGA_RESPONSE_OK True"]
  by (auto simp: example_env_def)

text \<open>The same interrupt in \<open>fga_write_tuple\<close>: its \<open>PG_CATCH\<close> releases the slot that
  \<open>wait_response\<close> left to the worker, so the slot is on the free list, EMPTY, while its index is
  still in the queue.\<close>

lemma write_interrupt_frees_queued_slot:
  assumes "idle sl n (ce_pid env) s" and "store_configured (ce_config env)"
    and "read_tuple_args fcinfo = Inr args" and "args_text args" and "ce_wakes env = [interrupted]"
  shows "\<exists>i s'. fga_write_tuple sl env fcinfo s = (Raise QueryInterrupted, s') \<and>
    i \<in> set (free_slots sl s') \<and> queued s' = [i] \<and> free_slots sl s' = free_slots sl s \<and>
    slot_state (slot_of s' i) = FGA_CHANNEL_SLOT_EMPTY"
proof -
  obtain i s1 req s2 where a: "fga_channel_acquire_slot sl (ce_pid env) s = (Inr i, s1)"
    "put_tuple_request FGA_REQUEST_WRITE_TUPLE (ce_config env) args i s1 = (Return (), s2)"
    "ready sl n (ce_pid env) i s2" "free_slots sl s = i # free_slots sl s2"
    by (rule tuple_call_ready [OF assms(1,2,4)]) (rule that)
  from execute_interrupted [OF a(3)] obtain s3
    where e: "fga_channel_execute_slot sl (ce_pid env) i [interrupted] s2 = (Raise QueryInterrupted, s3)"
      and s3: "chan_wf sl n s3" "i < n" "i \<notin> set (free_slots sl s3)" "queued s3 = [i]"
        "free_slots sl s3 = free_slots sl s2" by blast
  have call: "fga_write_tuple sl env fcinfo s = (Raise QueryInterrupted, fga_channel_release_slot sl i s3)"
    by (simp add: fga_write_tuple_def assms(3,5) a(1,2) and_then_def e catch_release_def)
  have "i < slot_count s3" using chan_wf_count [OF s3(1)] s3(2) by simp
  with call s3 a(4) fga_channel_release_slot_spec [OF s3(1,2,3)] show ?thesis
    by (intro exI [of _ i] exI [of _ "fga_channel_release_slot sl i s3"]) (simp add: slot_of_release)
qed

text \<open>What an unconfigured store makes of an acquired slot, before it is released or not.\<close>

lemma unset_store_prefix:
  assumes "idle sl n pid s" and "\<not> store_configured config" and "args_text args"
  shows "\<exists>i s1 s2. fga_channel_acquire_slot sl pid s = (Inr i, s1) \<and>
    put_tuple_request rtype config args i s1 = (Raise StoreIdNotConfigured, s2) \<and>
    chan_wf sl n s2 \<and> i < n \<and> free_slots sl s = i # free_slots sl s2 \<and> i \<notin> set (free_slots sl s2) \<and>
    queued s2 = []"
proof -
  from assms(1) obtain i s1 where a: "fga_channel_acquire_slot sl pid s = (Inr i, s1)" "chan_wf sl n s1"
    "i < n" "free_slots sl s = i # free_slots sl s1" "i \<notin> set (free_slots sl s1)"
    "queued s1 = queued s" "slot_of s1 i = fresh_slot pid (ch_request_id (channel s) + 1)"
    unfolding idle_def by (elim conjE acquire_idle [of sl n s pid])
  have cnt: "i < slot_count s1" using a(2,3) chan_wf_count by metis
  have z: "zeroed_request (slot_request s1 i)" by (simp add: a(7) fresh_slot_zeroed)
  obtain r s2 where p: "put_tuple_request rtype config args i s1 = (r, s2)" by fastforce
  note ps = put_tuple_request_spec [OF cnt z assms(3) p]
  from ps(2) obtain req where s2: "s2 = put_request i req s1" by blast
  have "chan_wf sl n s2" unfolding s2 put_request_def by (rule chan_wf_set_slot [OF a(2,5)])
  then show ?thesis
    using a p ps(1) assms(1,2)
    by (intro exI [of _ i] exI [of _ s1] exI [of _ s2]) (simp add: s2 put_request_def idle_def)
qed

text \<open>C27: With no store configured every call raises, but the slot fares differently:
  \<open>fga_write_tuple\<close> gives it back, \<open>fga_check\<close>, which has no \<open>PG_TRY\<close>, leaks it. It is neither
  free nor queued, and each further check leaks another.\<close>

theorem unset_store_leaks_check_slot:
  assumes "idle sl n (ce_pid env) s" and "\<not> store_configured (ce_config env)"
    and "read_tuple_args fcinfo = Inr args" and "args_text args"
  shows "(\<exists>i s'. fga_check_remote sl env args s = (Raise StoreIdNotConfigured, s') \<and>
      free_slots sl s = i # free_slots sl s' \<and> i \<notin> set (free_slots sl s') \<and> queued s' = []) \<and>
    (\<exists>s'. fga_write_tuple sl env fcinfo s = (Raise StoreIdNotConfigured, s') \<and>
      free_slots sl s' = free_slots sl s \<and> queued s' = [])"
proof
  note pre = unset_store_prefix [OF assms(1,2,4)]
  show "\<exists>i s'. fga_check_remote sl env args s = (Raise StoreIdNotConfigured, s') \<and>
      free_slots sl s = i # free_slots sl s' \<and> i \<notin> set (free_slots sl s') \<and> queued s' = []"
    using pre [of FGA_REQUEST_CHECK] by (auto simp: fga_check_remote_def and_then_def)
  show "\<exists>s'. fga_write_tuple sl env fcinfo s = (Raise StoreIdNotConfigured, s') \<and>
      free_slots sl s' = free_slots sl s \<and> queued s' = []"
    using pre [of FGA_REQUEST_WRITE_TUPLE]
    by (auto simp: fga_write_tuple_def assms(3) and_then_def catch_release_def
        fga_channel_release_slot_spec)
qed

theorem unset_store_leaks_check_slot_witness:
  "\<exists>i s'. fga_check_remote list_slist ((example_env [])\<lparr>ce_config := fga_guc_init (\<lambda>_. None) fga_config_instance\<rparr>)
     example_args example_state = (Raise StoreIdNotConfigured, s') \<and>
     i \<in> set (free_slots list_slist example_state) \<and> i \<notin> set (free_slots list_slist s')"
proof -
  let ?env = "(example_env [])\<lparr>ce_config := fga_guc_init (\<lambda>_. None) fga_config_instance\<rparr>"
  have "\<not> store_configured (ce_config ?env)"
    by (simp add: store_configured_def fga_guc_init_def fga_guc_vars_def env_or_default_def c_str_def)
  moreover have "idle list_slist 2 (ce_pid ?env) example_state"
    using example_state_idle by (simp add: example_env_def)
  ultimately show ?thesis
    using unset_store_leaks_check_slot [of list_slist 2 ?env example_state example_fcinfo example_args]
      example_read example_call(4) by auto
qed


text \<open>A channel whose queue of capacity one is full.\<close>

definition full_state :: "nat list FgaState" where
  "full_state = put_queue (snd (queue_enqueue (ch_queue (channel example_state)) 0))
     (snd (fga_channel_acquire_slot list_slist 41 example_state))"

lemma example_free: "free_slots list_slist example_state = [1, 0]"
  using pool_init_wf [OF list_slist_ok, of "\<lparr>pool_head = [], pool_slots = replicate 2 (fresh_slot 0 0)\<rparr>" 2]
  by (simp add: example_state_def free_slots_def numeral_2_eq_2)

lemma full_state_facts:
  "chan_wf list_slist 2 full_state" "free_slots list_slist full_state = [0]"
  "length (queued full_state) = queue_capacity (ch_queue (channel full_state))"
proof -
  have wf: "chan_wf list_slist 2 example_state" using example_state_idle by (simp add: idle_def)
  obtain i s1 where a: "fga_channel_acquire_slot list_slist 41 example_state = (Inr i, s1)"
    "chan_wf list_slist 2 s1" "free_slots list_slist example_state = i # free_slots list_slist s1"
    by (rule acquire_idle [OF wf, of 41]) (simp add: example_free, rule that)
  have free: "free_slots list_slist s1 = [0]" using a(3) example_free by simp
  let ?q = "snd (queue_enqueue (ch_queue (channel example_state)) 0)"
  have q: "queue_wf ?q" "queue_list ?q = [0]" "queue_capacity ?q = 1" by code_simp+
  have full: "full_state = put_queue ?q s1" by (simp add: full_state_def a(1))
  show "chan_wf list_slist 2 full_state"
    using a(2) q(1,2) by (simp add: full chan_wf_def queued_def) (simp add: put_queue_def)
  show "free_slots list_slist full_state = [0]" by (simp add: full free)
  show "length (queued full_state) = queue_capacity (ch_queue (channel full_state))"
    by (simp add: full q)
qed


section \<open>Arguments and stores\<close>

definition arg_names :: "string list" where
  "arg_names = [''object_type'', ''object_id'', ''subject_type'', ''subject_id'', ''relation'']"

text \<open>The tuple arguments are checked from left to right: the first null or empty one is
  reported by name, and if there is none the view holds the five arguments as they are, and the
  options only when a sixth argument is given.\<close>

lemma tuple_args_first_error:
  assumes "fcinfo = [a0, a1, a2, a3, a4] @ rest"
  shows "read_tuple_args fcinfo =
    (case find (\<lambda>(a, _). a = None \<or> a = Some []) (zip fcinfo arg_names) of
       Some (a, name) \<Rightarrow> Inl (if a = None then ArgNull name else ArgEmpty name)
     | None \<Rightarrow> Inr \<lparr>arg_object_type = the a0, arg_object_id = the a1, arg_subject_type = the a2,
         arg_subject_id = the a3, arg_relation = the a4,
         arg_options = (case rest of [] \<Rightarrow> None | opt # _ \<Rightarrow> opt)\<rparr>)"
  by (cases rest) (auto simp: assms read_tuple_args_def validate_not_empty_def arg_names_def
      split: option.splits)

text \<open>From an acquired slot and any request put in it to the end of a served call.\<close>

lemma store_call_ready:
  assumes idle: "idle sl n pid s"
  obtains i s1 where "fga_channel_acquire_slot sl pid s = (Inr i, s1)"
    and "zeroed_request (slot_request s1 i)" and "slot_response s1 i = response zero_payload"
    and "\<And>req. ready sl n pid i (put_request i req s1)"
    and "\<And>req. slot_request (put_request i req s1) i = req"
    and "\<And>req. slot_response (put_request i req s1) i = response zero_payload"
    and "free_slots sl s = i # free_slots sl s1"
proof -
  from idle obtain i s1 where a: "fga_channel_acquire_slot sl pid s = (Inr i, s1)" "chan_wf sl n s1"
    "i < n" "free_slots sl s = i # free_slots sl s1" "i \<notin> set (free_slots sl s1)"
    "ch_queue (channel s1) = ch_queue (channel s)" "queued s1 = queued s"
    "slot_of s1 i = fresh_slot pid (ch_request_id (channel s) + 1)"
    "bgw_latch s1 = bgw_latch s" "proc_latch s1 = proc_latch s"
    unfolding idle_def by (elim conjE acquire_idle [of sl n s pid])
  have cnt: "i < slot_count s1" using a(2,3) chan_wf_count by metis
  have wf: "chan_wf sl n (put_request i req s1)" for req
    unfolding put_request_def by (rule chan_wf_set_slot [OF a(2,5)])
  have rdy: "ready sl n pid i (put_request i req s1)" for req
    using a idle cnt wf by (simp add: ready_def put_request_views idle_def)
      (simp add: put_request_def fresh_slot_def)
  have resp: "slot_response s1 i = response zero_payload" by (simp add: a(8) fresh_slot_def)
  show thesis
    by (rule that [of i s1])
      (use a(1,4) rdy cnt resp fresh_slot_zeroed in \<open>simp_all add: put_request_views a(8)\<close>)
qed

lemma served_store_body:
  assumes idle: "idle sl n (ce_pid env) s" and env: "served_env sl serve env"
    and acq: "fga_channel_acquire_slot sl (ce_pid env) s = (Inr i, s1)"
  shows "\<exists>s3. fga_channel_execute_slot sl (ce_pid env) i (ce_wakes env) (put_request i req s1) = (Return (), s3) \<and>
    slot_response s3 i = serve req (response zero_payload) \<and>
    chan_wf sl n (fga_channel_release_slot sl i s3) \<and>
    free_slots sl (fga_channel_release_slot sl i s3) = free_slots sl s \<and>
    queued (fga_channel_release_slot sl i s3) = [] \<and> zeroed_request (slot_request s1 i)"
proof -
  obtain i' s1' where a: "fga_channel_acquire_slot sl (ce_pid env) s = (Inr i', s1')"
    "zeroed_request (slot_request s1' i')" "\<And>req. ready sl n (ce_pid env) i' (put_request i' req s1')"
    "\<And>req. slot_request (put_request i' req s1') i' = req"
    "\<And>req. slot_response (put_request i' req s1') i' = response zero_payload"
    "free_slots sl s = i' # free_slots sl s1'"
    by (rule store_call_ready [OF idle]) (rule that)
  have eq: "i' = i" "s1' = s1" using a(1) acq by simp_all
  obtain k where k: "ce_wakes env = replicate k quiet @ [served sl serve]"
    using env by (auto simp: served_env_def)
  obtain s3 where e: "fga_channel_execute_slot sl (ce_pid env) i (ce_wakes env) (put_request i req s1) = (Return (), s3)"
    and s3: "chan_wf sl n s3" "i < n" "queued s3 = []" "free_slots sl s3 = free_slots sl (put_request i req s1)"
      "slot_response s3 i = serve req (response zero_payload)"
    using execute_served [OF a(3) [of req], of k serve] a(4,5) by (auto simp: k eq)
  have nf: "i \<notin> set (free_slots sl s3)" using a(3) [of req] s3(4) by (simp add: ready_def eq)
  note rel = fga_channel_release_slot_spec [OF s3(1,2) nf]
  have "free_slots sl (put_request i req s1) = free_slots sl s1" by (simp add: put_request_def)
  then show ?thesis
    using e rel s3 a(2,6) by (intro exI [of _ s3]) (simp add: eq)
qed

lemma create_store_served:
  assumes "idle sl n (ce_pid env) s" and "served_env sl serve env"
  shows "\<exists>req s'. req_type req = request_type_code FGA_REQUEST_CREATE_STORE \<and>
      c_str (body_store_name (req_body req)) = take 63 (c_str name) \<and>
      fga_create_store sl env (Some name) composite s = (let res = serve req (response zero_payload) in
        if status res \<noteq> FGA_RESPONSE_OK
        then (Raise (CreateStoreFailed (c_str name) (c_str (error_message res))), s')
        else if \<not> composite then (Raise NotRowContext, s')
        else (Return (c_str (body_created_id (res_body res)), c_str (body_created_name (res_body res))), s')) \<and>
      free_slots sl s' = free_slots sl s \<and> queued s' = []"
proof -
  obtain i s1 where a: "fga_channel_acquire_slot sl (ce_pid env) s = (Inr i, s1)"
    using assms(1) acquire_idle [of sl n s "ce_pid env"] unfolding idle_def by metis
  note body = served_store_body [OF assms a]
  obtain rid where z: "slot_request s1 i = (request zero_payload)\<lparr>request_id := rid\<rparr>"
    using body by (auto simp: zeroed_request_def)
  define creq where "creq = (slot_request s1 i)\<lparr>req_type := request_type_code FGA_REQUEST_CREATE_STORE,
    req_body := set_body_store_name (strlcpy (body_store_name (req_body (slot_request s1 i))) (c_str name))
      (req_body (slot_request s1 i))\<rparr>"
  have len: "length (body_store_name (zero_bytes REQUEST_BODY_SIZE)) = 64"
    by (simp add: body_store_name_def get_bytes_def)
  have c: "c_str (body_store_name (req_body creq)) = take 63 (c_str name)"
    using len by (simp add: creq_def z zero_payload_def body_store_name_set)
      (subst c_str_strlcpy, auto simp: c_str_id)
  have ty: "req_type creq = request_type_code FGA_REQUEST_CREATE_STORE" by (simp add: creq_def)
  from body [of creq] obtain s3
    where e: "fga_channel_execute_slot sl (ce_pid env) i (ce_wakes env) (put_request i creq s1) = (Return (), s3)"
      "slot_response s3 i = serve creq (response zero_payload)"
      "free_slots sl (fga_channel_release_slot sl i s3) = free_slots sl s"
      "queued (fga_channel_release_slot sl i s3) = []" by blast
  have "fga_create_store sl env (Some name) composite s = (let res = serve creq (response zero_payload) in
        if status res \<noteq> FGA_RESPONSE_OK
        then (Raise (CreateStoreFailed (c_str name) (c_str (error_message res))), fga_channel_release_slot sl i s3)
        else if \<not> composite then (Raise NotRowContext, fga_channel_release_slot sl i s3)
        else (Return (c_str (body_created_id (res_body res)), c_str (body_created_name (res_body res))),
          fga_channel_release_slot sl i s3))"
    using e(1,2) by (simp add: fga_create_store_def a Let_def creq_def [symmetric] and_then_def catch_release_def
        del: request_type_code.simps)
  with ty c e(3,4) show ?thesis by blast
qed

lemma delete_store_served:
  assumes "idle sl n (ce_pid env) s" and "served_env sl serve env"
  shows "\<exists>req s'. req_type req = request_type_code FGA_REQUEST_DELETE_STORE \<and>
      c_str (req_store_id req) = take 63 (c_str name) \<and>
      fga_delete_store sl env name s = (let res = serve req (response zero_payload) in
        if status res \<noteq> FGA_RESPONSE_OK
        then (Raise (DeleteStoreFailed (c_str name) (c_str (error_message res))), s')
        else (Return (), s')) \<and>
      free_slots sl s' = free_slots sl s \<and> queued s' = []"
proof -
  obtain i s1 where a: "fga_channel_acquire_slot sl (ce_pid env) s = (Inr i, s1)"
    using assms(1) acquire_idle [of sl n s "ce_pid env"] unfolding idle_def by metis
  note body = served_store_body [OF assms a]
  obtain rid where z: "slot_request s1 i = (request zero_payload)\<lparr>request_id := rid\<rparr>"
    using body by (auto simp: zeroed_request_def)
  define dreq where "dreq = (slot_request s1 i)\<lparr>req_type := request_type_code FGA_REQUEST_DELETE_STORE,
    req_store_id := strlcpy (req_store_id (slot_request s1 i)) (c_str name)\<rparr>"
  have d: "c_str (req_store_id dreq) = take 63 (c_str name)"
    by (simp add: dreq_def z zero_payload_def) (subst c_str_strlcpy, auto simp: zero_bytes_def c_str_id)
  have ty: "req_type dreq = request_type_code FGA_REQUEST_DELETE_STORE" by (simp add: dreq_def)
  from body [of dreq] obtain s4
    where f: "fga_channel_execute_slot sl (ce_pid env) i (ce_wakes env) (put_request i dreq s1) = (Return (), s4)"
      "slot_response s4 i = serve dreq (response zero_payload)"
      "free_slots sl (fga_channel_release_slot sl i s4) = free_slots sl s"
      "queued (fga_channel_release_slot sl i s4) = []" by blast
  have "fga_delete_store sl env name s = (let res = serve dreq (response zero_payload) in
        if status res \<noteq> FGA_RESPONSE_OK
        then (Raise (DeleteStoreFailed (c_str name) (c_str (error_message res))), fga_channel_release_slot sl i s4)
        else (Return (), fga_channel_release_slot sl i s4))"
    using f(1,2) by (simp add: fga_delete_store_def a Let_def dreq_def [symmetric] and_then_def catch_release_def
        del: request_type_code.simps)
  with ty d f(3,4) show ?thesis by blast
qed

text \<open>C28: A served \<open>fga_create_store\<close> asks the server for a store with the given name (its first 63
  bytes) and returns the id and name of the response; an error status, or a caller that cannot
  take a row, raises. \<open>fga_delete_store\<close> asks for the store with the given id. In every case the
  slot is free again.\<close>

theorem store_calls_served:
  assumes "idle sl n (ce_pid env) s" and "served_env sl serve env"
  shows "(\<exists>req s'. req_type req = request_type_code FGA_REQUEST_CREATE_STORE \<and>
      c_str (body_store_name (req_body req)) = take 63 (c_str name) \<and>
      fga_create_store sl env (Some name) composite s = (let res = serve req (response zero_payload) in
        if status res \<noteq> FGA_RESPONSE_OK
        then (Raise (CreateStoreFailed (c_str name) (c_str (error_message res))), s')
        else if \<not> composite then (Raise NotRowContext, s')
        else (Return (c_str (body_created_id (res_body res)), c_str (body_created_name (res_body res))), s')) \<and>
      free_slots sl s' = free_slots sl s \<and> queued s' = []) \<and>
    (\<exists>req s'. req_type req = request_type_code FGA_REQUEST_DELETE_STORE \<and>
      c_str (req_store_id req) = take 63 (c_str name) \<and>
      fga_delete_store sl env name s = (let res = serve req (response zero_payload) in
        if status res \<noteq> FGA_RESPONSE_OK
        then (Raise (DeleteStoreFailed (c_str name) (c_str (error_message res))), s')
        else (Return (), s')) \<and>
      free_slots sl s' = free_slots sl s \<and> queued s' = [])"
  by (intro conjI create_store_served [OF assms] delete_store_served [OF assms])

text \<open>A server that creates stores.\<close>

definition create_all :: "FgaRequest \<Rightarrow> FgaResponse \<Rightarrow> FgaResponse" where
  "create_all req res = res\<lparr>status := FGA_RESPONSE_OK,
     res_body := put_bytes 0 (strlcpy (zero_bytes 64) ''01H'') (put_bytes 64 (body_store_name (req_body req)) (res_body res))\<rparr>"

theorem store_calls_served_witness:
  "\<exists>name s'. fga_create_store list_slist (example_env [served list_slist create_all]) (Some ''acme'') True example_state
     = (Return (''01H'', name), s')"
proof -
  let ?env = "example_env [served list_slist create_all]"
  have env: "served_env list_slist create_all ?env"
    unfolding served_env_def by (rule exI [of _ 0]) (simp add: example_env_def)
  have ok: "status (create_all req res) = FGA_RESPONSE_OK" for req res
    by (simp add: create_all_def)
  have id: "c_str (body_created_id (res_body (create_all req (response zero_payload)))) = ''01H''" for req
    by (simp add: create_all_def body_created_id_def get_bytes_def put_bytes_def min_def)
      (simp add: strlcpy_def copy_terminated_def c_str_def zero_bytes_def)
  from store_calls_served [OF example_call(1) env, of "''acme''" True] ok id show ?thesis
    by (auto simp: Let_def)
qed

end
