(* ===== verification/Ownership.thy ===== *)
theory Ownership
  imports Calls
begin

text \<open>
  The request protocol between any number of backends, the background worker and the client's
  threads, as a step relation over the operations of \<open>src/channel.c\<close> and \<open>src/bgw/processor.cpp\<close>.
  A step is one of those operations; the steps of different processes interleave freely. Query
  cancels may hit any waiting backend. Most steps access the shared state once, under a lock or
  atomically, beside what only their process can see. Two do not: the catch block of a cancelled
  wait and the handling of a response read the slot's state and write it later. This theory takes
  each as one step; the theory \<open>Interleaving\<close> splits them and shows what survives.

  \<open>fga_check\<close> runs the protocol as it is. The tuple and store functions add a \<open>PG_CATCH\<close> block
  that releases the slot when an error leaves the call; the parameter \<open>catching\<close> says whether calls
  with that block may fail.

  The invariant: each slot is free, with one backend, or with the worker, and an answer is the
  answer to the request of the backend that gets it. Two sets of slots are parameters of it:
  those that nobody but a waiting backend refers to any more, as a former worker process had taken
  them, and those whose backend was terminated while it held them. \<open>Restart\<close> uses both.
\<close>

section \<open>States and steps\<close>

text \<open>What a backend is doing: nothing, filling a slot, waiting with the request it sent, or
  reading the response.\<close>

datatype phase = Idle | Filling nat | Awaiting nat FgaRequest | Served nat FgaRequest

fun holds :: "phase \<Rightarrow> nat \<Rightarrow> bool" where
  "holds Idle i \<longleftrightarrow> False"
| "holds (Filling j) i \<longleftrightarrow> i = j"
| "holds (Awaiting j req) i \<longleftrightarrow> i = j"
| "holds (Served j req) i \<longleftrightarrow> i = j"

text \<open>The worker's own state: slots drained and not yet claimed, slots handed to the client, and
  the completed queue.\<close>

record 'l world =
  shared :: "'l FgaState"
  phases :: "int \<Rightarrow> phase"
  drained :: "nat list"
  inflight :: "nat list"
  completed_queue :: "nat list"

text \<open>A step belongs to a backend, to the worker or to the client's threads.\<close>

datatype actor = Backend int | Bgw | Rpc

inductive base_step ::
  "'l slist_ops \<Rightarrow> (FgaRequest \<Rightarrow> FgaResponse \<Rightarrow> FgaResponse) \<Rightarrow> actor \<Rightarrow> 'l world \<Rightarrow> 'l world \<Rightarrow> bool"
  for sl serve where
  acquire: "phases w p = Idle \<Longrightarrow> proc_latch (shared w) p \<noteq> None \<Longrightarrow>
     fga_channel_acquire_slot sl p (shared w) = (Inr i, s') \<Longrightarrow>
     base_step sl serve (Backend p) w (w\<lparr>shared := s', phases := (phases w)(p := Filling i)\<rparr>)"
| fill: "phases w p = Filling i \<Longrightarrow>
     base_step sl serve (Backend p) w (w\<lparr>shared := put_request i req (shared w)\<rparr>)"
| enqueue: "phases w p = Filling i \<Longrightarrow>
     queue_enqueue (ch_queue (channel (shared w))) (of_nat i) = (True, q) \<Longrightarrow>
     fga_wake_bgw (put_queue q (shared w)) = (Return (), s') \<Longrightarrow>
     base_step sl serve (Backend p) w (w\<lparr>shared := s',
       phases := (phases w)(p := Awaiting i (slot_request (shared w) i))\<rparr>)"
| queue_full: "phases w p = Filling i \<Longrightarrow>
     queue_enqueue (ch_queue (channel (shared w))) (of_nat i) = (False, q) \<Longrightarrow>
     base_step sl serve (Backend p) w (w\<lparr>shared := fga_channel_release_slot sl i (shared w),
       phases := (phases w)(p := Idle)\<rparr>)"
| wake_up: "phases w p = Awaiting i req \<Longrightarrow>
     base_step sl serve (Backend p) w (w\<lparr>shared := reset_latch p (shared w)\<rparr>)"
| answered: "phases w p = Awaiting i req \<Longrightarrow>
     slot_state (slot_of (shared w) i) = FGA_CHANNEL_SLOT_DONE \<Longrightarrow>
     base_step sl serve (Backend p) w (w\<lparr>phases := (phases w)(p := Served i req)\<rparr>)"
| release: "phases w p = Served i req \<Longrightarrow>
     base_step sl serve (Backend p) w (w\<lparr>shared := fga_channel_release_slot sl i (shared w),
       phases := (phases w)(p := Idle)\<rparr>)"
| drain: "drained w = [] \<Longrightarrow> fga_channel_drain_slots MAX_BATCH (shared w) = (xs, s') \<Longrightarrow>
     base_step sl serve Bgw w (w\<lparr>shared := s', drained := xs\<rparr>)"
| claim: "drained w = i # rest \<Longrightarrow> beginProcessing sl i (shared w) = (ok, s') \<Longrightarrow>
     base_step sl serve Bgw w (w\<lparr>shared := s', drained := rest,
       inflight := (if ok then inflight w @ [i] else inflight w)\<rparr>)"
| serve: "i \<in> set (inflight w) \<Longrightarrow>
     base_step sl serve Rpc w (w\<lparr>shared := complete serve i (shared w),
       inflight := remove1 i (inflight w), completed_queue := completed_queue w @ [i]\<rparr>)"

text \<open>A cancel and the handling of a response are one step each here; \<open>Interleaving\<close> splits them.
  The two steps of calls with a \<open>PG_CATCH\<close> block are those that leave an error.\<close>

inductive step ::
  "'l slist_ops \<Rightarrow> (FgaRequest \<Rightarrow> FgaResponse \<Rightarrow> FgaResponse) \<Rightarrow> bool \<Rightarrow> 'l world \<Rightarrow> 'l world \<Rightarrow> bool"
  for sl serve catching where
  base: "base_step sl serve a w w' \<Longrightarrow> step sl serve catching w w'"
| interrupt: "phases w p = Awaiting i req \<Longrightarrow>
     step sl serve catching w (w\<lparr>shared := wait_catch sl i (shared w), phases := (phases w)(p := Idle)\<rparr>)"
| handle: "completed_queue w = i # rest \<Longrightarrow>
     step sl serve catching w (w\<lparr>shared := handleResponse sl i (shared w), completed_queue := rest\<rparr>)"
| caught_full: "catching \<Longrightarrow> phases w p = Filling i \<Longrightarrow>
     queue_enqueue (ch_queue (channel (shared w))) (of_nat i) = (False, q) \<Longrightarrow>
     s' = fga_channel_release_slot sl i (fga_channel_release_slot sl i (shared w)) \<Longrightarrow>
     step sl serve catching w (w\<lparr>shared := s', phases := (phases w)(p := Idle)\<rparr>)"
| caught_interrupt: "catching \<Longrightarrow> phases w p = Awaiting i req \<Longrightarrow>
     s' = fga_channel_release_slot sl i (wait_catch sl i (shared w)) \<Longrightarrow>
     step sl serve catching w (w\<lparr>shared := s', phases := (phases w)(p := Idle)\<rparr>)"

lemmas step_acquire = step.base [OF base_step.acquire]
  and step_fill = step.base [OF base_step.fill]
  and step_enqueue = step.base [OF base_step.enqueue]
  and step_answered = step.base [OF base_step.answered]
  and step_release = step.base [OF base_step.release]
  and step_drain = step.base [OF base_step.drain]
  and step_claim = step.base [OF base_step.claim]
  and step_serve = step.base [OF base_step.serve]

definition initial :: "'l slist_ops \<Rightarrow> nat \<Rightarrow> 'l world \<Rightarrow> bool" where
  "initial sl n w \<longleftrightarrow> chan_wf sl n (shared w) \<and> set (free_slots sl (shared w)) = {..<n} \<and>
     queued (shared w) = [] \<and> drained w = [] \<and> inflight w = [] \<and> completed_queue w = [] \<and>
     phases w = (\<lambda>p. Idle) \<and> bgw_latch (shared w) \<noteq> None"

section \<open>Ownership\<close>

definition pend :: "'l world \<Rightarrow> nat set" where
  "pend w = set (drained w) \<union> set (queued (shared w))"

definition sole :: "'l world \<Rightarrow> int \<Rightarrow> nat \<Rightarrow> bool" where
  "sole w p i \<longleftrightarrow> (\<forall>q. holds (phases w q) i \<longleftrightarrow> q = p)"

definition unheld :: "'l world \<Rightarrow> nat \<Rightarrow> bool" where
  "unheld w i \<longleftrightarrow> (\<forall>q. \<not> holds (phases w q) i)"

text \<open>Slot \<open>i\<close>, in the state \<open>st\<close>, is the worker's: its backend waits, or has given it up, or has been
  terminated. \<open>D\<close> are the slots on which a backend has been terminated.\<close>

definition with_worker ::
  "nat set \<Rightarrow> 'l world \<Rightarrow> nat \<Rightarrow> FgaChannelSlotState \<Rightarrow> (FgaRequest \<Rightarrow> FgaResponse) \<Rightarrow> bool" where
  "with_worker D w i st answer \<longleftrightarrow>
     (slot_state (slot_of (shared w) i) = FGA_CHANNEL_SLOT_CANCELED \<and> unheld w i) \<or>
     (i \<in> D \<and> slot_state (slot_of (shared w) i) = st \<and> unheld w i) \<or>
     (\<exists>p req. sole w p i \<and> phases w p = Awaiting i req \<and> slot_state (slot_of (shared w) i) = st \<and>
        slot_request (shared w) i = req \<and> slot_response (shared w) i = answer req \<and>
        backend_pid (slot_of (shared w) i) = p \<and> proc_latch (shared w) p \<noteq> None)"

definition backend_has ::
  "(FgaRequest \<Rightarrow> FgaResponse \<Rightarrow> FgaResponse) \<Rightarrow> 'l world \<Rightarrow> int \<Rightarrow> nat \<Rightarrow> bool" where
  "backend_has serve w p i \<longleftrightarrow> (case phases w p of
       Idle \<Rightarrow> False
     | Filling _ \<Rightarrow> slot_state (slot_of (shared w) i) = FGA_CHANNEL_SLOT_PENDING \<and>
         slot_response (shared w) i = response zero_payload \<and>
         backend_pid (slot_of (shared w) i) = p \<and> proc_latch (shared w) p \<noteq> None
     | Awaiting _ req \<Rightarrow> slot_state (slot_of (shared w) i) = FGA_CHANNEL_SLOT_DONE \<and>
         slot_response (shared w) i = serve req (response zero_payload)
     | Served _ req \<Rightarrow> slot_response (shared w) i = serve req (response zero_payload))"

definition with_backend ::
  "(FgaRequest \<Rightarrow> FgaResponse \<Rightarrow> FgaResponse) \<Rightarrow> 'l world \<Rightarrow> nat \<Rightarrow> bool" where
  "with_backend serve w i \<longleftrightarrow> (\<exists>p. sole w p i \<and> backend_has serve w p i)"

text \<open>A slot that is on no list, neither free nor the worker's, and that no backend holds or one that
  waits in vain.\<close>

definition lost :: "'l slist_ops \<Rightarrow> 'l world \<Rightarrow> nat \<Rightarrow> bool" where
  "lost sl w i \<longleftrightarrow> i \<notin> set (free_slots sl (shared w)) \<and> i \<notin> pend w \<and> i \<notin> set (inflight w) \<and>
     i \<notin> set (completed_queue w) \<and>
     (unheld w i \<or>
      (\<exists>p req. sole w p i \<and> phases w p = Awaiting i req \<and> slot_state (slot_of (shared w) i) \<in>
         {FGA_CHANNEL_SLOT_PENDING, FGA_CHANNEL_SLOT_PROCESSING}))"

text \<open>\<open>L\<close> are the slots lost so far. It is empty as long as neither the worker nor its processor has
  been replaced and no backend has been terminated.\<close>

definition slot_inv ::
  "nat set \<Rightarrow> nat set \<Rightarrow> 'l slist_ops \<Rightarrow> (FgaRequest \<Rightarrow> FgaResponse \<Rightarrow> FgaResponse) \<Rightarrow> 'l world \<Rightarrow> nat \<Rightarrow> bool" where
  "slot_inv L D sl serve w i \<longleftrightarrow>
     (if i \<in> L then lost sl w i
      else if i \<in> set (free_slots sl (shared w)) then
        i \<notin> pend w \<and> i \<notin> set (inflight w) \<and> i \<notin> set (completed_queue w) \<and> unheld w i
      else if i \<in> pend w then i \<notin> set (inflight w) \<and> i \<notin> set (completed_queue w) \<and>
        with_worker D w i FGA_CHANNEL_SLOT_PENDING (\<lambda>_. response zero_payload)
      else if i \<in> set (inflight w) then i \<notin> set (completed_queue w) \<and>
        with_worker D w i FGA_CHANNEL_SLOT_PROCESSING (\<lambda>_. response zero_payload)
      else if i \<in> set (completed_queue w) then
        with_worker D w i FGA_CHANNEL_SLOT_PROCESSING (\<lambda>req. serve req (response zero_payload))
      else with_backend serve w i)"

text \<open>Every slot index in sight is one of the pool, and the worker's lists have no repetitions.\<close>

definition lists_inv :: "'l slist_ops \<Rightarrow> nat \<Rightarrow> 'l world \<Rightarrow> bool" where
  "lists_inv sl n w \<longleftrightarrow> chan_wf sl n (shared w) \<and> bgw_latch (shared w) \<noteq> None \<and>
     distinct (drained w @ queued (shared w)) \<and> distinct (inflight w) \<and> distinct (completed_queue w) \<and>
     pend w \<union> set (inflight w) \<union> set (completed_queue w) \<subseteq> {..<n} \<and>
     (\<forall>p i. holds (phases w p) i \<longrightarrow> i < n)"

definition owned :: "nat set \<Rightarrow> nat set \<Rightarrow> 'l slist_ops \<Rightarrow> (FgaRequest \<Rightarrow> FgaResponse \<Rightarrow> FgaResponse) \<Rightarrow> nat \<Rightarrow> 'l world \<Rightarrow> bool" where
  "owned L D sl serve n w \<longleftrightarrow> lists_inv sl n w \<and> (\<forall>i < n. slot_inv L D sl serve w i)"

text \<open>A step that leaves a slot, its place and its holder alone keeps what holds of it.\<close>

lemma slot_inv_frame:
  assumes "slot_inv L D sl serve w j"
    and "j \<in> set (free_slots sl (shared w')) \<longleftrightarrow> j \<in> set (free_slots sl (shared w))"
    and "j \<in> pend w' \<longleftrightarrow> j \<in> pend w" and "j \<in> set (inflight w') \<longleftrightarrow> j \<in> set (inflight w)"
    and "j \<in> set (completed_queue w') \<longleftrightarrow> j \<in> set (completed_queue w)"
    and "slot_of (shared w') j = slot_of (shared w) j"
    and "\<And>q. holds (phases w q) j \<Longrightarrow> proc_latch (shared w) q \<noteq> None \<Longrightarrow> proc_latch (shared w') q \<noteq> None"
    and "\<And>q. holds (phases w' q) j \<longleftrightarrow> holds (phases w q) j"
    and "\<And>q. holds (phases w q) j \<Longrightarrow> phases w' q = phases w q"
  shows "slot_inv L D sl serve w' j"
proof -
  have sole: "sole w' p j \<longleftrightarrow> sole w p j" for p by (simp add: sole_def assms(8))
  have unheld: "unheld w' j \<longleftrightarrow> unheld w j" by (simp add: unheld_def assms(8))
  have ph: "phases w' p = phases w p" and lat: "proc_latch (shared w) p \<noteq> None \<Longrightarrow> proc_latch (shared w') p \<noteq> None"
    if "sole w p j" for p using that assms(7,9) by (simp_all add: sole_def)
  have ww: "with_worker D w' j st answer" if "with_worker D w j st answer" for st answer
    using that sole unheld ph lat assms(6) unfolding with_worker_def by (elim disjE exE conjE) auto
  have lo: "lost sl w' j" if "lost sl w j"
    using that sole unheld ph assms(6) unfolding lost_def assms(2-5) by (elim disjE exE conjE) auto
  have wb: "with_backend serve w' j" if "with_backend serve w j"
    using that sole ph lat assms(6) unfolding with_backend_def
    by (elim exE conjE) (rule exI, auto simp: backend_has_def split: phase.splits)
  show ?thesis
    using assms(1) ww wb lo unheld unfolding slot_inv_def assms(2-5) by (auto split: if_splits)
qed

lemma slot_inv_sets:
  assumes "slot_inv L D sl serve w j" and "j \<in> L' \<longleftrightarrow> j \<in> L" and "D \<subseteq> D'"
  shows "slot_inv L' D' sl serve w j"
proof -
  have "with_worker D' w j st answer" if "with_worker D w j st answer" for st answer
    using that assms(3) by (auto simp: with_worker_def)
  with assms(1,2) show ?thesis by (auto simp: slot_inv_def split: if_splits)
qed

section \<open>Every step keeps the ownership invariant\<close>

lemma owned_change_sets:
  assumes "owned L D sl serve n w" and "lists_inv sl n w'" and "slot_inv L' D' sl serve w' i"
    and "\<And>j. j \<noteq> i \<Longrightarrow> j \<in> L' \<longleftrightarrow> j \<in> L" and "D \<subseteq> D'"
    and "\<And>j q. j \<noteq> i \<Longrightarrow> holds (phases w q) j \<Longrightarrow> proc_latch (shared w) q \<noteq> None \<Longrightarrow> proc_latch (shared w') q \<noteq> None"
    and "\<And>j. j \<noteq> i \<Longrightarrow> j \<in> set (free_slots sl (shared w')) \<longleftrightarrow> j \<in> set (free_slots sl (shared w))"
    and "\<And>j. j \<noteq> i \<Longrightarrow> j \<in> pend w' \<longleftrightarrow> j \<in> pend w"
    and "\<And>j. j \<noteq> i \<Longrightarrow> j \<in> set (inflight w') \<longleftrightarrow> j \<in> set (inflight w)"
    and "\<And>j. j \<noteq> i \<Longrightarrow> j \<in> set (completed_queue w') \<longleftrightarrow> j \<in> set (completed_queue w)"
    and "\<And>j. j \<noteq> i \<Longrightarrow> slot_of (shared w') j = slot_of (shared w) j"
    and "\<And>j q. j \<noteq> i \<Longrightarrow> holds (phases w' q) j \<longleftrightarrow> holds (phases w q) j"
    and "\<And>j q. j \<noteq> i \<Longrightarrow> holds (phases w q) j \<Longrightarrow> phases w' q = phases w q"
  shows "owned L' D' sl serve n w'"
proof -
  have "slot_inv L' D' sl serve w' j" if j: "j < n" for j
  proof (cases "j = i")
    case True then show ?thesis using assms(3) by simp
  next
    case False
    have "slot_inv L D sl serve w j" using assms(1) j by (simp add: owned_def)
    then have "slot_inv L' D' sl serve w j" by (rule slot_inv_sets) (use assms(4,5) False in auto)
    then show ?thesis
      by (rule slot_inv_frame) (use assms(6-) False in blast)+
  qed
  with assms(2) show ?thesis by (simp add: owned_def)
qed

lemma owned_change:
  assumes "owned L D sl serve n w" and "lists_inv sl n w'" and "slot_inv L D sl serve w' i"
    and "\<And>p. proc_latch (shared w) p \<noteq> None \<Longrightarrow> proc_latch (shared w') p \<noteq> None"
    and "\<And>j. j \<noteq> i \<Longrightarrow> j \<in> set (free_slots sl (shared w')) \<longleftrightarrow> j \<in> set (free_slots sl (shared w))"
    and "\<And>j. j \<noteq> i \<Longrightarrow> j \<in> pend w' \<longleftrightarrow> j \<in> pend w"
    and "\<And>j. j \<noteq> i \<Longrightarrow> j \<in> set (inflight w') \<longleftrightarrow> j \<in> set (inflight w)"
    and "\<And>j. j \<noteq> i \<Longrightarrow> j \<in> set (completed_queue w') \<longleftrightarrow> j \<in> set (completed_queue w)"
    and "\<And>j. j \<noteq> i \<Longrightarrow> slot_of (shared w') j = slot_of (shared w) j"
    and "\<And>j q. j \<noteq> i \<Longrightarrow> holds (phases w' q) j \<longleftrightarrow> holds (phases w q) j"
    and "\<And>j q. j \<noteq> i \<Longrightarrow> holds (phases w q) j \<Longrightarrow> phases w' q = phases w q"
  shows "owned L D sl serve n w'"
  by (rule owned_change_sets [OF assms(1-3)]) (use assms(4-) in blast)+

lemma holds_unique: "holds ph i \<Longrightarrow> holds ph j \<Longrightarrow> i = j"
  by (cases ph) auto

lemma owned_wf: "owned L D sl serve n w \<Longrightarrow> chan_wf sl n (shared w)"
  by (simp add: owned_def lists_inv_def)

lemma owned_count: "owned L D sl serve n w \<Longrightarrow> slot_count (shared w) = n"
  by (rule chan_wf_count) (rule owned_wf)

lemma owned_lists:
  assumes "owned L D sl serve n w"
  shows "bgw_latch (shared w) \<noteq> None" and "distinct (drained w @ queued (shared w))"
    and "distinct (inflight w)" and "distinct (completed_queue w)"
    and "pend w \<subseteq> {..<n}" and "set (inflight w) \<subseteq> {..<n}" and "set (completed_queue w) \<subseteq> {..<n}"
    and "holds (phases w p) i \<Longrightarrow> i < n"
  using assms by (auto simp: owned_def lists_inv_def)

text \<open>A lost slot is on no list, and a backend that holds it waits.\<close>

lemma listed_not_lost:
  assumes "owned L D sl serve n w" and "i < n"
    and "i \<in> set (free_slots sl (shared w)) \<union> pend w \<union> set (inflight w) \<union> set (completed_queue w)"
  shows "i \<notin> L"
  using assms by (auto simp: owned_def slot_inv_def lost_def split: if_splits)

lemma lost_holder:
  assumes "lost sl w i" and "holds (phases w p) i"
  shows "sole w p i \<and> (\<exists>req. phases w p = Awaiting i req) \<and>
    slot_state (slot_of (shared w) i) \<in> {FGA_CHANNEL_SLOT_PENDING, FGA_CHANNEL_SLOT_PROCESSING}"
proof -
  have "\<not> unheld w i" using assms(2) by (auto simp: unheld_def)
  with assms(1) obtain q req where q: "sole w q i" "phases w q = Awaiting i req"
    "slot_state (slot_of (shared w) i) \<in> {FGA_CHANNEL_SLOT_PENDING, FGA_CHANNEL_SLOT_PROCESSING}"
    unfolding lost_def by blast
  with assms(2) have "p = q" by (simp add: sole_def)
  with q show ?thesis by blast
qed

lemma with_worker_holder:
  assumes "with_worker D w i st answer" and "holds (phases w p) i"
  shows "sole w p i \<and> (\<exists>req. phases w p = Awaiting i req) \<and> slot_state (slot_of (shared w) i) = st"
proof -
  have "\<not> unheld w i" using assms(2) by (auto simp: unheld_def)
  with assms(1) obtain q req where q: "sole w q i" "phases w q = Awaiting i req"
    "slot_state (slot_of (shared w) i) = st" by (auto simp: with_worker_def)
  with assms(2) have "p = q" by (simp add: sole_def)
  with q show ?thesis by blast
qed

text \<open>The slot of a backend that does not wait is with that backend alone.\<close>

lemma owned_backend:
  assumes o: "owned L D sl serve n w" and h: "holds (phases w p) i" and "\<And>req. phases w p \<noteq> Awaiting i req"
  shows "i < n" and "i \<notin> set (free_slots sl (shared w))" and "i \<notin> pend w" and "i \<notin> set (inflight w)"
    and "i \<notin> set (completed_queue w)" and "sole w p i" and "backend_has serve w p i" and "i \<notin> L"
proof -
  show i: "i < n" using owned_lists(8) [OF o h] .
  have inv: "slot_inv L D sl serve w i" using o i by (simp add: owned_def)
  have nw: "\<not> with_worker D w i st answer" for st answer
    using with_worker_holder [of D w i st answer p] h assms(3) by blast
  have nu: "\<not> unheld w i" using h by (auto simp: unheld_def)
  have "\<not> lost sl w i" using lost_holder [of sl w i p] h assms(3) by blast
  with inv show nl: "i \<notin> L" by (auto simp: slot_inv_def)
  from inv nw nu nl have "i \<notin> set (free_slots sl (shared w)) \<and> i \<notin> pend w \<and> i \<notin> set (inflight w) \<and>
    i \<notin> set (completed_queue w) \<and> with_backend serve w i"
    by (auto simp: slot_inv_def split: if_splits)
  then show "i \<notin> set (free_slots sl (shared w))" "i \<notin> pend w" "i \<notin> set (inflight w)"
    "i \<notin> set (completed_queue w)" by blast+
  from \<open>_ \<and> _ \<and> _ \<and> _ \<and> with_backend serve w i\<close> obtain q where q: "sole w q i" "backend_has serve w q i" by (auto simp: with_backend_def)
  with h have "q = p" by (simp add: sole_def)
  with q show "sole w p i" "backend_has serve w p i" by simp_all
qed

lemma owned_acquire:
  assumes o: "owned L D sl serve n w" and ph: "phases w p = Idle" and lat: "proc_latch (shared w) p \<noteq> None"
    and acq: "fga_channel_acquire_slot sl p (shared w) = (Inr i, s')"
  shows "owned L D sl serve n (w\<lparr>shared := s', phases := (phases w)(p := Filling i)\<rparr>)"
proof -
  let ?w = "w\<lparr>shared := s', phases := (phases w)(p := Filling i)\<rparr>"
  note a = fga_channel_acquire_slot_spec [OF owned_wf [OF o] acq, simplified]
  have l: "lists_inv sl n ?w"
    using o a by (auto simp: owned_def lists_inv_def pend_def)
  have "slot_inv L D sl serve w i" using o a by (simp add: owned_def)
  moreover have nl: "i \<notin> L" using listed_not_lost [OF o, of i] a by auto
  ultimately have "i \<notin> pend w" "i \<notin> set (inflight w)" "i \<notin> set (completed_queue w)" "unheld w i"
    using a by (auto simp: slot_inv_def)
  with a ph lat nl have "slot_inv L D sl serve ?w i"
    by (auto simp: slot_inv_def pend_def with_backend_def backend_has_def sole_def unheld_def fresh_slot_def intro!: exI [of _ p])
  with o l show ?thesis
    by (rule owned_change) (use a ph in \<open>auto simp: pend_def\<close>)
qed

lemma put_request_keeps [simp]:
  "queued (put_request i req s) = queued s" "free_slots sl (put_request i req s) = free_slots sl s"
  "bgw_latch (put_request i req s) = bgw_latch s" "proc_latch (put_request i req s) = proc_latch s"
  by (simp_all add: put_request_def)

lemma owned_fill:
  assumes o: "owned L D sl serve n w" and ph: "phases w p = Filling i"
  shows "owned L D sl serve n (w\<lparr>shared := put_request i req (shared w)\<rparr>)"
proof -
  let ?w = "w\<lparr>shared := put_request i req (shared w)\<rparr>"
  note f = owned_backend [OF o, of p i, simplified ph, simplified]
  have cnt: "i < slot_count (shared w)" using owned_count [OF o] f(1) by simp
  have "chan_wf sl n (put_request i req (shared w))"
    unfolding put_request_def by (rule chan_wf_set_slot [OF owned_wf [OF o] f(2)])
  then have l: "lists_inv sl n ?w"
    using o by (auto simp: owned_def lists_inv_def pend_def)
  have "backend_has serve ?w p i"
    using f(7) cnt ph by (simp add: backend_has_def put_request_def)
  with f(6) have "with_backend serve ?w i" by (auto simp: with_backend_def sole_def)
  with f(2-5,8) have "slot_inv L D sl serve ?w i" by (simp add: slot_inv_def pend_def)
  with o l show ?thesis
    by (rule owned_change) (use cnt in \<open>auto simp: pend_def put_request_def\<close>)
qed

lemma owned_release:
  assumes o: "owned L D sl serve n w" and h: "holds (phases w p) i" and na: "\<And>req. phases w p \<noteq> Awaiting i req"
  shows "owned L D sl serve n (w\<lparr>shared := fga_channel_release_slot sl i (shared w),
    phases := (phases w)(p := Idle)\<rparr>)"
proof -
  let ?w = "w\<lparr>shared := fga_channel_release_slot sl i (shared w), phases := (phases w)(p := Idle)\<rparr>"
  note f = owned_backend [OF o h na]
  have cnt: "i < slot_count (shared w)" using owned_count [OF o] f(1) by simp
  note r = fga_channel_release_slot_spec [OF owned_wf [OF o] f(1,2)]
  have l: "lists_inv sl n ?w"
    using o r(1) by (auto simp: owned_def lists_inv_def pend_def)
  have "slot_inv L D sl serve ?w i"
    using f r(2) by (auto simp: slot_inv_def pend_def unheld_def sole_def)
  with o l show ?thesis
    by (rule owned_change)
      (use cnt r(2) holds_unique [OF h] in \<open>auto simp: pend_def slot_of_release\<close>)
qed

lemma reset_latch_keeps: "proc_latch s q \<noteq> None \<Longrightarrow> proc_latch (reset_latch p s) q \<noteq> None"
  by (cases "q = p") (simp_all add: reset_latch_def del: not_None_eq)

lemma owned_wake_up:
  assumes o: "owned L D sl serve n w"
  shows "owned L D sl serve n (w\<lparr>shared := reset_latch p (shared w)\<rparr>)"
proof -
  let ?w = "w\<lparr>shared := reset_latch p (shared w)\<rparr>"
  have "lists_inv sl n ?w" using o by (simp add: owned_def lists_inv_def pend_def)
  moreover have "slot_inv L D sl serve ?w j" if "j < n" for j
  proof -
    have "slot_inv L D sl serve w j" using o that by (simp add: owned_def)
    then show ?thesis
      by (rule slot_inv_frame) (simp_all add: pend_def reset_latch_keeps del: not_None_eq)
  qed
  ultimately show ?thesis by (simp add: owned_def)
qed

lemma owned_enqueue:
  assumes o: "owned L D sl serve n w" and ph: "phases w p = Filling i"
    and enq: "queue_enqueue (ch_queue (channel (shared w))) (of_nat i) = (True, q)"
    and wake: "fga_wake_bgw (put_queue q (shared w)) = (Return (), s')"
  shows "owned L D sl serve n (w\<lparr>shared := s', phases := (phases w)(p := Awaiting i (slot_request (shared w) i))\<rparr>)"
proof -
  let ?w = "w\<lparr>shared := s', phases := (phases w)(p := Awaiting i (slot_request (shared w) i))\<rparr>"
  note f = owned_backend [OF o, of p i, simplified ph, simplified]
  note e = enqueue_slot_spec(2) [OF owned_wf [OF o] f(1) enq, simplified]
  have s': "s' = (put_queue q (shared w))\<lparr>bgw_latch := Some True\<rparr>"
    using wake by (simp add: fga_wake_bgw_def split: option.splits)
  have pend': "pend ?w = insert i (pend w)" using e by (auto simp: pend_def s')
  have l: "lists_inv sl n ?w"
    using o e f(1,3) ph by (auto simp: owned_def lists_inv_def pend_def s')
  have "sole ?w p i" using f(6) by (auto simp: sole_def)
  moreover have "slot_state (slot_of (shared w) i) = FGA_CHANNEL_SLOT_PENDING \<and>
      slot_response (shared w) i = response zero_payload \<and> backend_pid (slot_of (shared w) i) = p \<and>
      proc_latch (shared w) p \<noteq> None"
    using f(7) ph by (simp add: backend_has_def)
  ultimately have "with_worker D ?w i FGA_CHANNEL_SLOT_PENDING (\<lambda>_. response zero_payload)"
    by (auto simp: with_worker_def s' intro!: exI [of _ p])
  then have "slot_inv L D sl serve ?w i"
    unfolding slot_inv_def pend' using f by (simp add: s' f(8))
  with o l show ?thesis
    by (rule owned_change) (use ph pend' in \<open>auto simp: s'\<close>)
qed

lemma owned_answered:
  assumes o: "owned L D sl serve n w" and ph: "phases w p = Awaiting i req"
    and d: "slot_state (slot_of (shared w) i) = FGA_CHANNEL_SLOT_DONE"
  shows "owned L D sl serve n (w\<lparr>phases := (phases w)(p := Served i req)\<rparr>)"
proof -
  let ?w = "w\<lparr>phases := (phases w)(p := Served i req)\<rparr>"
  have h: "holds (phases w p) i" by (simp add: ph)
  have l: "lists_inv sl n ?w"
    using o owned_lists(8) [OF o h] by (auto simp: owned_def lists_inv_def pend_def)
  have inv: "slot_inv L D sl serve w i" using o owned_lists(8) [OF o h] by (simp add: owned_def)
  have "\<not> with_worker D w i FGA_CHANNEL_SLOT_PENDING ans" "\<not> with_worker D w i FGA_CHANNEL_SLOT_PROCESSING ans"
    for ans using with_worker_holder [OF _ h] d by fastforce+
  moreover have "\<not> unheld w i" using h by (auto simp: unheld_def)
  moreover have "\<not> lost sl w i" using lost_holder [OF _ h] d by fastforce
  then have nl: "i \<notin> L" using inv by (auto simp: slot_inv_def)
  ultimately have f: "i \<notin> set (free_slots sl (shared w))" "i \<notin> pend w" "i \<notin> set (inflight w)"
    "i \<notin> set (completed_queue w)" and "with_backend serve w i"
    using inv by (auto simp: slot_inv_def split: if_splits)
  then obtain q where q: "sole w q i" "backend_has serve w q i" by (auto simp: with_backend_def)
  with h have "q = p" by (simp add: sole_def)
  with q ph have "sole ?w p i" "backend_has serve ?w p i" by (auto simp: sole_def backend_has_def)
  then have "with_backend serve ?w i" by (auto simp: with_backend_def)
  with f nl have "slot_inv L D sl serve ?w i" by (simp add: slot_inv_def pend_def)
  with o l show ?thesis
    by (rule owned_change) (use ph in \<open>auto simp: pend_def\<close>)
qed

lemma drain_batch:
  assumes wf: "chan_wf sl n s" and d: "fga_channel_drain_slots MAX_BATCH s = (xs, s')"
  shows "xs = take 50 (queued s)" and "queued s' = drop 50 (queued s)" and "chan_wf sl n s'"
    and "free_slots sl s' = free_slots sl s" and "slot_of s' = slot_of s" and "bgw_latch s' = bgw_latch s"
    and "proc_latch s' = proc_latch s"
    and "queue_capacity (ch_queue (channel s')) = queue_capacity (ch_queue (channel s))"
proof -
  note ds = fga_channel_drain_slots_spec [OF wf d]
  have "unat (if FGA_CHANNEL_DRAIN_MAX < MAX_BATCH then FGA_CHANNEL_DRAIN_MAX else MAX_BATCH) = 50" by simp
  with ds show xs: "xs = take 50 (queued s)" by metis
  have "queued s = xs @ queued s'" using ds by blast
  with xs show "queued s' = drop 50 (queued s)" by (metis append_take_drop_id same_append_eq)
  show "chan_wf sl n s'" "free_slots sl s' = free_slots sl s" "slot_of s' = slot_of s" "bgw_latch s' = bgw_latch s"
    "proc_latch s' = proc_latch s" using ds by blast+
  obtain buf q where b: "queue_drain (ch_queue (channel s)) MAX_BATCH = (buf, q)" by fastforce
  have "queue_wf (ch_queue (channel s))" using wf by (simp add: chan_wf_def)
  then have "queue_capacity q = queue_capacity (ch_queue (channel s))"
    using queue_drain_loop_list [of _ 0 MAX_BATCH "[]" buf q] b by (simp add: queue_drain_def)
  with d b show "queue_capacity (ch_queue (channel s')) = queue_capacity (ch_queue (channel s))"
    by (auto simp: fga_channel_drain_slots_def Let_def)
qed

text \<open>The worker takes the only queued request off the queue and claims it, or finds it given up.\<close>

lemma take_request:
  assumes wf: "chan_wf sl n (shared w)" and q: "queued (shared w) = [i]" and e: "drained w = []"
    and d: "fga_channel_drain_slots MAX_BATCH (shared w) = (xs, s)" and b: "beginProcessing sl i s = (ok, s')"
  shows "(base_step sl serve Bgw)\<^sup>*\<^sup>* w
    (w\<lparr>shared := s', drained := [], inflight := (if ok then inflight w @ [i] else inflight w)\<rparr>)"
proof -
  let ?w1 = "w\<lparr>shared := s, drained := [i]\<rparr>"
  have "xs = [i]" using drain_batch(1) [OF wf d] by (simp add: q)
  with base_step.drain [OF e d] have "base_step sl serve Bgw w ?w1" by simp
  moreover have "base_step sl serve Bgw ?w1
      (w\<lparr>shared := s', drained := [], inflight := (if ok then inflight w @ [i] else inflight w)\<rparr>)"
    using base_step.claim [of ?w1 i "[]" sl ok s' serve] b by (cases ok) simp_all
  ultimately show ?thesis by (meson converse_rtranclp_into_rtranclp r_into_rtranclp)
qed

lemma owned_drain:
  assumes o: "owned L D sl serve n w" and e: "drained w = []"
    and d: "fga_channel_drain_slots mx (shared w) = (xs, s')"
  shows "owned L D sl serve n (w\<lparr>shared := s', drained := xs\<rparr>)"
proof -
  let ?w = "w\<lparr>shared := s', drained := xs\<rparr>"
  note ds = fga_channel_drain_slots_spec [OF owned_wf [OF o] d]
  have q: "queued (shared w) = xs @ queued s'" using ds by blast
  have same: "free_slots sl s' = free_slots sl (shared w)" "slot_of s' = slot_of (shared w)"
    "bgw_latch s' = bgw_latch (shared w)" "proc_latch s' = proc_latch (shared w)" using ds by blast+
  have pend': "pend ?w = pend w" using q by (simp add: pend_def e)
  have "lists_inv sl n ?w"
    using owned_lists [OF o] conjunct1 [OF ds] same(3) pend' q e
    unfolding lists_inv_def by (simp del: distinct_append)
  moreover have "slot_inv L D sl serve ?w j" if "j < n" for j
  proof -
    have "slot_inv L D sl serve w j" using o that by (simp add: owned_def)
    then show ?thesis
      by (rule slot_inv_frame) (simp_all add: pend' same)
  qed
  ultimately show ?thesis by (simp add: owned_def)
qed

text \<open>A slot of the worker that its backend has given up is CANCELED; the worker releases it.\<close>

lemma owned_drop:
  assumes o: "owned L D sl serve n w" and i: "i < n" and nf: "i \<notin> set (free_slots sl (shared w))"
    and u: "unheld w i" and nl: "i \<notin> L"
    and ni: "i \<notin> set (inflight w')" and nc: "i \<notin> set (completed_queue w')" and np: "i \<notin> pend w'"
    and sh: "shared w' = fga_channel_release_slot sl i (shared w)" and ph: "phases w' = phases w"
    and dr: "distinct (drained w' @ queued (shared w'))" "distinct (inflight w')" "distinct (completed_queue w')"
    and keep: "\<And>j. j \<noteq> i \<Longrightarrow> j \<in> pend w' \<longleftrightarrow> j \<in> pend w"
      "\<And>j. j \<noteq> i \<Longrightarrow> j \<in> set (inflight w') \<longleftrightarrow> j \<in> set (inflight w)"
      "\<And>j. j \<noteq> i \<Longrightarrow> j \<in> set (completed_queue w') \<longleftrightarrow> j \<in> set (completed_queue w)"
  shows "owned L D sl serve n w'"
proof -
  note r = fga_channel_release_slot_spec [OF owned_wf [OF o] i nf]
  have cnt: "i < slot_count (shared w)" using owned_count [OF o] i by simp
  have "pend w' \<subseteq> insert i (pend w)" "set (inflight w') \<subseteq> insert i (set (inflight w))"
    "set (completed_queue w') \<subseteq> insert i (set (completed_queue w))" using keep by blast+
  with owned_lists(5-7) [OF o] i have
    "pend w' \<union> set (inflight w') \<union> set (completed_queue w') \<subseteq> {..<n}" by auto
  with r(1) dr owned_lists(1,8) [OF o] have l: "lists_inv sl n w'"
    by (simp add: lists_inv_def sh ph)
  have "slot_inv L D sl serve w' i"
    using ni nc np u nl by (simp add: slot_inv_def sh r(2) unheld_def ph)
  with o l show ?thesis
    by (rule owned_change) (use cnt r(2) keep in \<open>auto simp: sh ph slot_of_release\<close>)
qed

lemma slot_state_set_views [simp]:
  "queued (slot_state_set i st s) = queued s" "free_slots sl (slot_state_set i st s) = free_slots sl s"
  "bgw_latch (slot_state_set i st s) = bgw_latch s" "proc_latch (slot_state_set i st s) = proc_latch s"
  "slot_count (slot_state_set i st s) = slot_count s"
  by (simp_all add: slot_state_set_def)

lemma owned_claim:
  assumes o: "owned L D sl serve n w" and dr: "drained w = i # rest"
    and b: "beginProcessing sl i (shared w) = (ok, s')"
  shows "owned L D sl serve n (w\<lparr>shared := s', drained := rest,
    inflight := (if ok then inflight w @ [i] else inflight w)\<rparr>)"
proof -
  have p: "i \<in> pend w" by (simp add: pend_def dr)
  have i: "i < n" using owned_lists(5) [OF o] p by blast
  have cnt: "i < slot_count (shared w)" using owned_count [OF o] i by simp
  have nl: "i \<notin> L" using listed_not_lost [OF o i] p by blast
  have inv: "slot_inv L D sl serve w i" using o i by (simp add: owned_def)
  with p nl have f: "i \<notin> set (free_slots sl (shared w))" "i \<notin> set (inflight w)" "i \<notin> set (completed_queue w)"
    and ww: "with_worker D w i FGA_CHANNEL_SLOT_PENDING (\<lambda>_. response zero_payload)"
    by (auto simp: slot_inv_def split: if_splits)
  have rest: "i \<notin> set rest" "i \<notin> set (queued (shared w))" "distinct (rest @ queued (shared w))"
    using owned_lists(2) [OF o] by (auto simp: dr)
  from ww consider (canceled) "slot_state (slot_of (shared w) i) = FGA_CHANNEL_SLOT_CANCELED" "unheld w i"
    | (pending) "slot_state (slot_of (shared w) i) = FGA_CHANNEL_SLOT_PENDING"
    by (auto simp: with_worker_def)
  then show ?thesis
  proof cases
    case canceled
    then have "\<not> ok" "s' = fga_channel_release_slot sl i (shared w)"
      using b by (auto simp: beginProcessing_def)
    with canceled f rest nl owned_lists(3,4) [OF o] show ?thesis
      by (intro owned_drop [OF o i f(1)]) (auto simp: pend_def dr)
  next
    case pending
    then have ok: "ok" and s': "s' = slot_state_set i FGA_CHANNEL_SLOT_PROCESSING (shared w)"
      using b by (auto simp: beginProcessing_def)
    let ?w = "w\<lparr>shared := s', drained := rest, inflight := inflight w @ [i]\<rparr>"
    have "chan_wf sl n s'"
      unfolding s' slot_state_set_def by (rule chan_wf_set_slot [OF owned_wf [OF o] f(1)])
    then have l: "lists_inv sl n ?w"
      using owned_lists [OF o] i rest f by (auto simp: lists_inv_def s' pend_def dr)
    have "with_worker D ?w i FGA_CHANNEL_SLOT_PROCESSING (\<lambda>_. response zero_payload)"
      using ww pending cnt by (auto simp: with_worker_def unheld_def sole_def s' slot_state_set_def)
    with f rest nl have "slot_inv L D sl serve ?w i" by (simp add: slot_inv_def pend_def s')
    with o l have "owned L D sl serve n ?w"
      by (rule owned_change) (use cnt in \<open>auto simp: pend_def dr s' slot_state_set_def\<close>)
    with ok show ?thesis by simp
  qed
qed

lemma owned_serve:
  assumes o: "owned L D sl serve n w" and fl: "i \<in> set (inflight w)"
  shows "owned L D sl serve n (w\<lparr>shared := complete serve i (shared w),
    inflight := remove1 i (inflight w), completed_queue := completed_queue w @ [i]\<rparr>)"
proof -
  let ?w = "w\<lparr>shared := complete serve i (shared w),
    inflight := remove1 i (inflight w), completed_queue := completed_queue w @ [i]\<rparr>"
  have i: "i < n" using owned_lists(6) [OF o] fl by blast
  have cnt: "i < slot_count (shared w)" using owned_count [OF o] i by simp
  have nl: "i \<notin> L" using listed_not_lost [OF o i] fl by blast
  have "slot_inv L D sl serve w i" using o i by (simp add: owned_def)
  with fl nl have f: "i \<notin> set (free_slots sl (shared w))" "i \<notin> pend w" "i \<notin> set (completed_queue w)"
    and ww: "with_worker D w i FGA_CHANNEL_SLOT_PROCESSING (\<lambda>_. response zero_payload)"
    by (auto simp: slot_inv_def split: if_splits)
  have sh: "queued (complete serve i (shared w)) = queued (shared w)"
    "free_slots sl (complete serve i (shared w)) = free_slots sl (shared w)"
    "bgw_latch (complete serve i (shared w)) = bgw_latch (shared w)"
    "proc_latch (complete serve i (shared w)) = proc_latch (shared w)"
    by (simp_all add: complete_def)
  have "chan_wf sl n (complete serve i (shared w))"
    unfolding complete_def by (rule chan_wf_set_slot [OF owned_wf [OF o] f(1)])
  then have l: "lists_inv sl n ?w"
    using owned_lists [OF o] i f by (auto simp: lists_inv_def pend_def sh)
  have "with_worker D ?w i FGA_CHANNEL_SLOT_PROCESSING (\<lambda>req. serve req (response zero_payload))"
    using ww cnt by (auto simp: with_worker_def unheld_def sole_def complete_def)
  moreover have "i \<notin> set (remove1 i (inflight w))" using owned_lists(3) [OF o] by simp
  ultimately have "slot_inv L D sl serve ?w i"
    using f nl by (simp add: slot_inv_def pend_def sh)
  with o l show ?thesis
    by (rule owned_change) (use cnt in \<open>auto simp: pend_def sh complete_def\<close>)
qed

lemma owned_set_latch:
  assumes "owned L D sl serve n w"
  shows "owned L D sl serve n (w\<lparr>shared := (shared w)\<lparr>bgw_latch := Some b\<rparr>\<rparr>)" (is "owned L D sl serve n ?w")
    and "owned L D sl serve n (w\<lparr>shared := (shared w)\<lparr>proc_latch := (proc_latch (shared w))(p \<mapsto> b)\<rparr>\<rparr>)"
      (is "owned L D sl serve n ?w'")
proof -
  have "lists_inv sl n ?w" "lists_inv sl n ?w'" using assms by (simp_all add: owned_def lists_inv_def pend_def)
  moreover have "slot_inv L D sl serve ?w j" "slot_inv L D sl serve ?w' j" if "j < n" for j
  proof -
    have inv: "slot_inv L D sl serve w j" using assms that by (simp add: owned_def)
    show "slot_inv L D sl serve ?w j" by (rule slot_inv_frame [OF inv]) (simp_all add: pend_def)
    show "slot_inv L D sl serve ?w' j" by (rule slot_inv_frame [OF inv]) (auto simp: pend_def)
  qed
  ultimately show "owned L D sl serve n ?w" "owned L D sl serve n ?w'" by (simp_all add: owned_def)
qed

text \<open>A terminated backend's slot: when the response is handled, its process id is gone and the worker
  frees the slot, or the id belongs to a new backend and the slot is lost.\<close>

lemma owned_lose:
  assumes o: "owned L D sl serve n w" and c: "completed_queue w = i # rest"
    and f: "i \<notin> set (free_slots sl (shared w))" "i \<notin> pend w" "i \<notin> set (inflight w)" and u: "unheld w i"
  shows "owned (insert i L) D sl serve n (w\<lparr>shared := slot_state_set i st (shared w), completed_queue := rest\<rparr>)"
    (is "owned _ _ _ _ _ ?w")
proof -
  have "chan_wf sl n (slot_state_set i st (shared w))"
    unfolding slot_state_set_def by (rule chan_wf_set_slot [OF owned_wf [OF o] f(1)])
  then have l: "lists_inv sl n ?w" using owned_lists [OF o] by (auto simp: lists_inv_def pend_def c)
  have "i \<notin> set rest" using owned_lists(4) [OF o] by (simp add: c)
  then have "slot_inv (insert i L) D sl serve ?w i"
    using f u by (simp add: slot_inv_def lost_def pend_def unheld_def)
  moreover have "i < slot_count (shared w)" using owned_count [OF o] owned_lists(7) [OF o] c by simp
  ultimately show ?thesis
    by (intro owned_change_sets [OF o l]) (auto simp: pend_def c slot_state_set_def)
qed

lemma owned_reclaim:
  assumes o: "owned (insert i L) D sl serve n w" and i: "i < n" "i \<notin> L" and u: "unheld w i"
  shows "owned L D sl serve n (w\<lparr>shared := fga_channel_release_slot sl i (shared w)\<rparr>)" (is "owned _ _ _ _ _ ?w")
proof -
  have "lost sl w i" using o i(1) by (auto simp: owned_def slot_inv_def)
  then have f: "i \<notin> set (free_slots sl (shared w))" "i \<notin> pend w" "i \<notin> set (inflight w)" "i \<notin> set (completed_queue w)"
    by (simp_all add: lost_def)
  note r = fga_channel_release_slot_spec [OF owned_wf [OF o] i(1) f(1)]
  have cnt: "i < slot_count (shared w)" using owned_count [OF o] i(1) by simp
  have l: "lists_inv sl n ?w" using owned_lists [OF o] r(1) by (auto simp: lists_inv_def pend_def)
  have "slot_inv L D sl serve ?w i" using f i(2) u by (simp add: slot_inv_def pend_def r(2) unheld_def)
  with o l show ?thesis
    by (rule owned_change_sets) (use cnt i(2) in \<open>auto simp: pend_def r(2) slot_of_release\<close>)
qed

lemma handleResponse_orphan:
  assumes "slot_state (slot_of s i) = FGA_CHANNEL_SLOT_PROCESSING" and "i < slot_count s"
  shows "handleResponse sl i s = (let s' = slot_state_set i FGA_CHANNEL_SLOT_DONE s; p = backend_pid (slot_of s i) in
    if proc_latch s p = None then fga_channel_release_slot sl i s'
    else s'\<lparr>proc_latch := (proc_latch s')(p \<mapsto> True)\<rparr>)"
proof -
  have "backend_pid (slot_of (slot_state_set i FGA_CHANNEL_SLOT_DONE s) i) = backend_pid (slot_of s i)"
    using assms(2) by (simp add: slot_state_set_def)
  then show ?thesis
    using assms(1) by (auto simp: handleResponse_def wakeBackend_def fga_channel_wake_backend_def Let_def)
qed

lemma owned_handle_orphan:
  assumes o: "owned L D sl serve n w" and c: "completed_queue w = i # rest"
    and f: "i \<notin> set (free_slots sl (shared w))" "i \<notin> pend w" "i \<notin> set (inflight w)" and nl: "i \<notin> L"
    and st: "slot_state (slot_of (shared w) i) = FGA_CHANNEL_SLOT_PROCESSING" and u: "unheld w i"
  shows "\<exists>L' \<in> {L, insert i L}.
    owned L' D sl serve n (w\<lparr>shared := handleResponse sl i (shared w), completed_queue := rest\<rparr>)"
proof -
  let ?w = "w\<lparr>shared := slot_state_set i FGA_CHANNEL_SLOT_DONE (shared w), completed_queue := rest\<rparr>"
  let ?p = "backend_pid (slot_of (shared w) i)"
  have i: "i < n" using owned_lists(7) [OF o] c by simp
  have cnt: "i < slot_count (shared w)" using owned_count [OF o] i by simp
  have o1: "owned (insert i L) D sl serve n ?w" by (rule owned_lose [OF o c f u])
  have u1: "unheld ?w i" using u by (simp add: unheld_def)
  show ?thesis
  proof (cases "proc_latch (shared w) ?p = None")
    case True
    then have h: "handleResponse sl i (shared w) = fga_channel_release_slot sl i (shared ?w)"
      by (simp add: handleResponse_orphan [OF st cnt] Let_def)
    have "owned L D sl serve n (?w\<lparr>shared := fga_channel_release_slot sl i (shared ?w)\<rparr>)"
      by (rule owned_reclaim [OF o1 i nl u1])
    then show ?thesis unfolding h by (cases w) simp
  next
    case False
    then have "handleResponse sl i (shared w) = (shared ?w)\<lparr>proc_latch := (proc_latch (shared ?w))(?p \<mapsto> True)\<rparr>"
      by (auto simp: handleResponse_orphan [OF st cnt] Let_def)
    with owned_set_latch(2) [OF o1, of ?p True] show ?thesis by (cases w) simp
  qed
qed

text \<open>Without terminated backends no slot gets lost here.\<close>

lemma owned_handle:
  assumes o: "owned L D sl serve n w" and c: "completed_queue w = i # rest"
  shows "\<exists>L'. L \<subseteq> L' \<and> L' \<subseteq> L \<union> D \<and>
    owned L' D sl serve n (w\<lparr>shared := handleResponse sl i (shared w), completed_queue := rest\<rparr>)"
proof -
  have i: "i < n" using owned_lists(7) [OF o] c by simp
  have cnt: "i < slot_count (shared w)" using owned_count [OF o] i by simp
  have nl: "i \<notin> L" using listed_not_lost [OF o i] c by auto
  have "slot_inv L D sl serve w i" using o i by (simp add: owned_def)
  with c nl have f: "i \<notin> set (free_slots sl (shared w))" "i \<notin> pend w" "i \<notin> set (inflight w)"
    and ww: "with_worker D w i FGA_CHANNEL_SLOT_PROCESSING (\<lambda>req. serve req (response zero_payload))"
    by (auto simp: slot_inv_def split: if_splits)
  have rest: "i \<notin> set rest" "distinct rest" using owned_lists(4) [OF o] by (auto simp: c)
  from ww consider (canceled) "slot_state (slot_of (shared w) i) = FGA_CHANNEL_SLOT_CANCELED" "unheld w i"
    | (orphan) "i \<in> D" "slot_state (slot_of (shared w) i) = FGA_CHANNEL_SLOT_PROCESSING" "unheld w i"
    | (answered) q req where "sole w q i" "phases w q = Awaiting i req"
        "slot_state (slot_of (shared w) i) = FGA_CHANNEL_SLOT_PROCESSING"
        "slot_response (shared w) i = serve req (response zero_payload)"
        "backend_pid (slot_of (shared w) i) = q" "proc_latch (shared w) q \<noteq> None"
    by (auto simp: with_worker_def)
  then show ?thesis
  proof cases
    case canceled
    with f rest nl owned_lists(2,3) [OF o] show ?thesis
      by (intro exI [of _ L] conjI owned_drop [OF o i f(1)]) (auto simp: pend_def c handleResponse_def)
  next
    case orphan
    with owned_handle_orphan [OF o c f nl] show ?thesis by blast
  next
    case answered
    let ?s = "slot_state_set i FGA_CHANNEL_SLOT_DONE (shared w)"
    have pid: "backend_pid (slot_of ?s i) = q" using answered cnt by (simp add: slot_state_set_def)
    have h: "handleResponse sl i (shared w) = ?s\<lparr>proc_latch := (proc_latch (shared w))(q \<mapsto> True)\<rparr>"
      using answered by (auto simp: handleResponse_def wakeBackend_def fga_channel_wake_backend_def pid)
    let ?w = "w\<lparr>shared := handleResponse sl i (shared w), completed_queue := rest\<rparr>"
    have "chan_wf sl n ?s"
      unfolding slot_state_set_def by (rule chan_wf_set_slot [OF owned_wf [OF o] f(1)])
    then have l: "lists_inv sl n ?w"
      using owned_lists [OF o] rest by (auto simp: lists_inv_def h pend_def c)
    have "sole ?w q i \<and> backend_has serve ?w q i"
      using answered cnt by (simp add: sole_def backend_has_def h slot_state_set_def)
    then have "with_backend serve ?w i" by (auto simp: with_backend_def)
    with f rest nl have "slot_inv L D sl serve ?w i" by (simp add: slot_inv_def pend_def h)
    with o l have "owned L D sl serve n ?w"
      by (rule owned_change) (use cnt in \<open>auto simp: pend_def c h slot_state_set_def\<close>)
    then show ?thesis by blast
  qed
qed

lemma chan_wf_set_slot_state:
  assumes "chan_wf sl n s" and "\<And>slot. slot_state (f slot) = slot_state slot"
  shows "chan_wf sl n (set_slot i f s)"
proof -
  have "slot_state (xs[i := f (xs ! i)] ! j) = slot_state (xs ! j)" if "j < length xs" for j xs
    using that assms(2) by (cases "i = j") simp_all
  with assms(1) show ?thesis
    by (auto simp: chan_wf_def pool_wf_def set_slot_def on_pool_def queued_def pool_slots_update_slot)
qed

text \<open>Where the slot of a waiting backend can be.\<close>

lemma owned_awaiting:
  assumes o: "owned L D sl serve n w" and ph: "phases w p = Awaiting i req"
  shows "i < n" and "i \<notin> set (free_slots sl (shared w))" and "sole w p i"
    and "slot_state (slot_of (shared w) i) = FGA_CHANNEL_SLOT_DONE \<and> i \<notin> pend w \<and>
        i \<notin> set (inflight w) \<and> i \<notin> set (completed_queue w) \<and>
        slot_response (shared w) i = serve req (response zero_payload) \<or>
      slot_state (slot_of (shared w) i) \<in> {FGA_CHANNEL_SLOT_PENDING, FGA_CHANNEL_SLOT_PROCESSING} \<and>
        i \<in> pend w \<union> set (inflight w) \<union> set (completed_queue w) \<union> L"
proof -
  have h: "holds (phases w p) i" by (simp add: ph)
  show i: "i < n" using owned_lists(8) [OF o h] .
  have inv: "slot_inv L D sl serve w i" using o i by (simp add: owned_def)
  have nu: "\<not> unheld w i" using h by (auto simp: unheld_def)
  with inv show "i \<notin> set (free_slots sl (shared w))" by (auto simp: slot_inv_def lost_def split: if_splits)
  have wb: "sole w p i \<and> backend_has serve w p i" if b: "with_backend serve w i"
  proof -
    obtain q where q: "sole w q i" "backend_has serve w q i" using b by (auto simp: with_backend_def)
    with h have "q = p" by (simp add: sole_def)
    with q show ?thesis by simp
  qed
  have ww: "sole w p i \<and> slot_state (slot_of (shared w) i) = st" if "with_worker D w i st answer" for st answer
    using with_worker_holder [OF that h] by blast
  have lo: "sole w p i \<and> slot_state (slot_of (shared w) i) \<in> {FGA_CHANNEL_SLOT_PENDING, FGA_CHANNEL_SLOT_PROCESSING}"
    if "lost sl w i" using lost_holder [OF that h] by blast
  show "sole w p i" using inv nu wb ww lo by (auto simp: slot_inv_def split: if_splits)
  show "slot_state (slot_of (shared w) i) = FGA_CHANNEL_SLOT_DONE \<and> i \<notin> pend w \<and>
        i \<notin> set (inflight w) \<and> i \<notin> set (completed_queue w) \<and>
        slot_response (shared w) i = serve req (response zero_payload) \<or>
      slot_state (slot_of (shared w) i) \<in> {FGA_CHANNEL_SLOT_PENDING, FGA_CHANNEL_SLOT_PROCESSING} \<and>
        i \<in> pend w \<union> set (inflight w) \<union> set (completed_queue w) \<union> L"
  proof (cases "i \<in> L")
    case True
    with inv lo show ?thesis by (simp add: slot_inv_def)
  next
    case False
    with inv nu wb ww show ?thesis by (auto simp: slot_inv_def backend_has_def ph split: if_splits)
  qed
qed

text \<open>\<open>wait_catch\<close> leaves the slot of an unfinished request to the worker, CANCELED, and frees the
  slot of a finished one.\<close>

lemma owned_cancel:
  assumes o: "owned L D sl serve n w" and ph: "phases w p = Awaiting i req"
    and st: "slot_state (slot_of (shared w) i) \<in> {FGA_CHANNEL_SLOT_PENDING, FGA_CHANNEL_SLOT_PROCESSING}"
    and at: "i \<in> pend w \<union> set (inflight w) \<union> set (completed_queue w) \<union> L"
  shows "owned L D sl serve n (w\<lparr>shared := wait_catch sl i (shared w), phases := (phases w)(p := Idle)\<rparr>)"
proof -
  let ?w = "w\<lparr>shared := wait_catch sl i (shared w), phases := (phases w)(p := Idle)\<rparr>"
  note a = owned_awaiting [OF o ph]
  have cnt: "i < slot_count (shared w)" using owned_count [OF o] a(1) by simp
  let ?s1 = "set_slot i (\<lambda>slot. slot\<lparr>slot_state := FGA_CHANNEL_SLOT_CANCELED\<rparr>) (shared w)"
  have c: "wait_catch sl i (shared w) = set_slot i (\<lambda>slot. slot\<lparr>backend_pid := InvalidPid\<rparr>) ?s1"
    using st by (auto simp: wait_catch_def)
  have "chan_wf sl n ?s1" by (rule chan_wf_set_slot [OF owned_wf [OF o] a(2)])
  then have "chan_wf sl n (wait_catch sl i (shared w))"
    unfolding c by (rule chan_wf_set_slot_state) simp
  then have l: "lists_inv sl n ?w"
    using owned_lists [OF o] by (auto simp: lists_inv_def pend_def c)
  have "unheld ?w i" using a(3) by (auto simp: unheld_def sole_def)
  then have "with_worker D ?w i st' answer" "i \<in> L \<Longrightarrow> slot_inv L D sl serve w i \<Longrightarrow> lost sl ?w i" for st' answer
    using cnt by (simp_all add: with_worker_def c) (simp add: slot_inv_def lost_def pend_def c)
  moreover have "slot_inv L D sl serve w i" using o a(1) by (simp add: owned_def)
  ultimately have "slot_inv L D sl serve ?w i"
    using at a(2) by (auto simp: slot_inv_def pend_def c split: if_splits)
  with o l show ?thesis
    by (rule owned_change) (use cnt ph in \<open>auto simp: pend_def c\<close>)
qed

lemma owned_discard:
  assumes o: "owned L D sl serve n w" and ph: "phases w p = Awaiting i req"
    and st: "slot_state (slot_of (shared w) i) = FGA_CHANNEL_SLOT_DONE"
  shows "owned L D sl serve n (w\<lparr>shared := wait_catch sl i (shared w), phases := (phases w)(p := Idle)\<rparr>)"
proof -
  let ?r = "fga_channel_release_slot sl i (shared w)"
  let ?w1 = "w\<lparr>phases := (phases w)(p := Served i req)\<rparr>"
  let ?w2 = "w\<lparr>shared := ?r, phases := (phases w)(p := Idle)\<rparr>"
  have "owned L D sl serve n ?w1" by (rule owned_answered [OF o ph st])
  from owned_release [OF this, of p i] have o2: "owned L D sl serve n ?w2" by simp
  have c: "wait_catch sl i (shared w) = set_slot i (\<lambda>slot. slot\<lparr>backend_pid := InvalidPid\<rparr>) ?r"
    using st by (auto simp: wait_catch_def)
  let ?w3 = "w\<lparr>shared := wait_catch sl i (shared w), phases := (phases w)(p := Idle)\<rparr>"
  note a = owned_awaiting [OF o ph]
  have cnt: "i < slot_count ?r" using owned_count [OF o] a(1) by simp
  have f: "i \<in> set (free_slots sl ?r)"
    using fga_channel_release_slot_spec(2) [OF owned_wf [OF o] a(1,2)] by simp
  have "chan_wf sl n ?r" using owned_wf [OF o2] by simp
  then have "chan_wf sl n (wait_catch sl i (shared w))"
    unfolding c by (rule chan_wf_set_slot_state) simp
  then have l: "lists_inv sl n ?w3"
    using owned_lists [OF o2] by (auto simp: lists_inv_def pend_def c)
  have "slot_inv L D sl serve ?w2 i" using o2 a(1) by (simp add: owned_def)
  moreover have "i \<notin> L" using listed_not_lost [OF o2 a(1)] f by simp
  ultimately have "slot_inv L D sl serve ?w3 i" using f by (simp add: slot_inv_def pend_def c unheld_def)
  with o2 l show ?thesis
    by (rule owned_change) (use cnt in \<open>auto simp: pend_def c\<close>)
qed

lemma base_step_owned:
  assumes "base_step sl serve a w w'" and o: "owned L D sl serve n w"
  shows "owned L D sl serve n w'"
  using assms(1)
proof cases
  case (acquire p i s')
  then show ?thesis using owned_acquire [OF o] by simp
next
  case (fill p i req)
  then show ?thesis using owned_fill [OF o] by simp
next
  case (enqueue p i q s')
  then show ?thesis using owned_enqueue [OF o] by simp
next
  case (queue_full p i q)
  then show ?thesis using owned_release [OF o, of p i] by simp
next
  case (wake_up p i req)
  then show ?thesis using owned_wake_up [OF o] by simp
next
  case (answered p i req)
  then show ?thesis using owned_answered [OF o] by simp
next
  case (release p i req)
  then show ?thesis using owned_release [OF o, of p i] by simp
next
  case (drain xs s')
  then show ?thesis using owned_drain [OF o] by simp
next
  case (claim i rest ok s')
  then show ?thesis using owned_claim [OF o] by simp
next
  case (serve i)
  then show ?thesis using owned_serve [OF o] by simp
qed

text \<open>Only the slots of terminated backends can get lost.\<close>

lemma step_keeps_owned:
  assumes "step sl serve False w w'" and o: "owned L D sl serve n w"
  shows "\<exists>L'. L \<subseteq> L' \<and> L' \<subseteq> L \<union> D \<and> owned L' D sl serve n w'"
  using assms(1)
proof cases
  case (base a)
  then show ?thesis using base_step_owned [OF _ o] by blast
next
  case (interrupt p i req)
  then show ?thesis
    using owned_awaiting(4) [OF o, of p i req] owned_cancel [OF o, of p i req]
      owned_discard [OF o, of p i req] by auto
next
  case (handle i rest)
  then show ?thesis using owned_handle [OF o] by simp
qed simp_all

lemma step_owned:
  assumes "step sl serve False w w'" and "owned L {} sl serve n w"
  shows "owned L {} sl serve n w'"
  using step_keeps_owned [OF assms] by auto

lemma initial_owned: "initial sl n w \<Longrightarrow> owned {} {} sl serve n w"
  by (auto simp: initial_def owned_def lists_inv_def pend_def slot_inv_def unheld_def)

lemma reachable_owned:
  assumes "initial sl n w" and "(step sl serve False)\<^sup>*\<^sup>* w w'"
  shows "owned {} {} sl serve n w'"
  using assms(2)
  by (induction rule: rtranclp_induct) (auto intro: initial_owned assms(1) step_owned)

end
