(* ===== verification/Protocol.thy ===== *)
theory Protocol
  imports Ownership
begin

text \<open>
  What the protocol guarantees and what it does not, from the invariant of \<open>Ownership\<close>. When calls
  with the \<open>PG_CATCH\<close> block of the tuple and store functions do not fail, every reachable state has
  the invariant, and from it come exclusiveness, the right answers, no leak and progress. When they
  do, the last theorem gives a run in which the worker takes a slot that another backend is still
  filling. The runs of the witnesses, and of later theories, are built here from the operations.
\<close>

section \<open>Runs\<close>

text \<open>Runs in which only one backend, the worker and the client act.\<close>

definition local_step ::
  "'l slist_ops \<Rightarrow> (FgaRequest \<Rightarrow> FgaResponse \<Rightarrow> FgaResponse) \<Rightarrow> int \<Rightarrow> 'l world \<Rightarrow> 'l world \<Rightarrow> bool" where
  "local_step sl serve p w w' \<longleftrightarrow> (\<exists>a \<in> {Backend p, Bgw, Rpc}. base_step sl serve a w w')"

lemma local_stepI:
  "base_step sl serve (Backend p) w w' \<Longrightarrow> local_step sl serve p w w'"
  "base_step sl serve Bgw w w' \<Longrightarrow> local_step sl serve p w w'"
  "base_step sl serve Rpc w w' \<Longrightarrow> local_step sl serve p w w'"
  by (auto simp: local_step_def)

lemma local_run_steps: "(local_step sl serve p)\<^sup>*\<^sup>* w w' \<Longrightarrow> (step sl serve catching)\<^sup>*\<^sup>* w w'"
  by (erule rtranclp_mono [THEN predicate2D, rotated]) (auto simp: local_step_def intro: step.base)

lemma base_run_local:
  assumes "(base_step sl serve a)\<^sup>*\<^sup>* w w'" and "a \<in> {Backend p, Bgw, Rpc}"
  shows "(local_step sl serve p)\<^sup>*\<^sup>* w w'"
proof (rule rtranclp_mono [THEN predicate2D, OF _ assms(1)])
  show "base_step sl serve a \<le> local_step sl serve p" using assms(2) by (auto simp: local_step_def)
qed

text \<open>The world after \<open>p\<close> has sent the request in slot \<open>i\<close>.\<close>

definition sent :: "'l slist_ops \<Rightarrow> nat \<Rightarrow> int \<Rightarrow> nat \<Rightarrow> 'l world \<Rightarrow> 'l world \<Rightarrow> bool" where
  "sent sl n p i w w' \<longleftrightarrow> i < n \<and> chan_wf sl n (shared w') \<and>
     phases w' = (phases w)(p := Awaiting i (slot_request (shared w') i)) \<and>
     queued (shared w') = queued (shared w) @ [i] \<and> i \<notin> set (free_slots sl (shared w')) \<and>
     slot_state (slot_of (shared w') i) = FGA_CHANNEL_SLOT_PENDING \<and>
     proc_latch (shared w') = proc_latch (shared w) \<and> drained w' = drained w \<and>
     inflight w' = inflight w \<and> completed_queue w' = completed_queue w \<and>
     free_slots sl (shared w) = i # free_slots sl (shared w') \<and>
     slot_response (shared w') i = response zero_payload \<and> backend_pid (slot_of (shared w') i) = p \<and>
     bgw_latch (shared w') = Some True \<and> (\<forall>j. j \<noteq> i \<longrightarrow> slot_of (shared w') j = slot_of (shared w) j) \<and>
     queue_capacity (ch_queue (channel (shared w'))) = queue_capacity (ch_queue (channel (shared w)))"

text \<open>A request given up while it is queued.\<close>

lemma sent_cancelled:
  assumes s: "sent sl n p i w w1"
  shows "chan_wf sl n (wait_catch sl i (shared w1))"
    and "free_slots sl (wait_catch sl i (shared w1)) = free_slots sl (shared w1)"
    and "queued (wait_catch sl i (shared w1)) = queued (shared w1)"
    and "slot_state (slot_of (wait_catch sl i (shared w1)) i) = FGA_CHANNEL_SLOT_CANCELED"
    and "proc_latch (wait_catch sl i (shared w1)) = proc_latch (shared w1)"
    and "bgw_latch (wait_catch sl i (shared w1)) = bgw_latch (shared w1)"
    and "queue_capacity (ch_queue (channel (wait_catch sl i (shared w1)))) = queue_capacity (ch_queue (channel (shared w1)))"
    and "j \<noteq> i \<Longrightarrow> slot_of (wait_catch sl i (shared w1)) j = slot_of (shared w1) j"
proof -
  have "i < slot_count (shared w1)" using s chan_wf_count [of sl n "shared w1"] by (simp add: sent_def)
  moreover have c: "wait_catch sl i (shared w1) = set_slot i (\<lambda>slot. slot\<lparr>backend_pid := InvalidPid\<rparr>)
      (set_slot i (\<lambda>slot. slot\<lparr>slot_state := FGA_CHANNEL_SLOT_CANCELED\<rparr>) (shared w1))"
    using s by (simp add: wait_catch_def sent_def)
  ultimately show "free_slots sl (wait_catch sl i (shared w1)) = free_slots sl (shared w1)"
    "queued (wait_catch sl i (shared w1)) = queued (shared w1)"
    "slot_state (slot_of (wait_catch sl i (shared w1)) i) = FGA_CHANNEL_SLOT_CANCELED"
    "proc_latch (wait_catch sl i (shared w1)) = proc_latch (shared w1)"
    "bgw_latch (wait_catch sl i (shared w1)) = bgw_latch (shared w1)"
    "queue_capacity (ch_queue (channel (wait_catch sl i (shared w1)))) = queue_capacity (ch_queue (channel (shared w1)))"
    "j \<noteq> i \<Longrightarrow> slot_of (wait_catch sl i (shared w1)) j = slot_of (shared w1) j"
    by simp_all
  show "chan_wf sl n (wait_catch sl i (shared w1))"
    unfolding c by (intro chan_wf_set_slot) (use s in \<open>simp_all add: sent_def\<close>)
qed

lemma can_send_alone:
  assumes wf: "chan_wf sl n (shared w)" and ne: "free_slots sl (shared w) \<noteq> []"
    and ph: "phases w p = Idle" and lat: "proc_latch (shared w) p \<noteq> None" "bgw_latch (shared w) \<noteq> None"
    and cap: "length (queued (shared w)) < queue_capacity (ch_queue (channel (shared w)))"
  shows "\<exists>w' i. (base_step sl serve (Backend p))\<^sup>*\<^sup>* w w' \<and> sent sl n p i w w' \<and> slot_request (shared w') i = req"
proof -
  obtain i s0 where a: "fga_channel_acquire_slot sl p (shared w) = (Inr i, s0)"
    "chan_wf sl n s0" "i < n" "free_slots sl (shared w) = i # free_slots sl s0"
    "i \<notin> set (free_slots sl s0)" "ch_queue (channel s0) = ch_queue (channel (shared w))"
    "queued s0 = queued (shared w)"
    "slot_of s0 i = fresh_slot p (ch_request_id (channel (shared w)) + 1)"
    "bgw_latch s0 = bgw_latch (shared w)" "proc_latch s0 = proc_latch (shared w)"
    by (rule acquire_idle [OF wf ne, of p]) (rule that)
  let ?w0 = "w\<lparr>shared := s0, phases := (phases w)(p := Filling i)\<rparr>"
  have st0: "base_step sl serve (Backend p) w ?w0" by (rule base_step.acquire [OF ph lat(1) a(1)])
  define s1 where "s1 = put_request i req s0"
  let ?w1 = "?w0\<lparr>shared := s1\<rparr>"
  have st1: "base_step sl serve (Backend p) ?w0 ?w1"
    using base_step.fill [of ?w0 p i sl serve req] by (simp add: s1_def)
  have wf1: "chan_wf sl n s1" unfolding s1_def put_request_def by (rule chan_wf_set_slot [OF a(2,5)])
  have i1: "i < slot_count s0" using a(3) chan_wf_count [OF a(2)] by simp
  have others: "slot_of s1 j = slot_of (shared w) j" if "j \<noteq> i" for j
    using fga_channel_acquire_slot_spec [OF wf a(1)] i1 that by (simp add: s1_def put_request_def)
  have views: "ch_queue (channel s1) = ch_queue (channel (shared w))" "queued s1 = queued (shared w)"
    "free_slots sl s1 = free_slots sl s0" "bgw_latch s1 = bgw_latch (shared w)"
    "proc_latch s1 = proc_latch (shared w)" "slot_request s1 i = req"
    "slot_state (slot_of s1 i) = FGA_CHANNEL_SLOT_PENDING"
    "slot_response s1 i = response zero_payload" "backend_pid (slot_of s1 i) = p"
    using a(6-10) i1 by (simp_all add: s1_def put_request_def fresh_slot_def)
  obtain ok q where enq: "queue_enqueue (ch_queue (channel s1)) (of_nat i) = (ok, q)" by fastforce
  note e = enqueue_slot_spec [OF wf1 a(3) enq]
  have ok: ok using e(1) cap views(1,2) by simp
  have qcap: "queue_capacity q = queue_capacity (ch_queue (channel s1))"
    using slot_queue.enq_spec [OF _ enq] wf1 by (simp add: chan_wf_def)
  define s2 where "s2 = (put_queue q s1)\<lparr>bgw_latch := Some True\<rparr>"
  have wake: "fga_wake_bgw (put_queue q s1) = (Return (), s2)"
    using lat(2) views(4) by (auto simp: fga_wake_bgw_def s2_def)
  let ?w2 = "?w1\<lparr>shared := s2, phases := (phases ?w1)(p := Awaiting i (slot_request s1 i))\<rparr>"
  have st2: "base_step sl serve (Backend p) ?w1 ?w2"
    using base_step.enqueue [of ?w1 p i q s2 sl serve] enq ok wake by simp
  have "(base_step sl serve (Backend p))\<^sup>*\<^sup>* w ?w2"
    by (rule converse_rtranclp_into_rtranclp, rule st0, rule converse_rtranclp_into_rtranclp, rule st1,
        rule r_into_rtranclp, rule st2)
  moreover have "sent sl n p i w ?w2 \<and> slot_request (shared ?w2) i = req"
    using a(3-5) e(2) [OF ok] views others qcap by (simp add: sent_def s2_def)
  ultimately show ?thesis by blast
qed

lemma can_send_locally:
  assumes "chan_wf sl n (shared w)" and "free_slots sl (shared w) \<noteq> []"
    and "phases w p = Idle" and "proc_latch (shared w) p \<noteq> None" "bgw_latch (shared w) \<noteq> None"
    and "length (queued (shared w)) < queue_capacity (ch_queue (channel (shared w)))"
  shows "\<exists>w' i. (local_step sl serve p)\<^sup>*\<^sup>* w w' \<and> sent sl n p i w w' \<and> slot_request (shared w') i = req"
  using can_send_alone [OF assms] base_run_local [of sl serve "Backend p"] by blast

lemma can_send:
  assumes "chan_wf sl n (shared w)" and "free_slots sl (shared w) \<noteq> []"
    and "phases w p = Idle" and "proc_latch (shared w) p \<noteq> None" "bgw_latch (shared w) \<noteq> None"
    and "length (queued (shared w)) < queue_capacity (ch_queue (channel (shared w)))"
  shows "\<exists>w' i. (step sl serve catching)\<^sup>*\<^sup>* w w' \<and> sent sl n p i w w' \<and> slot_request (shared w') i = req"
  using can_send_locally [OF assms] local_run_steps by blast

text \<open>The worker takes the only queued request and the client answers it.\<close>

lemma serve_locally:
  assumes wf: "chan_wf sl n (shared w)" and i: "i < n" "i \<notin> set (free_slots sl (shared w))"
    and q: "queued (shared w) = [i]" "drained w = []" "inflight w = []"
    and st: "slot_state (slot_of (shared w) i) = FGA_CHANNEL_SLOT_PENDING"
  obtains w' where "(local_step sl serve p)\<^sup>*\<^sup>* w w'" and "chan_wf sl n (shared w')"
    and "free_slots sl (shared w') = free_slots sl (shared w)" and "phases w' = phases w"
    and "queued (shared w') = []" and "drained w' = []" and "inflight w' = []"
    and "completed_queue w' = completed_queue w @ [i]" and "bgw_latch (shared w') = bgw_latch (shared w)"
    and "proc_latch (shared w') = proc_latch (shared w)"
    and "queue_capacity (ch_queue (channel (shared w'))) = queue_capacity (ch_queue (channel (shared w)))"
    and "slot_state (slot_of (shared w') i) = FGA_CHANNEL_SLOT_PROCESSING"
    and "backend_pid (slot_of (shared w') i) = backend_pid (slot_of (shared w) i)"
    and "slot_response (shared w') i = serve (slot_request (shared w) i) (slot_response (shared w) i)"
proof -
  obtain xs s1 where d: "fga_channel_drain_slots MAX_BATCH (shared w) = (xs, s1)" by fastforce
  note s1 = drain_batch(3-8) [OF wf d]
  have q1: "queued s1 = []" by (simp add: drain_batch(2) [OF wf d] q(1))
  have cnt: "i < slot_count s1" using chan_wf_count [OF s1(1)] i(1) by simp
  define s2 where "s2 = slot_state_set i FGA_CHANNEL_SLOT_PROCESSING s1"
  let ?w2 = "w\<lparr>shared := s2, drained := [], inflight := [i]\<rparr>"
  let ?w3 = "?w2\<lparr>shared := complete serve i s2, inflight := [], completed_queue := completed_queue w @ [i]\<rparr>"
  have "beginProcessing sl i s1 = (True, s2)" by (simp add: beginProcessing_def s1(3) st s2_def)
  from take_request [OF wf q(1,2) d this] have "(local_step sl serve p)\<^sup>*\<^sup>* w ?w2" using q(3) by (auto intro: base_run_local [of _ _ Bgw])
  moreover have "local_step sl serve p ?w2 ?w3"
    using local_stepI(3) [OF base_step.serve [of i ?w2 sl serve]] by simp
  ultimately have "(local_step sl serve p)\<^sup>*\<^sup>* w ?w3" by (rule rtranclp.rtrancl_into_rtrancl)
  moreover have "chan_wf sl n (complete serve i s2)"
    unfolding complete_def s2_def slot_state_set_def
    by (intro chan_wf_set_slot) (use s1(1,2) i(2) in simp_all)
  moreover have "slot_of (complete serve i s2) i = (slot_of (shared w) i)\<lparr>slot_state := FGA_CHANNEL_SLOT_PROCESSING,
      payload := (payload (slot_of (shared w) i))\<lparr>response :=
        serve (slot_request (shared w) i) (slot_response (shared w) i)\<rparr>\<rparr>"
    using cnt by (simp add: complete_def s2_def slot_state_set_def s1(3))
  moreover have "free_slots sl (complete serve i s2) = free_slots sl (shared w) \<and>
      queued (complete serve i s2) = [] \<and> bgw_latch (complete serve i s2) = bgw_latch (shared w) \<and>
      proc_latch (complete serve i s2) = proc_latch (shared w) \<and>
      queue_capacity (ch_queue (channel (complete serve i s2))) = queue_capacity (ch_queue (channel (shared w)))"
    using s1 q1 by (simp add: complete_def s2_def slot_state_set_def)
  ultimately show thesis by (intro that [of ?w3]) simp_all
qed

text \<open>Nothing is under way: no request is queued or with the worker, and the process ids in \<open>P\<close>
  are those of idle backends.\<close>

definition at_rest :: "'l slist_ops \<Rightarrow> nat \<Rightarrow> int set \<Rightarrow> 'l world \<Rightarrow> bool" where
  "at_rest sl n P w \<longleftrightarrow> chan_wf sl n (shared w) \<and> queued (shared w) = [] \<and> drained w = [] \<and>
     inflight w = [] \<and> completed_queue w = [] \<and> bgw_latch (shared w) \<noteq> None \<and>
     0 < queue_capacity (ch_queue (channel (shared w))) \<and>
     (\<forall>p \<in> P. phases w p = Idle \<and> proc_latch (shared w) p \<noteq> None)"

text \<open>From such a world a backend sends a request, and the client answers it: \<open>w'\<close> is the world
  before the worker handles the response.\<close>

definition response_due ::
  "'l slist_ops \<Rightarrow> (FgaRequest \<Rightarrow> FgaResponse \<Rightarrow> FgaResponse) \<Rightarrow> nat \<Rightarrow> int \<Rightarrow> nat \<Rightarrow> FgaRequest \<Rightarrow>
    'l world \<Rightarrow> 'l world \<Rightarrow> bool" where
  "response_due sl serve n p i req w w' \<longleftrightarrow>
     chan_wf sl n (shared w') \<and> i < n \<and> free_slots sl (shared w) = i # free_slots sl (shared w') \<and>
     queued (shared w') = [] \<and> drained w' = [] \<and> inflight w' = [] \<and> completed_queue w' = [i] \<and>
     phases w' = (phases w)(p := Awaiting i req) \<and> proc_latch (shared w') = proc_latch (shared w) \<and>
     bgw_latch (shared w') \<noteq> None \<and> 0 < queue_capacity (ch_queue (channel (shared w'))) \<and>
     slot_state (slot_of (shared w') i) = FGA_CHANNEL_SLOT_PROCESSING \<and>
     backend_pid (slot_of (shared w') i) = p \<and>
     slot_response (shared w') i = serve req (response zero_payload)"

lemma send_and_serve:
  assumes r: "at_rest sl n P w" and p: "p \<in> P" and free: "free_slots sl (shared w) = i # F"
  obtains w' where "(local_step sl serve p)\<^sup>*\<^sup>* w w'" and "response_due sl serve n p i req w w'"
proof -
  have "\<exists>w1 j. (local_step sl serve p)\<^sup>*\<^sup>* w w1 \<and> sent sl n p j w w1 \<and> slot_request (shared w1) j = req"
    by (rule can_send_locally) (use r p free in \<open>simp_all add: at_rest_def del: not_None_eq\<close>)
  then obtain w1 j where w1: "(local_step sl serve p)\<^sup>*\<^sup>* w w1" "sent sl n p j w w1"
    "slot_request (shared w1) j = req" by blast
  then have j: "j = i" using free by (simp add: sent_def)
  have s: "chan_wf sl n (shared w1)" "i < n" "i \<notin> set (free_slots sl (shared w1))" "queued (shared w1) = [i]"
    "drained w1 = []" "inflight w1 = []" "slot_state (slot_of (shared w1) i) = FGA_CHANNEL_SLOT_PENDING"
    using w1(2) r by (simp_all add: sent_def at_rest_def j)
  obtain w2 where w2: "(local_step sl serve p)\<^sup>*\<^sup>* w1 w2" "chan_wf sl n (shared w2)"
    "free_slots sl (shared w2) = free_slots sl (shared w1)" "phases w2 = phases w1"
    "queued (shared w2) = []" "drained w2 = []" "inflight w2 = []"
    "completed_queue w2 = completed_queue w1 @ [i]" "bgw_latch (shared w2) = bgw_latch (shared w1)"
    "proc_latch (shared w2) = proc_latch (shared w1)"
    "queue_capacity (ch_queue (channel (shared w2))) = queue_capacity (ch_queue (channel (shared w1)))"
    "slot_state (slot_of (shared w2) i) = FGA_CHANNEL_SLOT_PROCESSING"
    "backend_pid (slot_of (shared w2) i) = backend_pid (slot_of (shared w1) i)"
    "slot_response (shared w2) i = serve (slot_request (shared w1) i) (slot_response (shared w1) i)"
    by (rule serve_locally [OF s, of serve p]) (rule that)
  have "response_due sl serve n p i req w w2"
    using w1(2,3) w2 s(2) r unfolding response_due_def sent_def at_rest_def j by simp
  with w1(1) w2(1) show thesis by (meson that rtranclp_trans)
qed

text \<open>The work the worker has left: each of its steps reduces it.\<close>

definition work :: "'l world \<Rightarrow> nat" where
  "work w = 4 * length (queued (shared w)) + 3 * length (drained w) + 2 * length (inflight w) +
     length (completed_queue w)"

lemma handleResponse_queued [simp]: "queued (handleResponse sl i s) = queued s"
  by (simp add: handleResponse_def wakeBackend_def fga_channel_wake_backend_def Let_def split: option.splits)

lemma complete_queued [simp]: "queued (complete serve i s) = queued s"
  by (simp add: complete_def)

lemma beginProcessing_queued: "beginProcessing sl i s = (ok, s') \<Longrightarrow> queued s' = queued s"
  by (auto simp: beginProcessing_def split: if_splits)

definition worker_step ::
  "'l slist_ops \<Rightarrow> (FgaRequest \<Rightarrow> FgaResponse \<Rightarrow> FgaResponse) \<Rightarrow> 'l world \<Rightarrow> 'l world \<Rightarrow> bool" where
  "worker_step sl serve w w' \<longleftrightarrow> base_step sl serve Bgw w w' \<or> base_step sl serve Rpc w w' \<or>
     (\<exists>i rest. completed_queue w = i # rest \<and>
        w' = w\<lparr>shared := handleResponse sl i (shared w), completed_queue := rest\<rparr>)"

lemma worker_step_step: "worker_step sl serve w w' \<Longrightarrow> step sl serve False w w'"
  by (auto simp: worker_step_def intro: step.intros)

lemma worker_run_steps: "(worker_step sl serve)\<^sup>*\<^sup>* w w' \<Longrightarrow> (step sl serve False)\<^sup>*\<^sup>* w w'"
  by (erule rtranclp_mono [THEN predicate2D, rotated]) (auto intro: worker_step_step)

lemma worker_can_step:
  assumes o: "owned L D sl serve n w" and "work w \<noteq> 0"
  shows "\<exists>w'. worker_step sl serve w w' \<and> work w' < work w \<and> phases w' = phases w"
proof -
  consider (drained) i rest where "drained w = i # rest" | (queue) "drained w = []" "queued (shared w) \<noteq> []"
    | (inflight) i rest where "inflight w = i # rest" | (completed) i rest where "completed_queue w = i # rest"
    using assms(2) by (cases "drained w") (auto simp: work_def neq_Nil_conv)
  then show ?thesis
  proof cases
    case drained
    obtain ok s' where b: "beginProcessing sl i (shared w) = (ok, s')" by fastforce
    have "worker_step sl serve w (w\<lparr>shared := s', drained := rest, inflight := (if ok then inflight w @ [i] else inflight w)\<rparr>)"
      using base_step.claim [OF drained b] by (simp add: worker_step_def)
    then show ?thesis
      by (intro exI conjI) (assumption, simp_all add: work_def drained beginProcessing_queued [OF b])
  next
    case queue
    obtain xs s' where d: "fga_channel_drain_slots MAX_BATCH (shared w) = (xs, s')" by fastforce
    note ds = drain_batch [OF owned_wf [OF o] d]
    have "work (w\<lparr>shared := s', drained := xs\<rparr>) < work w"
      using queue by (cases "length (queued (shared w)) \<le> 50") (simp_all add: work_def ds(1,2) min_def)
    moreover have "worker_step sl serve w (w\<lparr>shared := s', drained := xs\<rparr>)"
      using base_step.drain [OF queue(1) d] by (simp add: worker_step_def)
    ultimately show ?thesis by (intro exI conjI) (assumption, simp_all)
  next
    case inflight
    then have "worker_step sl serve w (w\<lparr>shared := complete serve i (shared w),
        inflight := remove1 i (inflight w), completed_queue := completed_queue w @ [i]\<rparr>)"
      using base_step.serve [of i w sl serve] by (simp add: worker_step_def)
    with inflight show ?thesis by (intro exI conjI) (assumption, simp_all add: work_def)
  next
    case completed
    then have "worker_step sl serve w (w\<lparr>shared := handleResponse sl i (shared w), completed_queue := rest\<rparr>)"
      by (auto simp: worker_step_def)
    with completed show ?thesis by (intro exI conjI) (assumption, simp_all add: work_def)
  qed
qed

lemma worker_finishes:
  "owned L D sl serve n w \<Longrightarrow> \<exists>w'. (worker_step sl serve)\<^sup>*\<^sup>* w w' \<and> work w' = 0 \<and> phases w' = phases w"
proof (induction "work w" arbitrary: w L rule: less_induct)
  case less
  show ?case
  proof (cases "work w = 0")
    case True
    then show ?thesis by blast
  next
    case False
    then obtain w1 where w1: "worker_step sl serve w w1" "work w1 < work w" "phases w1 = phases w"
      using worker_can_step [OF less.prems] by blast
    obtain L' where "owned L' D sl serve n w1"
      using step_keeps_owned [OF worker_step_step [OF w1(1)] less.prems] by blast
    with less.hyps [OF w1(2)] w1(1,3) show ?thesis by (metis converse_rtranclp_into_rtranclp)
  qed
qed

text \<open>From every initial state a request can be sent and answered.\<close>

lemma initial_can_be_served:
  assumes init: "initial sl n w0" and n: "0 < n" and lat: "proc_latch (shared w0) p \<noteq> None"
    and cap: "0 < queue_capacity (ch_queue (channel (shared w0)))"
  shows "\<exists>w i. (step sl serve False)\<^sup>*\<^sup>* w0 w \<and> work w = 0 \<and> phases w = (\<lambda>p. Idle)(p := Served i req)"
proof -
  have ne: "free_slots sl (shared w0) \<noteq> []" using init n by (force simp: initial_def)
  have "\<exists>w i. (step sl serve False)\<^sup>*\<^sup>* w0 w \<and> sent sl n p i w0 w \<and> slot_request (shared w) i = req"
    by (rule can_send) (use init ne lat cap in \<open>simp_all add: initial_def del: not_None_eq\<close>)
  then obtain w i where w: "(step sl serve False)\<^sup>*\<^sup>* w0 w"
    "sent sl n p i w0 w" "slot_request (shared w) i = req" by blast
  have o: "owned {} {} sl serve n w" by (rule reachable_owned [OF init w(1)])
  from worker_finishes [OF o] obtain w1 where w1: "(step sl serve False)\<^sup>*\<^sup>* w w1"
    "work w1 = 0" "phases w1 = phases w" using worker_run_steps by blast
  have r1: "(step sl serve False)\<^sup>*\<^sup>* w0 w1" using w(1) w1(1) by (rule rtranclp_trans)
  have ph: "phases w1 = (\<lambda>p. Idle)(p := Awaiting i req)"
    using w(2,3) w1(3) init by (simp add: sent_def initial_def)
  then have aw: "phases w1 p = Awaiting i req" by simp
  have "slot_state (slot_of (shared w1) i) = FGA_CHANNEL_SLOT_DONE"
    using owned_awaiting(4) [OF reachable_owned [OF init r1] aw] w1(2)
    by (auto simp: work_def pend_def)
  from r1 step_answered [OF aw this]
  have "(step sl serve False)\<^sup>*\<^sup>* w0 (w1\<lparr>phases := (phases w1)(p := Served i req)\<rparr>)"
    by (rule rtranclp.rtrancl_into_rtrancl)
  then show ?thesis
    using ph w1(2) by (intro exI conjI) (assumption, simp_all add: work_def)
qed

section \<open>An example run\<close>

definition example_world :: "nat list world" where
  "example_world = \<lparr>shared = example_state, phases = (\<lambda>p. Idle), drained = [], inflight = [],
     completed_queue = []\<rparr>"

lemma example_world_initial: "initial list_slist 2 example_world"
  and example_world_latch: "proc_latch (shared example_world) 42 \<noteq> None"
  and example_world_queue: "0 < queue_capacity (ch_queue (channel (shared example_world)))"
  using example_state_idle example_free
  by (auto simp: initial_def example_world_def idle_def)

lemma example_at_rest: "at_rest list_slist 2 {42} example_world"
  using example_world_initial example_world_latch example_world_queue by (simp add: at_rest_def initial_def)

lemma example_sent:
  "\<exists>w i. (step list_slist serve catching)\<^sup>*\<^sup>* example_world w \<and> sent list_slist 2 42 i example_world w \<and>
     slot_request (shared w) i = req"
  by (rule can_send)
    (use example_world_initial example_world_latch example_world_queue example_free in
      \<open>simp_all add: initial_def example_world_def del: not_None_eq\<close>)

text \<open>The backend has its answer and the worker is done.\<close>

lemma example_served:
  "\<exists>w i. (step list_slist serve False)\<^sup>*\<^sup>* example_world w \<and> work w = 0 \<and>
     phases w = (\<lambda>p. Idle)(42 := Served i req)"
  by (rule initial_can_be_served [OF example_world_initial _ example_world_latch example_world_queue]) simp

section \<open>Properties\<close>

lemma owned_held:
  assumes o: "owned L D sl serve n w" and h: "holds (phases w p) i"
  shows "sole w p i \<and> i \<notin> set (free_slots sl (shared w))"
proof (cases "\<exists>req. phases w p = Awaiting i req")
  case True
  then show ?thesis using owned_awaiting(2,3) [OF o] by blast
next
  case False
  then show ?thesis using owned_backend(2,6) [OF o h] by blast
qed

lemma all_free_when_idle:
  assumes o: "owned {} {} sl serve n w" and "\<forall>p. phases w p = Idle" and "work w = 0"
  shows "set (free_slots sl (shared w)) = {..<n}"
proof -
  have "i \<in> set (free_slots sl (shared w))" if "i < n" for i
  proof -
    have "slot_inv {} {} sl serve w i" using o that by (simp add: owned_def)
    moreover have "\<not> with_backend serve w i" using assms(2) by (simp add: with_backend_def backend_has_def)
    ultimately show ?thesis using assms(3) by (simp add: slot_inv_def pend_def work_def split: if_splits)
  qed
  then show ?thesis using chan_wf_free [OF owned_wf [OF o]] by auto
qed





text \<open>A call with the \<open>PG_CATCH\<close> block is cancelled while its request is queued, and the backend
  acquires the slot again for its next call.\<close>

lemma caught_error_reacquires:
  assumes init: "initial sl n w" and lat: "proc_latch (shared w) p \<noteq> None" and n: "0 < n"
    and cap: "0 < queue_capacity (ch_queue (channel (shared w)))"
  shows "\<exists>w' i rid. (step sl serve True)\<^sup>*\<^sup>* w w' \<and> i < n \<and> phases w' p = Filling i \<and> queued (shared w') = [i] \<and>
    drained w' = [] \<and> chan_wf sl n (shared w') \<and> slot_of (shared w') i = fresh_slot p rid"
proof -
  let ?step = "step sl serve True"
  have ne: "free_slots sl (shared w) \<noteq> []" using init n by (force simp: initial_def)
  have "\<exists>w2 i. ?step\<^sup>*\<^sup>* w w2 \<and> sent sl n p i w w2 \<and> slot_request (shared w2) i = request zero_payload"
    by (rule can_send) (use init ne lat cap in \<open>simp_all add: initial_def del: not_None_eq\<close>)
  then obtain w2 i where run: "?step\<^sup>*\<^sup>* w w2" and "sent sl n p i w w2" by blast
  then have snt: "sent sl n p i w w2" "i < n" "phases w2 p = Awaiting i (slot_request (shared w2) i)"
    "queued (shared w2) = [i]" "i \<notin> set (free_slots sl (shared w2))"
    "proc_latch (shared w2) = proc_latch (shared w)" "drained w2 = []"
    using init by (auto simp: sent_def initial_def)
  note c = sent_cancelled [OF snt(1)]
  define s3 where "s3 = fga_channel_release_slot sl i (wait_catch sl i (shared w2))"
  let ?w3 = "w2\<lparr>shared := s3, phases := (phases w2)(p := Idle)\<rparr>"
  have st3: "?step w2 ?w3" by (rule step.caught_interrupt [OF TrueI snt(3)]) (simp add: s3_def)
  have nf: "i \<notin> set (free_slots sl (wait_catch sl i (shared w2)))" using snt(5) by (simp add: c(2))
  note r = fga_channel_release_slot_spec [OF c(1) snt(2) nf, folded s3_def]
  have ne3: "free_slots sl s3 \<noteq> []" by (simp add: r(2))
  have s3: "queued s3 = [i]" "proc_latch s3 p \<noteq> None"
    using lat by (simp_all add: s3_def c(3,5) snt(4,6))
  obtain i' s4 where b: "fga_channel_acquire_slot sl p s3 = (Inr i', s4)" "chan_wf sl n s4" "i' < n"
    "free_slots sl s3 = i' # free_slots sl s4" "i' \<notin> set (free_slots sl s4)"
    "ch_queue (channel s4) = ch_queue (channel s3)" "queued s4 = queued s3"
    "slot_of s4 i' = fresh_slot p (ch_request_id (channel s3) + 1)"
    "bgw_latch s4 = bgw_latch s3" "proc_latch s4 = proc_latch s3"
    by (rule acquire_idle [OF r(1) ne3, of p]) (rule that)
  have i': "i' = i" using b(4) r(2) by simp
  let ?w4 = "?w3\<lparr>shared := s4, phases := (phases ?w3)(p := Filling i)\<rparr>"
  have st4: "?step ?w3 ?w4"
    using step_acquire [of ?w3 p sl i s4 serve True] b(1) s3(2) i' by simp
  have "?step\<^sup>*\<^sup>* w ?w4" using run st3 st4 by (meson rtranclp.rtrancl_into_rtrancl)
  then show ?thesis
    using b(2,7,8) i' s3(1) snt(2,7) by (intro exI [of _ ?w4] exI [of _ i]) auto
qed

text \<open>C13: With the \<open>PG_CATCH\<close> block of the tuple and store functions the ownership is lost: from
  every initial state a backend can send a request, be cancelled, and start its next request in
  the very slot that the worker then claims and processes, while the backend is still writing
  the request into it.\<close>

theorem caught_error_shares_slot:
  assumes init: "initial sl n w" and lat: "proc_latch (shared w) p \<noteq> None" and n: "0 < n"
    and cap: "0 < queue_capacity (ch_queue (channel (shared w)))"
  shows "\<exists>w' i. (step sl serve True)\<^sup>*\<^sup>* w w' \<and> phases w' p = Filling i \<and> i \<in> set (inflight w') \<and>
    slot_state (slot_of (shared w') i) = FGA_CHANNEL_SLOT_PROCESSING"
proof -
  let ?step = "step sl serve True"
  obtain w4 i rid where run: "?step\<^sup>*\<^sup>* w w4" and w4: "i < n" "phases w4 p = Filling i" "queued (shared w4) = [i]"
    "drained w4 = []" "chan_wf sl n (shared w4)" "slot_of (shared w4) i = fresh_slot p rid"
    using caught_error_reacquires [OF assms, of serve] by blast
  obtain xs s5 where d: "fga_channel_drain_slots MAX_BATCH (shared w4) = (xs, s5)" by fastforce
  note s5 = drain_batch(3,5) [OF w4(5) d]
  let ?s6 = "slot_state_set i FGA_CHANNEL_SLOT_PROCESSING s5"
  let ?w6 = "w4\<lparr>shared := ?s6, drained := [], inflight := inflight w4 @ [i]\<rparr>"
  have "beginProcessing sl i s5 = (True, ?s6)"
    using s5(2) w4(6) by (simp add: beginProcessing_def fresh_slot_def)
  from take_request [OF w4(5,3,4) d this] have "?step\<^sup>*\<^sup>* w4 ?w6"
    by (auto intro: local_run_steps base_run_local [of _ _ Bgw])
  with run have "?step\<^sup>*\<^sup>* w ?w6" by (rule rtranclp_trans)
  moreover have "slot_state (slot_of ?s6 i) = FGA_CHANNEL_SLOT_PROCESSING"
    using chan_wf_count [OF s5(1)] w4(1) by (simp add: slot_state_set_def)
  ultimately show ?thesis using w4(2) by (intro exI [of _ ?w6] exI [of _ i]) simp
qed

theorem caught_error_shares_slot_witness:
  "\<exists>w i. (step list_slist (answer_all FGA_RESPONSE_OK True) True)\<^sup>*\<^sup>* example_world w \<and>
     phases w 42 = Filling i \<and> i \<in> set (inflight w) \<and>
     slot_state (slot_of (shared w) i) = FGA_CHANNEL_SLOT_PROCESSING"
  by (rule caught_error_shares_slot [OF example_world_initial example_world_latch _ example_world_queue]) simp

end
