(* ===== verification/Restart.thy ===== *)
theory Restart
  imports Protocol
begin

text \<open>
  The protocol while its processes come and go.

  When the worker exits with an error (\<open>src/bgw/worker.cpp\<close>), the postmaster starts it again after the
  \<open>bgw_restart_time\<close> of \<open>src/bgw/bgw.c\<close>. The new process has an empty \<open>completed_queue_\<close>, its client
  has no calls under way, and it finds only the requests that are still in the shared queue.

  A reload whose configuration differs from the first makes the worker construct a new \<open>Processor\<close> in
  place of the old one, between two turns. The client's threads go on: their callbacks refer to
  the processor by its address, where the new one is. But the old \<open>completed_queue_\<close> is gone.

  A backend that is terminated (\<open>FATAL\<close>, as by \<open>pg_terminate_backend\<close>) exits without running the
  \<open>PG_CATCH\<close> block of \<open>wait_response\<close>, and no exit callback of the extension releases its slot. Later
  backends may get its process id.

  The ownership invariant survives all of this, with two sets of slots set apart: those nobody will
  ever free, and those of terminated backends. So the guarantees of exclusiveness and of right
  answers hold, and it is determined which slots are lost for good.
\<close>

section \<open>Processes come and go\<close>

text \<open>The new worker process has registered its latch, in the state \<open>l\<close>.\<close>

definition restarted :: "bool \<Rightarrow> 'l world \<Rightarrow> 'l world" where
  "restarted l w = w\<lparr>shared := (shared w)\<lparr>bgw_latch := Some l\<rparr>, drained := [], inflight := [],
     completed_queue := []\<rparr>"

definition processor_replaced :: "'l world \<Rightarrow> 'l world" where
  "processor_replaced w = w\<lparr>completed_queue := []\<rparr>"

definition terminated :: "int \<Rightarrow> 'l world \<Rightarrow> 'l world" where
  "terminated p w = w\<lparr>shared := (shared w)\<lparr>proc_latch := (proc_latch (shared w))(p := None)\<rparr>,
     phases := (phases w)(p := Idle)\<rparr>"

definition started :: "int \<Rightarrow> 'l world \<Rightarrow> 'l world" where
  "started p w = w\<lparr>shared := (shared w)\<lparr>proc_latch := (proc_latch (shared w))(p \<mapsto> False)\<rparr>\<rparr>"

definition worker_slots :: "'l world \<Rightarrow> nat set" where
  "worker_slots w = set (drained w) \<union> set (inflight w) \<union> set (completed_queue w)"

inductive life_step ::
  "'l slist_ops \<Rightarrow> (FgaRequest \<Rightarrow> FgaResponse \<Rightarrow> FgaResponse) \<Rightarrow> 'l world \<Rightarrow> 'l world \<Rightarrow> bool"
  for sl serve where
  run: "step sl serve False w w' \<Longrightarrow> life_step sl serve w w'"
| restart: "life_step sl serve w (restarted l w)"
| reload: "drained w = [] \<Longrightarrow> life_step sl serve w (processor_replaced w)"
| terminate: "life_step sl serve w (terminated p w)"
| start: "proc_latch (shared w) p = None \<Longrightarrow> life_step sl serve w (started p w)"

section \<open>The invariant\<close>

text \<open>A worker or processor that forgets some of its lists loses the slots on them.\<close>

lemma owned_forget:
  assumes o: "owned L D sl serve n w" and ph: "phases w' = phases w"
    and sh: "shared w' = (shared w)\<lparr>bgw_latch := l\<rparr>" "l \<noteq> None"
    and dr: "drained w' \<in> {drained w, []}" "inflight w' \<in> {inflight w, []}" "completed_queue w' \<in> {completed_queue w, []}"
  shows "owned (L \<union> (worker_slots w - worker_slots w')) D sl serve n w'"
proof -
  let ?L = "L \<union> (worker_slots w - worker_slots w')"
  have q: "distinct (queued (shared w))" "set (drained w) \<inter> set (queued (shared w)) = {}"
    using owned_lists(2) [OF o] by auto
  have sub: "set (drained w') \<subseteq> set (drained w)" "set (inflight w') \<subseteq> set (inflight w)"
    "set (completed_queue w') \<subseteq> set (completed_queue w)" using dr by auto
  then have l: "lists_inv sl n w'"
    using owned_lists [OF o] owned_wf [OF o] dr sh q(1) by (auto simp: lists_inv_def pend_def ph)
  have "slot_inv ?L D sl serve w' i" if i: "i < n" for i
  proof -
    have inv: "slot_inv L D sl serve w i" using o i by (simp add: owned_def)
    consider (already) "i \<in> L" | (gone) "i \<notin> L" "i \<in> worker_slots w" "i \<notin> worker_slots w'"
      | (kept) "i \<notin> ?L" "i \<in> worker_slots w \<longleftrightarrow> i \<in> worker_slots w'"
      using sub by (auto simp: worker_slots_def)
    then show ?thesis
    proof cases
      case already
      then have "lost sl w i" using inv by (simp add: slot_inv_def)
      then have "lost sl w' i" using sub by (auto simp: lost_def pend_def unheld_def sole_def ph sh)
      with already show ?thesis by (simp add: slot_inv_def)
    next
      case gone
      then have "i \<notin> set (free_slots sl (shared w))" "i \<notin> set (queued (shared w))"
        and "unheld w i \<or> (\<exists>p req. sole w p i \<and> phases w p = Awaiting i req \<and>
          slot_state (slot_of (shared w) i) \<in> {FGA_CHANNEL_SLOT_PENDING, FGA_CHANNEL_SLOT_PROCESSING})"
        using inv q(2) by (auto simp: slot_inv_def worker_slots_def pend_def with_worker_def split: if_splits)
      then have "lost sl w' i"
        using gone(3) by (auto simp: lost_def pend_def worker_slots_def unheld_def sole_def ph sh)
      with gone show ?thesis by (simp add: slot_inv_def)
    next
      case kept
      have lists: "i \<in> set (drained w') \<longleftrightarrow> i \<in> set (drained w)" "i \<in> set (inflight w') \<longleftrightarrow> i \<in> set (inflight w)"
        "i \<in> set (completed_queue w') \<longleftrightarrow> i \<in> set (completed_queue w)"
        using kept inv sub by (auto simp: worker_slots_def slot_inv_def pend_def split: if_splits)
      from inv have "slot_inv ?L D sl serve w i" by (rule slot_inv_sets) (use kept in auto)
      then show ?thesis by (rule slot_inv_frame) (simp_all add: lists pend_def ph sh)
    qed
  qed
  with l show ?thesis by (simp add: owned_def)
qed

lemma owned_restarted: "owned L D sl serve n w \<Longrightarrow> owned (L \<union> worker_slots w) D sl serve n (restarted l w)"
  using owned_forget [of L D sl serve n w "restarted l w" "Some l"] by (simp add: restarted_def worker_slots_def)

lemma owned_replaced:
  assumes o: "owned L D sl serve n w"
  shows "owned (L \<union> set (completed_queue w)) D sl serve n (processor_replaced w)"
proof -
  have "i \<notin> set (drained w)" "i \<notin> set (inflight w)" if "i \<in> set (completed_queue w)" for i
  proof -
    have "slot_inv L D sl serve w i" using o owned_lists(7) [OF o] that by (auto simp: owned_def)
    with that show "i \<notin> set (drained w)" "i \<notin> set (inflight w)"
      by (auto simp: slot_inv_def lost_def pend_def split: if_splits)
  qed
  then have "worker_slots w - worker_slots (processor_replaced w) = set (completed_queue w)"
    by (auto simp: worker_slots_def processor_replaced_def)
  with owned_forget [OF o, of "processor_replaced w" "bgw_latch (shared w)"] owned_lists(1) [OF o] show ?thesis
    by (simp add: processor_replaced_def)
qed

text \<open>The slot of a terminated backend stays with the worker, if that has it, and is lost otherwise.\<close>

definition worker_has :: "'l world \<Rightarrow> nat \<Rightarrow> bool" where
  "worker_has w i \<longleftrightarrow> i \<in> pend w \<union> set (inflight w) \<union> set (completed_queue w)"

lemma owned_terminated:
  assumes o: "owned L D sl serve n w" and h: "holds (phases w p) i"
  shows "owned (if worker_has w i then L else insert i L) (insert i D) sl serve n (terminated p w)"
proof -
  let ?w = "terminated p w"
  have i: "i < n" by (rule owned_lists(8) [OF o h])
  have inv: "slot_inv L D sl serve w i" using o i by (simp add: owned_def)
  have nf: "i \<notin> set (free_slots sl (shared w))" and s: "sole w p i"
    using owned_awaiting(2,3) [OF o, of p i] owned_backend(2,6) [OF o h] by (metis)+
  have u: "unheld ?w i" using s by (auto simp: unheld_def sole_def terminated_def)
  have nu: "\<not> unheld w i" using h by (auto simp: unheld_def)
  have l: "lists_inv sl n ?w"
    using o by (auto simp: owned_def lists_inv_def pend_def terminated_def)
  have "slot_inv (if worker_has w i then L else insert i L) (insert i D) sl serve ?w i"
  proof (cases "worker_has w i")
    case True
    then have "i \<notin> L" using listed_not_lost [OF o i] by (auto simp: worker_has_def)
    moreover have "with_worker (insert i D) ?w i st answer" if "with_worker D w i st answer" for st answer
      using that nu u by (auto simp: with_worker_def terminated_def)
    ultimately show ?thesis
      using inv True by (auto simp: slot_inv_def worker_has_def pend_def terminated_def split: if_splits)
  next
    case False
    with nf u show ?thesis by (simp add: slot_inv_def lost_def worker_has_def pend_def terminated_def)
  qed
  with o l show ?thesis
    by (rule owned_change_sets)
      (use holds_unique [OF h] in \<open>auto simp: terminated_def pend_def split: if_splits\<close>)
qed

lemma owned_quiet:
  assumes o: "owned L D sl serve n w" and ph: "phases w' = phases w"
    and sh: "shared w' = (shared w)\<lparr>proc_latch := l\<rparr>"
    and lists: "drained w' = drained w" "inflight w' = inflight w" "completed_queue w' = completed_queue w"
    and l: "\<And>q. phases w q \<noteq> Idle \<Longrightarrow> proc_latch (shared w) q \<noteq> None \<Longrightarrow> l q \<noteq> None"
  shows "owned L D sl serve n w'"
proof -
  have l': "l q \<noteq> None" if "holds (phases w q) j" "proc_latch (shared w) q \<noteq> None" for q j
    using that by (intro l) auto
  have "slot_inv L D sl serve w' j" if "j < n" for j
  proof -
    have "slot_inv L D sl serve w j" using o that by (simp add: owned_def)
    then show ?thesis
      by (rule slot_inv_frame) (simp_all add: sh ph lists pend_def l' del: not_None_eq)
  qed
  moreover have "lists_inv sl n w'"
    using o by (auto simp: owned_def lists_inv_def pend_def sh ph lists)
  ultimately show ?thesis by (simp add: owned_def)
qed

lemma life_step_owned:
  assumes "life_step sl serve w w'" and o: "owned L D sl serve n w"
  shows "\<exists>L' D'. L \<subseteq> L' \<and> owned L' D' sl serve n w'"
  using assms(1)
proof cases
  case run
  with step_keeps_owned [OF this o] show ?thesis by blast
next
  case (restart l)
  with owned_restarted [OF o, of l] show ?thesis by blast
next
  case reload
  with owned_replaced [OF o] show ?thesis by blast
next
  case (terminate p)
  show ?thesis
  proof (cases "phases w p = Idle")
    case True
    then have "owned L D sl serve n w'"
      by (intro owned_quiet [OF o, of w' "(proc_latch (shared w))(p := None)"]) (auto simp: terminate terminated_def)
    then show ?thesis by blast
  next
    case False
    then obtain i where h: "holds (phases w p) i" by (cases "phases w p") auto
    have "L \<subseteq> (if worker_has w i then L else insert i L)" by auto
    with owned_terminated [OF o h] show ?thesis unfolding terminate by blast
  qed
next
  case (start p)
  then have "owned L D sl serve n w'"
    by (intro owned_quiet [OF o, of w' "(proc_latch (shared w))(p \<mapsto> False)"]) (auto simp: started_def)
  then show ?thesis by blast
qed

lemma life_owned:
  "(life_step sl serve)\<^sup>*\<^sup>* w w' \<Longrightarrow> owned L D sl serve n w \<Longrightarrow> \<exists>L' D'. L \<subseteq> L' \<and> owned L' D' sl serve n w'"
proof (induction rule: rtranclp_induct)
  case base
  then show ?case by blast
next
  case (step w1 w2)
  then obtain L1 D1 where "L \<subseteq> L1" "owned L1 D1 sl serve n w1" by blast
  with life_step_owned [OF step.hyps(2)] show ?case by (meson order_trans)
qed

lemma reachable_life_owned:
  assumes "initial sl n w" and "(life_step sl serve)\<^sup>*\<^sup>* w w'"
  obtains L D where "owned L D sl serve n w'"
  using life_owned [OF assms(2) initial_owned [OF assms(1)]] by blast

lemma run_lives: "(step sl serve False)\<^sup>*\<^sup>* w w' \<Longrightarrow> (life_step sl serve)\<^sup>*\<^sup>* w w'"
  by (erule rtranclp_mono [THEN predicate2D, rotated]) (auto intro: life_step.run)

text \<open>Whatever processes come and go, no two backends hold the same slot, a held slot is
  not free, and a served backend has the answer to the request it sent.\<close>

lemma life_sound:
  assumes "initial sl n w" and "(life_step sl serve)\<^sup>*\<^sup>* w w'"
  shows "holds (phases w' p) i \<Longrightarrow> holds (phases w' q) i \<Longrightarrow> p = q \<and> i \<notin> set (free_slots sl (shared w'))"
    and "phases w' p = Served i req \<Longrightarrow> slot_response (shared w') i = serve req (response zero_payload)"
proof -
  obtain L D where o: "owned L D sl serve n w'" by (rule reachable_life_owned [OF assms])
  show "holds (phases w' p) i \<Longrightarrow> holds (phases w' q) i \<Longrightarrow> p = q \<and> i \<notin> set (free_slots sl (shared w'))"
    using owned_held [OF o, of p i] by (simp add: sole_def)
  show "slot_response (shared w') i = serve req (response zero_payload)" if "phases w' p = Served i req"
  proof -
    have "backend_has serve w' p i" by (rule owned_backend(7) [OF o]) (simp_all add: that)
    then show ?thesis by (simp add: backend_has_def that)
  qed
qed

section \<open>Slots that do not come back\<close>

text \<open>Never free again, so never filled again, and a backend that holds it waits in vain.\<close>

definition abandoned :: "'l slist_ops \<Rightarrow> 'l world \<Rightarrow> nat \<Rightarrow> bool" where
  "abandoned sl w i \<longleftrightarrow> i \<notin> set (free_slots sl (shared w)) \<and>
     (\<forall>p. holds (phases w p) i \<longrightarrow> (\<exists>req. phases w p = Awaiting i req) \<and>
        slot_state (slot_of (shared w) i) \<noteq> FGA_CHANNEL_SLOT_DONE)"

lemma lost_abandoned: "lost sl w i \<Longrightarrow> abandoned sl w i"
  unfolding abandoned_def
proof (intro conjI allI impI)
  fix p assume "lost sl w i" and "holds (phases w p) i"
  then have "(\<exists>req. phases w p = Awaiting i req) \<and>
    slot_state (slot_of (shared w) i) \<in> {FGA_CHANNEL_SLOT_PENDING, FGA_CHANNEL_SLOT_PROCESSING}"
    using lost_holder by blast
  then show "\<exists>req. phases w p = Awaiting i req" "slot_state (slot_of (shared w) i) \<noteq> FGA_CHANNEL_SLOT_DONE" by auto
qed (simp add: lost_def)

lemma lost_for_good:
  assumes "owned L D sl serve n w" and "i \<in> L" and "i < n" and "(life_step sl serve)\<^sup>*\<^sup>* w w'"
  shows "abandoned sl w' i"
proof -
  obtain L' D' where "L \<subseteq> L'" "owned L' D' sl serve n w'" using life_owned [OF assms(4,1)] by blast
  with assms(2,3) have "lost sl w' i" by (auto simp: owned_def slot_inv_def)
  then show ?thesis by (rule lost_abandoned)
qed

section \<open>Slots that the worker returns\<close>

text \<open>The worker has the slot \<open>i\<close> of the terminated backend \<open>p\<close>, whose process id is not in use, or has
  already returned it.\<close>

definition returning :: "'l slist_ops \<Rightarrow> int \<Rightarrow> nat \<Rightarrow> 'l world \<Rightarrow> bool" where
  "returning sl p i w \<longleftrightarrow> proc_latch (shared w) p = None \<and> unheld w i \<and>
     (i \<in> set (free_slots sl (shared w)) \<or> worker_has w i \<and>
        (slot_state (slot_of (shared w) i) = FGA_CHANNEL_SLOT_CANCELED \<or> backend_pid (slot_of (shared w) i) = p))"

lemma returning_claim:
  assumes o: "owned L D sl serve n w" and r: "returning sl p i w" and dr: "drained w = j # rest"
    and b: "beginProcessing sl j (shared w) = (ok, s')"
  shows "returning sl p i (w\<lparr>shared := s', drained := rest, inflight := (if ok then inflight w @ [j] else inflight w)\<rparr>)"
    (is "returning _ _ _ ?w")
proof -
  have j: "j \<in> pend w" "j < n" using owned_lists(5) [OF o] by (auto simp: pend_def dr)
  have cnt: "j < slot_count (shared w)" using owned_count [OF o] j(2) by simp
  have "slot_inv L D sl serve w j" using o j(2) by (simp add: owned_def)
  with j listed_not_lost [OF o j(2)] have f: "j \<notin> set (free_slots sl (shared w))"
    and ww: "with_worker D w j FGA_CHANNEL_SLOT_PENDING (\<lambda>_. response zero_payload)"
    by (auto simp: slot_inv_def split: if_splits)
  note rel = fga_channel_release_slot_spec [OF owned_wf [OF o] j(2) f]
  have u: "unheld ?w i" "proc_latch (shared ?w) p = None"
    using r b by (auto simp: returning_def unheld_def beginProcessing_def slot_state_set_def split: if_splits)
  from ww consider (canceled) "slot_state (slot_of (shared w) j) = FGA_CHANNEL_SLOT_CANCELED"
    | (pending) "slot_state (slot_of (shared w) j) = FGA_CHANNEL_SLOT_PENDING"
    by (auto simp: with_worker_def)
  then show ?thesis
  proof cases
    case canceled
    then have "\<not> ok" "s' = fga_channel_release_slot sl j (shared w)"
      using b by (auto simp: beginProcessing_def)
    with r u rel cnt show ?thesis
      by (auto simp: returning_def worker_has_def pend_def dr slot_of_release)
  next
    case pending
    then have "ok" "s' = slot_state_set j FGA_CHANNEL_SLOT_PROCESSING (shared w)"
      using b by (auto simp: beginProcessing_def)
    with r u cnt pending show ?thesis
      by (cases "i = j") (auto simp: returning_def worker_has_def pend_def dr slot_state_set_def)
  qed
qed

lemma returning_handle:
  assumes o: "owned L D sl serve n w" and r: "returning sl p i w" and c: "completed_queue w = j # rest"
  shows "returning sl p i (w\<lparr>shared := handleResponse sl j (shared w), completed_queue := rest\<rparr>)"
    (is "returning _ _ _ ?w")
proof -
  have j: "j < n" using owned_lists(7) [OF o] c by simp
  have cnt: "j < slot_count (shared w)" using owned_count [OF o] j by simp
  have "slot_inv L D sl serve w j" using o j by (simp add: owned_def)
  with c listed_not_lost [OF o j] have f: "j \<notin> set (free_slots sl (shared w))" "j \<notin> pend w" "j \<notin> set (inflight w)"
    and ww: "with_worker D w j FGA_CHANNEL_SLOT_PROCESSING (\<lambda>req. serve req (response zero_payload))"
    by (auto simp: slot_inv_def split: if_splits)
  have u: "unheld ?w i" using r by (simp add: returning_def unheld_def)
  from ww consider (canceled) "slot_state (slot_of (shared w) j) = FGA_CHANNEL_SLOT_CANCELED"
    | (served) "slot_state (slot_of (shared w) j) = FGA_CHANNEL_SLOT_PROCESSING"
    by (auto simp: with_worker_def)
  then show ?thesis
  proof cases
    case canceled
    note rel = fga_channel_release_slot_spec [OF owned_wf [OF o] j f(1)]
    from canceled have "handleResponse sl j (shared w) = fga_channel_release_slot sl j (shared w)"
      by (simp add: handleResponse_def)
    with r u rel cnt show ?thesis
      by (auto simp: returning_def worker_has_def pend_def c slot_of_release)
  next
    case served
    let ?s = "slot_state_set j FGA_CHANNEL_SLOT_DONE (shared w)" and ?q = "backend_pid (slot_of (shared w) j)"
    have wf: "chan_wf sl n ?s" unfolding slot_state_set_def by (rule chan_wf_set_slot [OF owned_wf [OF o] f(1)])
    have rel: "free_slots sl (fga_channel_release_slot sl j ?s) = j # free_slots sl (shared w)"
      using fga_channel_release_slot_spec [OF wf j] f(1) by simp
    have sl: "slot_of ?s i = slot_of (shared w) i" if "i \<noteq> j" using that cnt by (simp add: slot_state_set_def)
    note h = handleResponse_orphan [OF served cnt, of sl]
    show ?thesis
    proof (cases "proc_latch (shared w) ?q = None")
      case True
      with h have "handleResponse sl j (shared w) = fga_channel_release_slot sl j ?s" by (simp add: Let_def)
      with r u rel sl cnt show ?thesis
        by (auto simp: returning_def worker_has_def pend_def c slot_of_release)
    next
      case False
      with h have "handleResponse sl j (shared w) = ?s\<lparr>proc_latch := (proc_latch ?s)(?q \<mapsto> True)\<rparr>" by (auto simp: Let_def)
      moreover have "?q \<noteq> p" "i = j \<Longrightarrow> i \<in> set (free_slots sl (shared w))"
        using r False served by (auto simp: returning_def)
      ultimately show ?thesis
        using r u sl by (cases "i = j") (auto simp: returning_def worker_has_def pend_def c)
    qed
  qed
qed

lemma returning_step:
  assumes o: "owned L D sl serve n w" and r: "returning sl p i w" and "worker_step sl serve w w'"
  shows "returning sl p i w'"
  using assms(3) unfolding worker_step_def
proof (elim disjE exE conjE)
  assume "base_step sl serve Bgw w w'"
  then show ?thesis
  proof cases
    case (drain xs s')
    note d = fga_channel_drain_slots_spec [OF owned_wf [OF o] drain(3)]
    have "queued (shared w) = xs @ queued s'" "free_slots sl s' = free_slots sl (shared w)"
      "slot_of s' = slot_of (shared w)" "proc_latch s' = proc_latch (shared w)" using d by blast+
    with r show ?thesis by (auto simp: drain(1,2) returning_def worker_has_def pend_def unheld_def)
  next
    case (claim j rest ok s')
    with returning_claim [OF o r] show ?thesis by simp
  qed
next
  assume "base_step sl serve Rpc w w'"
  then show ?thesis
  proof cases
    case (serve j)
    have "j < slot_count (shared w)" using owned_lists(6) [OF o] serve(2) owned_count [OF o] by auto
    with r serve show ?thesis
      by (cases "i = j") (auto simp: returning_def worker_has_def pend_def unheld_def complete_def)
  qed
next
  fix j rest assume "completed_queue w = j # rest"
    and "w' = w\<lparr>shared := handleResponse sl j (shared w), completed_queue := rest\<rparr>"
  with returning_handle [OF o r] show ?thesis by simp
qed

lemma returning_run:
  "(worker_step sl serve)\<^sup>*\<^sup>* w w' \<Longrightarrow> owned L D sl serve n w \<Longrightarrow> returning sl p i w \<Longrightarrow> returning sl p i w'"
proof (induction arbitrary: L rule: converse_rtranclp_induct)
  case base
  then show ?case by simp
next
  case (step w w1)
  obtain L' where "owned L' D sl serve n w1"
    using step_keeps_owned [OF worker_step_step [OF step.hyps(1)] step.prems(1)] by blast
  with step.IH returning_step [OF step.prems step.hyps(1)] show ?case by blast
qed

lemma terminated_returning:
  assumes o: "owned L D sl serve n w" and h: "holds (phases w p) i" and wh: "worker_has w i"
  shows "returning sl p i (terminated p w)"
proof -
  have i: "i < n" by (rule owned_lists(8) [OF o h])
  have nu: "\<not> unheld w i" using h by (auto simp: unheld_def)
  have "backend_pid (slot_of (shared w) i) = p" if "with_worker D w i st answer" for st answer
    using that nu h by (auto simp: with_worker_def sole_def)
  moreover have "slot_inv L D sl serve w i" using o i by (simp add: owned_def)
  moreover have "i \<notin> L" using listed_not_lost [OF o i] wh by (auto simp: worker_has_def)
  ultimately have "backend_pid (slot_of (shared w) i) = p"
    using wh nu by (auto simp: slot_inv_def worker_has_def split: if_splits)
  moreover have "sole w p i" using owned_awaiting(3) [OF o, of p i] owned_backend(6) [OF o h] by metis
  then have "unheld (terminated p w) i" by (auto simp: unheld_def sole_def terminated_def)
  ultimately show ?thesis using wh by (simp add: returning_def terminated_def worker_has_def pend_def)
qed

section \<open>Properties\<close>


text \<open>The example backend's request, answered by the client and not yet handled by the worker.\<close>

lemma example_due:
  obtains w i where "(life_step list_slist serve)\<^sup>*\<^sup>* example_world w" and "completed_queue w = [i]"
    and "phases w 42 = Awaiting i req" and "drained w = []"
proof -
  obtain i F where free: "free_slots list_slist (shared example_world) = i # F"
    using example_free by (simp add: example_world_def)
  obtain w where w: "(local_step list_slist serve 42)\<^sup>*\<^sup>* example_world w"
    "response_due list_slist serve 2 42 i req example_world w"
    by (rule send_and_serve [OF example_at_rest _ free, of 42 serve req]) simp
  show thesis
    by (rule that [of w i]) (use run_lives [OF local_run_steps [OF w(1)]] w(2) in \<open>simp_all add: response_due_def\<close>)
qed




text \<open>C10: A backend that is terminated while it holds a slot leaves the slot behind. If the worker
  has the request, in the queue, drained, with the client or answered, it returns the slot to the
  pool, provided nobody gets the backend's process id meanwhile. Otherwise, when the backend was
  still filling the slot, or its answer was ready, the slot never becomes free again.\<close>

theorem terminated_backend_slot:
  assumes "initial sl n w0" and "(life_step sl serve)\<^sup>*\<^sup>* w0 w" and "holds (phases w p) i"
  shows "if i \<in> set (queued (shared w)) \<union> set (drained w) \<union> set (inflight w) \<union> set (completed_queue w)
    then \<exists>w'. (worker_step sl serve)\<^sup>*\<^sup>* (terminated p w) w' \<and> work w' = 0 \<and> i \<in> set (free_slots sl (shared w'))
    else \<forall>w'. (life_step sl serve)\<^sup>*\<^sup>* (terminated p w) w' \<longrightarrow> abandoned sl w' i"
proof -
  obtain L D where o: "owned L D sl serve n w" by (rule reachable_life_owned [OF assms(1,2)])
  have i: "i < n" by (rule owned_lists(8) [OF o assms(3)])
  note o' = owned_terminated [OF o assms(3)]
  have "\<exists>w'. (worker_step sl serve)\<^sup>*\<^sup>* (terminated p w) w' \<and> work w' = 0 \<and> i \<in> set (free_slots sl (shared w'))"
    if wh: "worker_has w i"
  proof -
    obtain w' where w': "(worker_step sl serve)\<^sup>*\<^sup>* (terminated p w) w'" "work w' = 0"
      using worker_finishes [OF o'] by blast
    from returning_run [OF w'(1) o' terminated_returning [OF o assms(3) wh]] w'(2)
    have "i \<in> set (free_slots sl (shared w'))" by (auto simp: returning_def worker_has_def work_def pend_def)
    with w' show ?thesis by blast
  qed
  moreover have "abandoned sl w' i" if "\<not> worker_has w i" "(life_step sl serve)\<^sup>*\<^sup>* (terminated p w) w'" for w'
    using lost_for_good [OF o' _ i that(2)] that(1) by simp
  moreover have "worker_has w i \<longleftrightarrow>
      i \<in> set (queued (shared w)) \<union> set (drained w) \<union> set (inflight w) \<union> set (completed_queue w)"
    by (auto simp: worker_has_def pend_def)
  ultimately show ?thesis by simp
qed

theorem terminated_backend_slot_witness:
  "\<exists>w i. (life_step list_slist (answer_all FGA_RESPONSE_OK True))\<^sup>*\<^sup>* example_world w \<and>
     phases w 42 = Served i (request zero_payload) \<and>
     (\<forall>w'. (life_step list_slist (answer_all FGA_RESPONSE_OK True))\<^sup>*\<^sup>* (terminated 42 w) w' \<longrightarrow>
        abandoned list_slist w' i)"
proof -
  obtain w i where w: "(step list_slist (answer_all FGA_RESPONSE_OK True) False)\<^sup>*\<^sup>* example_world w" "work w = 0"
    "phases w = (\<lambda>p. Idle)(42 := Served i (request zero_payload))"
    using initial_can_be_served [OF example_world_initial _ example_world_latch example_world_queue] by force
  then have h: "holds (phases w 42) i" by simp
  from terminated_backend_slot [OF example_world_initial run_lives [OF w(1)] h] w(2)
  have "\<forall>w'. (life_step list_slist (answer_all FGA_RESPONSE_OK True))\<^sup>*\<^sup>* (terminated 42 w) w' \<longrightarrow> abandoned list_slist w' i"
    by (simp add: work_def)
  with run_lives [OF w(1)] w(3) show ?thesis by (intro exI [of _ w] exI [of _ i]) simp
qed

end
