(* ===== verification/Interleaving.thy ===== *)
theory Interleaving
  imports Restart
begin

text \<open>
  The request protocol at the grain of single accesses. \<open>Protocol\<close> takes the catch block of a
  cancelled wait and the handling of a response as one step each. In the code the catch block of
  \<open>wait_response\<close> (\<open>src/channel.c\<close>) reads the slot's state, then acts on what it read, then writes
  the slot's \<open>backend_pid\<close>; \<open>handleResponse\<close> (\<open>src/bgw/processor.cpp\<close>) reads the state, then writes
  DONE, then wakes the process \<open>backend_pid\<close> names. Here these are steps of their own, between
  which everyone else may run.

  Without cancels the finer relation is simulated by the coarser one, and all its guarantees hold,
  also while processes come and go as in \<open>Restart\<close>. With cancels they do not: \<open>Races\<close> has runs in which
  one cancelled check loses a slot, makes the worker release a free slot, or gives a backend the
  answer to another backend's request.
\<close>

section \<open>The parts of the two operations\<close>

definition catch_act :: "'l slist_ops \<Rightarrow> nat \<Rightarrow> FgaChannelSlotState \<Rightarrow> 'l FgaState \<Rightarrow> 'l FgaState" where
  "catch_act sl i cur s =
     (if cur = FGA_CHANNEL_SLOT_PENDING \<or> cur = FGA_CHANNEL_SLOT_PROCESSING
      then set_slot i (\<lambda>slot. slot\<lparr>slot_state := FGA_CHANNEL_SLOT_CANCELED\<rparr>) s
      else if cur = FGA_CHANNEL_SLOT_DONE then fga_channel_release_slot sl i s
      else s)"

definition catch_leave :: "nat \<Rightarrow> 'l FgaState \<Rightarrow> 'l FgaState" where
  "catch_leave i = set_slot i (\<lambda>slot. slot\<lparr>backend_pid := InvalidPid\<rparr>)"

text \<open>Run without a pause they are the operations of \<open>Channel\<close> and \<open>Processor\<close>.\<close>

lemma wait_catch_parts:
  "wait_catch sl i s = catch_leave i (catch_act sl i (slot_state (slot_of s i)) s)"
  by (simp add: wait_catch_def catch_leave_def catch_act_def Let_def)

lemma handleResponse_parts:
  "handleResponse sl i s =
    (if slot_state (slot_of s i) = FGA_CHANNEL_SLOT_CANCELED then fga_channel_release_slot sl i s
     else wakeBackend sl i (slot_state_set i FGA_CHANNEL_SLOT_DONE s))"
  by (simp add: handleResponse_def)

section \<open>Steps\<close>

text \<open>A backend in the catch block has read the state, or has acted on it. \<open>handling\<close> is the slot
  the worker is at in \<open>handleResponse\<close>, and whether it has written DONE.\<close>

datatype catch = Read nat FgaChannelSlotState | Acted nat

record 'l fine =
  world_of :: "'l world"
  catchers :: "int \<Rightarrow> catch option"
  handling :: "(nat \<times> bool) option"

abbreviation fine_at :: "'l world \<Rightarrow> (int \<Rightarrow> catch option) \<Rightarrow> (nat \<times> bool) option \<Rightarrow> 'l fine" where
  "fine_at w c h \<equiv> \<lparr>world_of = w, catchers = c, handling = h\<rparr>"

inductive fine_step ::
  "'l slist_ops \<Rightarrow> (FgaRequest \<Rightarrow> FgaResponse \<Rightarrow> FgaResponse) \<Rightarrow> bool \<Rightarrow> 'l fine \<Rightarrow> 'l fine \<Rightarrow> bool"
  for sl serve cancels where
  calm: "base_step sl serve a (world_of f) w' \<Longrightarrow> \<forall>p. a = Backend p \<longrightarrow> catchers f p = None \<Longrightarrow>
     a = Bgw \<longrightarrow> handling f = None \<Longrightarrow> fine_step sl serve cancels f (f\<lparr>world_of := w'\<rparr>)"
| cancel_read: "cancels \<Longrightarrow> w = world_of f \<Longrightarrow> phases w p = Awaiting i req \<Longrightarrow> catchers f p = None \<Longrightarrow>
     fine_step sl serve cancels f (f\<lparr>world_of := w\<lparr>phases := (phases w)(p := Idle)\<rparr>,
       catchers := (catchers f)(p \<mapsto> Read i (slot_state (slot_of (shared w) i)))\<rparr>)"
| cancel_act: "w = world_of f \<Longrightarrow> catchers f p = Some (Read i cur) \<Longrightarrow>
     fine_step sl serve cancels f (f\<lparr>world_of := w\<lparr>shared := catch_act sl i cur (shared w)\<rparr>,
       catchers := (catchers f)(p \<mapsto> Acted i)\<rparr>)"
| cancel_leave: "w = world_of f \<Longrightarrow> catchers f p = Some (Acted i) \<Longrightarrow>
     fine_step sl serve cancels f (f\<lparr>world_of := w\<lparr>shared := catch_leave i (shared w)\<rparr>,
       catchers := (catchers f)(p := None)\<rparr>)"
| handle_read: "w = world_of f \<Longrightarrow> handling f = None \<Longrightarrow> completed_queue w = i # rest \<Longrightarrow>
     slot_state (slot_of (shared w) i) \<noteq> FGA_CHANNEL_SLOT_CANCELED \<Longrightarrow>
     fine_step sl serve cancels f (f\<lparr>world_of := w\<lparr>completed_queue := rest\<rparr>, handling := Some (i, False)\<rparr>)"
| handle_canceled: "w = world_of f \<Longrightarrow> handling f = None \<Longrightarrow> completed_queue w = i # rest \<Longrightarrow>
     slot_state (slot_of (shared w) i) = FGA_CHANNEL_SLOT_CANCELED \<Longrightarrow>
     fine_step sl serve cancels f (f\<lparr>world_of := w\<lparr>shared := fga_channel_release_slot sl i (shared w),
       completed_queue := rest\<rparr>\<rparr>)"
| handle_done: "w = world_of f \<Longrightarrow> handling f = Some (i, False) \<Longrightarrow>
     fine_step sl serve cancels f (f\<lparr>world_of := w\<lparr>shared := slot_state_set i FGA_CHANNEL_SLOT_DONE (shared w)\<rparr>,
       handling := Some (i, True)\<rparr>)"
| handle_wake: "w = world_of f \<Longrightarrow> handling f = Some (i, True) \<Longrightarrow>
     fine_step sl serve cancels f (f\<lparr>world_of := w\<lparr>shared := wakeBackend sl i (shared w)\<rparr>, handling := None\<rparr>)"

definition calm_world :: "'l world \<Rightarrow> 'l fine" where
  "calm_world w = fine_at w (\<lambda>p. None) None"

lemma fine_cancel_read:
  assumes "phases w p = Awaiting i req" and "c p = None"
  shows "fine_step sl serve True (fine_at w c h) (fine_at (w\<lparr>phases := (phases w)(p := Idle)\<rparr>)
    (c(p \<mapsto> Read i (slot_state (slot_of (shared w) i)))) h)"
  using fine_step.cancel_read [of True w "fine_at w c h" p i req sl serve] assms by simp

lemma fine_cancel_act:
  assumes "c p = Some (Read i cur)"
  shows "fine_step sl serve cancels (fine_at w c h)
    (fine_at (w\<lparr>shared := catch_act sl i cur (shared w)\<rparr>) (c(p \<mapsto> Acted i)) h)"
  using fine_step.cancel_act [of w "fine_at w c h" p i cur sl serve cancels] assms by simp

lemma fine_cancel_leave:
  assumes "c p = Some (Acted i)"
  shows "fine_step sl serve cancels (fine_at w c h)
    (fine_at (w\<lparr>shared := catch_leave i (shared w)\<rparr>) (c(p := None)) h)"
  using fine_step.cancel_leave [of w "fine_at w c h" p i sl serve cancels] assms by simp

lemma fine_wake:
  "fine_step sl serve cancels (fine_at w c (Some (i, True))) (fine_at (w\<lparr>shared := wakeBackend sl i (shared w)\<rparr>) c None)"
  using fine_step.handle_wake [of w "fine_at w c (Some (i, True))" i sl serve cancels] by simp

text \<open>The worker writes DONE, whatever the slot's state has become since it read it.\<close>

lemma fine_done:
  assumes "completed_queue w = i # rest" and "slot_state (slot_of (shared w) i) \<noteq> FGA_CHANNEL_SLOT_CANCELED"
  shows "(fine_step sl serve cancels)\<^sup>*\<^sup>* (fine_at w c None) (fine_at (w\<lparr>completed_queue := rest,
    shared := slot_state_set i FGA_CHANNEL_SLOT_DONE (shared w)\<rparr>) c (Some (i, True)))"
proof -
  let ?w1 = "w\<lparr>completed_queue := rest\<rparr>"
  have "fine_step sl serve cancels (fine_at w c None) (fine_at ?w1 c (Some (i, False)))"
    using fine_step.handle_read [of w "fine_at w c None" i rest sl serve cancels] assms by simp
  moreover have "fine_step sl serve cancels (fine_at ?w1 c (Some (i, False)))
      (fine_at (?w1\<lparr>shared := slot_state_set i FGA_CHANNEL_SLOT_DONE (shared w)\<rparr>) c (Some (i, True)))"
    using fine_step.handle_done [of ?w1 "fine_at ?w1 c (Some (i, False))" i sl serve cancels] by simp
  ultimately show ?thesis by (meson converse_rtranclp_into_rtranclp rtranclp.rtrancl_refl)
qed

lemma fine_calm:
  "base_step sl serve (Backend p) w w' \<Longrightarrow> c p = None \<Longrightarrow>
    fine_step sl serve cancels (fine_at w c h) (fine_at w' c h)"
  using fine_step.calm [of sl serve "Backend p" "fine_at w c h" w' cancels] by simp

text \<open>The steps of a backend out of its catch block, of the worker between two responses, and of the
  client are steps of the finer relation.\<close>

lemma fine_local:
  "(local_step sl serve p)\<^sup>*\<^sup>* w w' \<Longrightarrow> c p = None \<Longrightarrow>
    (fine_step sl serve cancels)\<^sup>*\<^sup>* (fine_at w c None) (fine_at w' c None)"
proof (induction rule: rtranclp_induct)
  case base
  show ?case by simp
next
  case (step w1 w2)
  from step.hyps(2) obtain a where a: "a \<in> {Backend p, Bgw, Rpc}" "base_step sl serve a w1 w2"
    by (auto simp: local_step_def)
  have "fine_step sl serve cancels (fine_at w1 c None) (fine_at w2 c None)"
    using fine_step.calm [of sl serve a "fine_at w1 c None" w2 cancels] a step.prems by auto
  with step.IH [OF step.prems] show ?case by (rule rtranclp.rtrancl_into_rtrancl)
qed

section \<open>Every run of the coarser relation is one of the finer\<close>

text \<open>A relation that simulates another step by step simulates its runs.\<close>

locale simulation =
  fixes astep :: "'a \<Rightarrow> 'a \<Rightarrow> bool"
    and cstep :: "'c \<Rightarrow> 'c \<Rightarrow> bool"
    and rel :: "'c \<Rightarrow> 'a \<Rightarrow> bool"
  assumes sim: "rel c a \<Longrightarrow> cstep c c' \<Longrightarrow> \<exists>a'. astep\<^sup>*\<^sup>* a a' \<and> rel c' a'"
begin

lemma sim_run: "cstep\<^sup>*\<^sup>* c c' \<Longrightarrow> rel c a \<Longrightarrow> \<exists>a'. astep\<^sup>*\<^sup>* a a' \<and> rel c' a'"
proof (induction rule: rtranclp_induct)
  case base
  then show ?case by blast
next
  case (step c1 c2)
  then obtain a1 where a1: "astep\<^sup>*\<^sup>* a a1" "rel c1 a1" by blast
  with sim [OF a1(2) step.hyps(2)] show ?case by (meson rtranclp_trans)
qed

end

lemma fine_interrupt:
  assumes "phases w p = Awaiting i req"
  shows "(fine_step sl serve True)\<^sup>*\<^sup>* (calm_world w)
    (calm_world (w\<lparr>shared := wait_catch sl i (shared w), phases := (phases w)(p := Idle)\<rparr>))"
proof -
  let ?step = "fine_step sl serve True" and ?cur = "slot_state (slot_of (shared w) i)"
  let ?w1 = "w\<lparr>phases := (phases w)(p := Idle)\<rparr>"
  let ?w2 = "?w1\<lparr>shared := catch_act sl i ?cur (shared w)\<rparr>"
  let ?w3 = "?w2\<lparr>shared := catch_leave i (catch_act sl i ?cur (shared w))\<rparr>"
  have "?step (calm_world w) (fine_at ?w1 (Map.empty(p \<mapsto> Read i ?cur)) None)"
    unfolding calm_world_def by (rule fine_cancel_read) (simp_all add: assms)
  moreover have "?step (fine_at ?w1 (Map.empty(p \<mapsto> Read i ?cur)) None) (fine_at ?w2 (Map.empty(p \<mapsto> Acted i)) None)"
    using fine_cancel_act [of "Map.empty(p \<mapsto> Read i ?cur)" p i ?cur sl serve True ?w1 None] by simp
  moreover have "?step (fine_at ?w2 (Map.empty(p \<mapsto> Acted i)) None) (calm_world ?w3)"
    using fine_cancel_leave [of "Map.empty(p \<mapsto> Acted i)" p i sl serve True ?w2 None] by (simp add: calm_world_def)
  moreover have "?w3 = w\<lparr>shared := wait_catch sl i (shared w), phases := (phases w)(p := Idle)\<rparr>"
    by (cases w) (simp add: wait_catch_parts)
  ultimately have "?step\<^sup>*\<^sup>* (calm_world w) (calm_world ?w3)"
    and eq: "?w3 = w\<lparr>shared := wait_catch sl i (shared w), phases := (phases w)(p := Idle)\<rparr>"
    by (meson converse_rtranclp_into_rtranclp rtranclp.rtrancl_refl)+
  then show ?thesis unfolding eq by blast
qed

lemma fine_handle:
  assumes "completed_queue w = i # rest"
  shows "(fine_step sl serve cancels)\<^sup>*\<^sup>* (calm_world w)
    (calm_world (w\<lparr>shared := handleResponse sl i (shared w), completed_queue := rest\<rparr>))"
proof (cases "slot_state (slot_of (shared w) i) = FGA_CHANNEL_SLOT_CANCELED")
  case True
  with assms fine_step.handle_canceled [of w "calm_world w" i rest sl serve cancels] show ?thesis
    by (intro r_into_rtranclp) (simp add: calm_world_def handleResponse_parts)
next
  case False
  let ?w1 = "w\<lparr>completed_queue := rest, shared := slot_state_set i FGA_CHANNEL_SLOT_DONE (shared w)\<rparr>"
  have "(fine_step sl serve cancels)\<^sup>*\<^sup>* (calm_world w) (fine_at ?w1 (\<lambda>p. None) (Some (i, True)))"
    unfolding calm_world_def by (rule fine_done [OF assms False])
  moreover have "fine_step sl serve cancels (fine_at ?w1 (\<lambda>p. None) (Some (i, True)))
      (calm_world (?w1\<lparr>shared := wakeBackend sl i (shared ?w1)\<rparr>))"
    unfolding calm_world_def by (rule fine_wake)
  moreover have "?w1\<lparr>shared := wakeBackend sl i (shared ?w1)\<rparr> =
      w\<lparr>shared := handleResponse sl i (shared w), completed_queue := rest\<rparr>"
    using False by (cases w) (simp add: handleResponse_parts)
  ultimately show ?thesis by (metis rtranclp.rtrancl_into_rtrancl)
qed

lemma fine_base:
  "base_step sl serve a w w' \<Longrightarrow> fine_step sl serve cancels (calm_world w) (calm_world w')"
  using fine_step.calm [of sl serve a "calm_world w" w' cancels] by (simp add: calm_world_def)

interpretation coarse_runs: simulation "fine_step sl serve True" "step sl serve False" "\<lambda>w f. f = calm_world w"
  for sl :: "'l slist_ops" and serve
proof (unfold_locales, goal_cases)
  case (1 w f w')
  from 1(2) have "(fine_step sl serve True)\<^sup>*\<^sup>* (calm_world w) (calm_world w')"
    by (cases rule: step.cases) (auto intro: fine_interrupt fine_handle r_into_rtranclp fine_base)
  with 1(1) show ?case by blast
qed

lemma coarse_run_is_fine:
  "(step sl serve False)\<^sup>*\<^sup>* w w' \<Longrightarrow> (fine_step sl serve True)\<^sup>*\<^sup>* (calm_world w) (calm_world w')"
  using coarse_runs.sim_run by blast

section \<open>Without cancels the coarser relation simulates the finer\<close>

text \<open>The coarser world that goes with a finer one: the response being handled is still in the
  completed queue until DONE is written, and the latches may have other values.\<close>

definition ahead :: "(int \<Rightarrow> bool option) \<Rightarrow> nat list \<Rightarrow> 'l world \<Rightarrow> 'l world" where
  "ahead L pre w = w\<lparr>shared := (shared w)\<lparr>proc_latch := L\<rparr>, completed_queue := pre @ completed_queue w\<rparr>"

lemma ahead_simps [simp]:
  "channel (shared (ahead L pre w)) = channel (shared w)" "bgw_latch (shared (ahead L pre w)) = bgw_latch (shared w)"
  "proc_latch (shared (ahead L pre w)) = L" "phases (ahead L pre w) = phases w"
  "drained (ahead L pre w) = drained w" "inflight (ahead L pre w) = inflight w"
  "completed_queue (ahead L pre w) = pre @ completed_queue w"
  "slot_of (shared (ahead L pre w)) = slot_of (shared w)"
  "free_slots sl (shared (ahead L pre w)) = free_slots sl (shared w)"
  "queued (shared (ahead L pre w)) = queued (shared w)"
  by (simp_all add: ahead_def slot_of_def free_slots_def queued_def fun_eq_iff)

lemma set_slot_latch: "set_slot i f (s\<lparr>proc_latch := L\<rparr>) = (set_slot i f s)\<lparr>proc_latch := L\<rparr>"
  by (cases s) (simp add: set_slot_def on_pool_def)

lemma release_latch:
  "fga_channel_release_slot sl i (s\<lparr>proc_latch := L\<rparr>) = (fga_channel_release_slot sl i s)\<lparr>proc_latch := L\<rparr>"
  by (cases s) (simp add: fga_channel_release_slot_def on_pool_def)

lemma acquire_latch:
  "fga_channel_acquire_slot sl p (s\<lparr>proc_latch := L\<rparr>) =
    (case fga_channel_acquire_slot sl p s of (r, s') \<Rightarrow> (r, s'\<lparr>proc_latch := L\<rparr>))"
  by (cases s) (auto simp: fga_channel_acquire_slot_def Let_def on_pool_def set_slot_def split: option.splits prod.splits)

lemma drain_latch:
  "fga_channel_drain_slots m (s\<lparr>proc_latch := L\<rparr>) =
    (case fga_channel_drain_slots m s of (xs, s') \<Rightarrow> (xs, s'\<lparr>proc_latch := L\<rparr>))"
  by (cases s) (auto simp: fga_channel_drain_slots_def Let_def put_queue_def split: prod.splits)

lemma begin_latch:
  "beginProcessing sl i (s\<lparr>proc_latch := L\<rparr>) =
    (case beginProcessing sl i s of (ok, s') \<Rightarrow> (ok, s'\<lparr>proc_latch := L\<rparr>))"
  by (simp add: beginProcessing_def slot_state_set_def set_slot_latch release_latch slot_of_def)

lemma wake_bgw_latch:
  "fga_wake_bgw (put_queue q (s\<lparr>proc_latch := L\<rparr>)) =
    (case fga_wake_bgw (put_queue q s) of (r, s') \<Rightarrow> (r, s'\<lparr>proc_latch := L\<rparr>))"
  by (cases s) (auto simp: fga_wake_bgw_def put_queue_def split: option.splits)

lemmas latch_commutes = set_slot_latch release_latch acquire_latch drain_latch begin_latch wake_bgw_latch

text \<open>The steps the two relations share depend on the latches only by which of them exist.\<close>

lemma base_step_latches:
  assumes "base_step sl serve a w w'"
  shows "dom (proc_latch (shared w)) \<subseteq> dom (proc_latch (shared w'))"
  using assms
proof cases
  case (acquire p i s')
  then show ?thesis
    by (auto simp: fga_channel_acquire_slot_def Let_def on_pool_def set_slot_def split: option.splits prod.splits)
next
  case (enqueue p i q s')
  then show ?thesis by (auto simp: fga_wake_bgw_def put_queue_def split: option.splits)
next
  case (drain xs s')
  then show ?thesis by (auto simp: fga_channel_drain_slots_def Let_def split: prod.splits)
next
  case (claim i rest ok s')
  then show ?thesis by (auto simp: beginProcessing_def slot_state_set_def split: if_splits)
qed (auto simp: put_request_def reset_latch_def complete_def)

lemma backend_ahead:
  assumes "base_step sl serve a w w'" and "dom L = dom (proc_latch (shared w))" and "a = Backend q"
  shows "\<exists>L'. dom L' = dom (proc_latch (shared w')) \<and> base_step sl serve a (ahead L pre w) (ahead L' pre w')"
  using assms(1)
proof cases
  case (acquire p i s')
  have "L p \<noteq> None" using acquire(4) assms(2) by (auto simp: set_eq_iff)
  moreover have "fga_channel_acquire_slot sl p (shared (ahead L pre w)) = (Inr i, s'\<lparr>proc_latch := L\<rparr>)"
    using acquire(5) by (simp add: ahead_def latch_commutes)
  ultimately have "base_step sl serve a (ahead L pre w) (ahead L pre w')"
    using base_step.acquire [of "ahead L pre w" p sl i "s'\<lparr>proc_latch := L\<rparr>" serve] acquire(1-3)
    by (cases w) (simp add: ahead_def)
  moreover have "proc_latch s' = proc_latch (shared w)"
    using acquire(5) by (auto simp: fga_channel_acquire_slot_def Let_def on_pool_def set_slot_def split: option.splits prod.splits)
  ultimately show ?thesis using assms(2) acquire(2) by (intro exI [of _ L]) simp
next
  case (fill p i req)
  then have "base_step sl serve a (ahead L pre w) (ahead L pre w')"
    using base_step.fill [of "ahead L pre w" p i sl serve req]
    by (cases w) (simp add: ahead_def put_request_def latch_commutes)
  then show ?thesis using assms(2) fill(2) by (intro exI [of _ L]) simp
next
  case (enqueue p i q s')
  then have "base_step sl serve a (ahead L pre w) (ahead L pre w')"
    using base_step.enqueue [of "ahead L pre w" p i q "s'\<lparr>proc_latch := L\<rparr>" sl serve]
    by (cases w) (simp add: ahead_def latch_commutes slot_of_def)
  moreover have "proc_latch s' = proc_latch (shared w)"
    using enqueue(5) by (auto simp: fga_wake_bgw_def put_queue_def split: option.splits)
  ultimately show ?thesis using assms(2) enqueue(2) by (intro exI [of _ L]) simp
next
  case (queue_full p i q)
  then have "base_step sl serve a (ahead L pre w) (ahead L pre w')"
    using base_step.queue_full [of "ahead L pre w" p i q sl serve]
    by (cases w) (simp add: ahead_def latch_commutes)
  then show ?thesis using assms(2) queue_full(2) by (intro exI [of _ L]) simp
next
  case (wake_up p i req)
  then have "base_step sl serve a (ahead L pre w) (ahead (L(p \<mapsto> False)) pre w')"
    using base_step.wake_up [of "ahead L pre w" p i req sl serve]
    by (cases w) (simp add: ahead_def reset_latch_def)
  then show ?thesis using assms(2) wake_up(2) by (intro exI [of _ "L(p \<mapsto> False)"]) (simp add: reset_latch_def)
next
  case (answered p i req)
  then have "base_step sl serve a (ahead L pre w) (ahead L pre w')"
    using base_step.answered [of "ahead L pre w" p i req sl serve]
    by (cases w) (simp add: ahead_def slot_of_def)
  then show ?thesis using assms(2) answered(2) by (intro exI [of _ L]) simp
next
  case (release p i req)
  then have "base_step sl serve a (ahead L pre w) (ahead L pre w')"
    using base_step.release [of "ahead L pre w" p i req sl serve]
    by (cases w) (simp add: ahead_def latch_commutes)
  then show ?thesis using assms(2) release(2) by (intro exI [of _ L]) simp
qed (use assms(3) in simp_all)

lemma worker_ahead:
  assumes "base_step sl serve a w w'" and "dom L = dom (proc_latch (shared w))" and "a \<in> {Bgw, Rpc}"
  shows "\<exists>L'. dom L' = dom (proc_latch (shared w')) \<and> base_step sl serve a (ahead L pre w) (ahead L' pre w')"
  using assms(1)
proof cases
  case (drain xs s')
  then have "base_step sl serve a (ahead L pre w) (ahead L pre w')"
    using base_step.drain [of "ahead L pre w" xs "s'\<lparr>proc_latch := L\<rparr>" sl serve]
    by (cases w) (simp add: ahead_def latch_commutes)
  moreover have "proc_latch s' = proc_latch (shared w)"
    using drain(4) by (auto simp: fga_channel_drain_slots_def Let_def split: prod.splits)
  ultimately show ?thesis using assms(2) drain(2) by (intro exI [of _ L]) simp
next
  case (claim i rest ok s')
  then have "base_step sl serve a (ahead L pre w) (ahead L pre w')"
    using base_step.claim [of "ahead L pre w" i rest sl ok "s'\<lparr>proc_latch := L\<rparr>" serve]
    by (cases w; cases ok) (simp_all add: ahead_def latch_commutes)
  moreover have "proc_latch s' = proc_latch (shared w)"
    using claim(4) by (auto simp: beginProcessing_def slot_state_set_def split: if_splits)
  ultimately show ?thesis using assms(2) claim(2) by (intro exI [of _ L]) simp
next
  case (serve i)
  then have "base_step sl serve a (ahead L pre w) (ahead L pre w')"
    using base_step.serve [of i "ahead L pre w" sl serve]
    by (cases w) (simp add: ahead_def complete_def latch_commutes)
  then show ?thesis using assms(2) serve(2) by (intro exI [of _ L]) (simp add: complete_def)
qed (use assms(3) in simp_all)

lemma base_step_ahead:
  assumes "base_step sl serve a w w'" and "dom L = dom (proc_latch (shared w))"
  shows "\<exists>L'. dom L' = dom (proc_latch (shared w')) \<and> base_step sl serve a (ahead L pre w) (ahead L' pre w')"
  by (cases a) (use backend_ahead [OF assms] worker_ahead [OF assms] in blast)+

text \<open>What a shared step does to a slot: no state becomes CANCELED, and a new \<open>backend_pid\<close> is that
  of a running backend.\<close>

lemma base_step_slot:
  assumes "base_step sl serve a w w'" and o: "owned S {} sl serve n w" and i: "i < n"
  shows "slot_state (slot_of (shared w') i) \<in>
      {slot_state (slot_of (shared w) i), FGA_CHANNEL_SLOT_EMPTY, FGA_CHANNEL_SLOT_PENDING, FGA_CHANNEL_SLOT_PROCESSING} \<and>
    (backend_pid (slot_of (shared w') i) = backend_pid (slot_of (shared w) i) \<or>
     proc_latch (shared w') (backend_pid (slot_of (shared w') i)) \<noteq> None)"
  using assms(1)
proof cases
  case (acquire p j s')
  with fga_channel_acquire_slot_spec [OF owned_wf [OF o] acquire(5)] show ?thesis
    by (auto simp: fresh_slot_def)
next
  case (fill p j req)
  then show ?thesis using owned_count [OF o] owned_lists(8) [OF o, of p j] by (simp add: put_request_def)
next
  case (enqueue p j q s')
  then have "slot_of s' = slot_of (shared w)"
    by (auto simp: fga_wake_bgw_def split: option.splits)
  with enqueue(2) show ?thesis by simp
next
  case (queue_full p j q)
  then show ?thesis using owned_count [OF o] owned_lists(8) [OF o, of p j] by (simp add: slot_of_release)
next
  case (wake_up p j req)
  then show ?thesis by simp
next
  case (answered p j req)
  then show ?thesis by simp
next
  case (release p j req)
  then show ?thesis using owned_count [OF o] owned_lists(8) [OF o, of p j] by (simp add: slot_of_release)
next
  case (drain xs s')
  then have "slot_of s' = slot_of (shared w)"
    using fga_channel_drain_slots_spec [OF owned_wf [OF o] drain(4)] by blast
  with drain(2) show ?thesis by simp
next
  case (claim j rest ok s')
  then show ?thesis
    using owned_count [OF o] owned_lists(5) [OF o]
    by (auto simp: beginProcessing_def slot_state_set_def slot_of_release pend_def split: if_splits)
next
  case (serve j)
  have "j < slot_count (shared w)" using owned_count [OF o] owned_lists(6) [OF o] serve(3) by auto
  with serve(2) show ?thesis by (simp add: complete_def)
qed

text \<open>The simulation relation: nobody is in a catch block, no slot is CANCELED, and the process that
  the worker is about to wake exists.\<close>

definition follows :: "nat set \<Rightarrow> 'l slist_ops \<Rightarrow> (FgaRequest \<Rightarrow> FgaResponse \<Rightarrow> FgaResponse) \<Rightarrow> nat \<Rightarrow> 'l fine \<Rightarrow> 'l world \<Rightarrow> bool" where
  "follows S sl serve n f w \<longleftrightarrow> owned S {} sl serve n w \<and> catchers f = (\<lambda>p. None) \<and>
     (\<exists>L. dom L = dom (proc_latch (shared (world_of f))) \<and>
        w = ahead L (case handling f of Some (i, False) \<Rightarrow> [i] | _ \<Rightarrow> []) (world_of f)) \<and>
     (\<forall>i < n. slot_state (slot_of (shared w) i) \<noteq> FGA_CHANNEL_SLOT_CANCELED) \<and>
     (\<forall>i. handling f = Some (i, True) \<longrightarrow> i < n \<and>
        proc_latch (shared w) (backend_pid (slot_of (shared w) i)) \<noteq> None)"

lemma followsI:
  assumes "owned S {} sl serve n w" and "catchers f = (\<lambda>p. None)" and "dom L = dom (proc_latch (shared (world_of f)))"
    and "w = ahead L (case handling f of Some (i, False) \<Rightarrow> [i] | _ \<Rightarrow> []) (world_of f)"
    and "\<And>i. i < n \<Longrightarrow> slot_state (slot_of (shared w) i) \<noteq> FGA_CHANNEL_SLOT_CANCELED"
    and "\<And>i. handling f = Some (i, True) \<Longrightarrow> i < n \<and> proc_latch (shared w) (backend_pid (slot_of (shared w) i)) \<noteq> None"
  shows "follows S sl serve n f w"
  using assms unfolding follows_def by blast

lemma follows_views:
  assumes "follows S sl serve n f w"
  shows "slot_of (shared (world_of f)) = slot_of (shared w)" and "phases (world_of f) = phases w"
    and "free_slots sl (shared (world_of f)) = free_slots sl (shared w)"
    and "queued (shared (world_of f)) = queued (shared w)" and "drained (world_of f) = drained w"
    and "inflight (world_of f) = inflight w"
    and "handling f = None \<Longrightarrow> completed_queue (world_of f) = completed_queue w"
  using assms by (auto simp: follows_def)

lemma follows_base:
  assumes f: "follows S sl serve n f w" and st: "base_step sl serve a (world_of f) w1"
  shows "\<exists>w'. step sl serve False w w' \<and> follows S sl serve n (f\<lparr>world_of := w1\<rparr>) w'"
proof -
  let ?pre = "case handling f of Some (i, False) \<Rightarrow> [i] | _ \<Rightarrow> []"
  obtain L where L: "dom L = dom (proc_latch (shared (world_of f)))" "w = ahead L ?pre (world_of f)"
    using f by (auto simp: follows_def)
  obtain L' where L': "dom L' = dom (proc_latch (shared w1))"
    and st': "base_step sl serve a w (ahead L' ?pre w1)"
    using base_step_ahead [OF st L(1)] unfolding L(2) by blast
  have o: "owned S {} sl serve n w" using f by (simp add: follows_def)
  let ?w = "ahead L' ?pre w1"
  have o': "owned S {} sl serve n ?w" by (rule base_step_owned [OF st' o])
  have "slot_state (slot_of (shared ?w) i) \<noteq> FGA_CHANNEL_SLOT_CANCELED" if "i < n" for i
    using base_step_slot [OF st' o that] f that by (auto simp: follows_def)
  moreover have "proc_latch (shared ?w) (backend_pid (slot_of (shared ?w) i)) \<noteq> None"
    if "handling f = Some (i, True)" for i
  proof -
    have i: "i < n" "proc_latch (shared w) (backend_pid (slot_of (shared w) i)) \<noteq> None"
      using f that by (auto simp: follows_def)
    moreover have "dom (proc_latch (shared w)) \<subseteq> dom (proc_latch (shared ?w))"
      using base_step_latches [OF st'] .
    ultimately show ?thesis using base_step_slot [OF st' o i(1)] by auto
  qed
  ultimately have "follows S sl serve n (f\<lparr>world_of := w1\<rparr>) ?w"
    using f o' L'(1) by (auto simp: follows_def)
  with step.base [OF st'] show ?thesis by blast
qed

text \<open>Writing DONE is the coarser step of handling the response.\<close>

lemma handle_response_answered:
  assumes o: "owned S {} sl serve n w" and c: "completed_queue w = i # rest"
    and nc: "slot_state (slot_of (shared w) i) \<noteq> FGA_CHANNEL_SLOT_CANCELED"
  shows "i < n \<and> proc_latch (shared w) (backend_pid (slot_of (shared w) i)) \<noteq> None \<and>
    handleResponse sl i (shared w) = (slot_state_set i FGA_CHANNEL_SLOT_DONE (shared w))
      \<lparr>proc_latch := (proc_latch (shared w))(backend_pid (slot_of (shared w) i) \<mapsto> True)\<rparr>"
proof -
  have i: "i < n" using owned_lists(7) [OF o] c by simp
  have cnt: "i < slot_count (shared w)" using owned_count [OF o] i by simp
  have "slot_inv S {} sl serve w i" using o i by (simp add: owned_def)
  with c nc listed_not_lost [OF o i] have lat: "proc_latch (shared w) (backend_pid (slot_of (shared w) i)) \<noteq> None"
    by (auto simp: slot_inv_def with_worker_def split: if_splits)
  have pid: "backend_pid (slot_of (slot_state_set i FGA_CHANNEL_SLOT_DONE (shared w)) i) =
      backend_pid (slot_of (shared w) i)"
    using cnt by (simp add: slot_state_set_def)
  have pl: "proc_latch (slot_state_set i FGA_CHANNEL_SLOT_DONE (shared w)) = proc_latch (shared w)"
    by (simp add: slot_state_set_def)
  from lat obtain b where "proc_latch (shared w) (backend_pid (slot_of (shared w) i)) = Some b" by blast
  then have "handleResponse sl i (shared w) = (slot_state_set i FGA_CHANNEL_SLOT_DONE (shared w))
      \<lparr>proc_latch := (proc_latch (shared w))(backend_pid (slot_of (shared w) i) \<mapsto> True)\<rparr>"
    using nc by (simp add: handleResponse_def wakeBackend_def fga_channel_wake_backend_def Let_def pid pl)
  with i lat show ?thesis by blast
qed

text \<open>Writing DONE is where the answer counts as handled; the wake-up after it is already in \<open>w\<close>.\<close>

lemma follows_done:
  assumes f: "follows S sl serve n f w"
    and fin: "f' = f\<lparr>world_of := w1\<lparr>shared := slot_state_set i FGA_CHANNEL_SLOT_DONE (shared w1)\<rparr>, handling := Some (i, True)\<rparr>"
      "world_of f = w1" "handling f = Some (i, False)"
  shows "\<exists>w'. (step sl serve False)\<^sup>*\<^sup>* w w' \<and> follows S sl serve n f' w'"
proof -
  obtain L where L: "dom L = dom (proc_latch (shared (world_of f)))" "w = ahead L [i] (world_of f)"
    using f fin(3) by (auto simp: follows_def)
  have o: "owned S {} sl serve n w" using f by (simp add: follows_def)
  have c: "completed_queue w = i # completed_queue w1" using L fin(2) by simp
  have "i < n" using owned_lists(7) [OF o] c by simp
  then have nc: "slot_state (slot_of (shared w) i) \<noteq> FGA_CHANNEL_SLOT_CANCELED" using f by (simp add: follows_def)
  note h = handle_response_answered [OF o c nc]
  let ?pid = "backend_pid (slot_of (shared w) i)"
  let ?w = "w\<lparr>shared := handleResponse sl i (shared w), completed_queue := completed_queue w1\<rparr>"
  have st: "step sl serve False w ?w" by (rule step.handle [OF c])
  have o': "owned S {} sl serve n ?w" by (rule step_owned [OF st o])
  have "?w = ahead (L(?pid \<mapsto> True)) [] (world_of f')"
    using h fin(1,2) L(2) by (cases w1) (simp add: ahead_def slot_state_set_def set_slot_latch)
  moreover have "dom (L(?pid \<mapsto> True)) = dom (proc_latch (shared (world_of f')))"
    using h L fin(1,2) by (auto simp: slot_state_set_def)
  ultimately have ex: "\<exists>L. dom L = dom (proc_latch (shared (world_of f'))) \<and> ?w = ahead L [] (world_of f')"
    by blast
  have hd: "handling f' = Some (i, True)" "catchers f' = (\<lambda>p. None)"
    using f fin(1) by (simp_all add: follows_def)
  have slots: "slot_of (shared ?w) = (slot_of (shared w))(i := (slot_of (shared w) i)\<lparr>slot_state := FGA_CHANNEL_SLOT_DONE\<rparr>)"
    using h owned_count [OF o] by (auto simp: slot_state_set_def fun_eq_iff)
  have "slot_state (slot_of (shared ?w) j) \<noteq> FGA_CHANNEL_SLOT_CANCELED" if "j < n" for j
    using f that unfolding slots by (simp add: follows_def)
  moreover have "proc_latch (shared ?w) (backend_pid (slot_of (shared ?w) i)) \<noteq> None"
    unfolding slots using h by simp
  ultimately have "follows S sl serve n f' ?w"
    unfolding follows_def hd using o' ex h by simp
  with st show ?thesis by blast
qed

lemma follows_wake:
  assumes f: "follows S sl serve n f w"
    and fin: "f' = f\<lparr>world_of := (world_of f)\<lparr>shared := wakeBackend sl i (shared (world_of f))\<rparr>, handling := None\<rparr>"
      "handling f = Some (i, True)"
  shows "\<exists>w'. (step sl serve False)\<^sup>*\<^sup>* w w' \<and> follows S sl serve n f' w'"
proof -
  obtain L where L: "dom L = dom (proc_latch (shared (world_of f)))" "w = ahead L [] (world_of f)"
    using f fin(2) by (auto simp: follows_def)
  have lat: "proc_latch (shared w) (backend_pid (slot_of (shared w) i)) \<noteq> None"
    using f fin(2) by (simp add: follows_def)
  then have "proc_latch (shared (world_of f)) (backend_pid (slot_of (shared (world_of f)) i)) \<noteq> None"
    using L by (auto simp: set_eq_iff)
  then obtain b where b: "proc_latch (shared (world_of f)) (backend_pid (slot_of (shared (world_of f)) i)) = Some b" by blast
  then have wk: "wakeBackend sl i (shared (world_of f)) = (shared (world_of f))
      \<lparr>proc_latch := (proc_latch (shared (world_of f)))(backend_pid (slot_of (shared (world_of f)) i) \<mapsto> True)\<rparr>"
    by (simp add: wakeBackend_def fga_channel_wake_backend_def Let_def)
  have "w = ahead L [] (world_of f')" using L fin(1) wk by (simp add: ahead_def)
  moreover have "dom L = dom (proc_latch (shared (world_of f')))"
    using L(1) fin(1) wk b by auto
  ultimately have "follows S sl serve n f' w" using f fin(1) by (auto simp: follows_def)
  then show ?thesis by blast
qed

lemma follows_step:
  assumes f: "follows S sl serve n f w" and st: "fine_step sl serve False f f'"
  shows "\<exists>w'. (step sl serve False)\<^sup>*\<^sup>* w w' \<and> follows S sl serve n f' w'"
  using st
proof cases
  case (calm a w1)
  with follows_base [OF f calm(2)] show ?thesis by blast
next
  case (cancel_act w1 p i cur)
  with f show ?thesis by (simp add: follows_def)
next
  case (cancel_leave w1 p i)
  with f show ?thesis by (simp add: follows_def)
next
  case (handle_read w1 i rest)
  then have "follows S sl serve n f' w" using f by (auto simp: follows_def ahead_def)
  then show ?thesis by blast
next
  case (handle_canceled w1 i rest)
  then have "completed_queue w = i # rest" using follows_views(7) [OF f] by simp
  then have "i < n" using f owned_lists(7) [of S "{}" sl serve n w] by (auto simp: follows_def)
  with f handle_canceled follows_views(1) [OF f] show ?thesis by (simp add: follows_def)
next
  case (handle_done w1 i)
  then show ?thesis by (intro follows_done [OF f]) simp_all
next
  case (handle_wake w1 i)
  then show ?thesis by (intro follows_wake [OF f]) simp_all
qed simp_all

interpretation uncancelled: simulation "step sl serve False" "fine_step sl serve False" "follows S sl serve n"
  for S and sl :: "'l slist_ops" and serve n
  by unfold_locales (rule follows_step)

lemma follows_initial:
  assumes "initial sl n w"
  shows "follows {} sl serve n (calm_world w) w"
proof -
  have o: "owned {} {} sl serve n w" by (rule initial_owned [OF assms])
  have "slot_state (slot_of (shared w) i) = FGA_CHANNEL_SLOT_EMPTY" if "i < n" for i
    using assms that by (auto simp: initial_def chan_wf_def pool_wf_def slot_of_def pool_slot_def free_slots_def)
  moreover have "w = ahead (proc_latch (shared w)) [] w" by (simp add: ahead_def)
  ultimately show ?thesis using o by (auto simp: follows_def calm_world_def intro!: exI [of _ "proc_latch (shared w)"])
qed

section \<open>Runs\<close>

lemma wakeBackend_woken:
  "proc_latch s (backend_pid (slot_of s i)) \<noteq> None \<Longrightarrow>
    wakeBackend sl i s = s\<lparr>proc_latch := (proc_latch s)(backend_pid (slot_of s i) \<mapsto> True)\<rparr>"
  by (auto simp: wakeBackend_def fga_channel_wake_backend_def Let_def)

lemma wakeBackend_failed:
  "proc_latch s (backend_pid (slot_of s i)) = None \<Longrightarrow> wakeBackend sl i s = fga_channel_release_slot sl i s"
  by (simp add: wakeBackend_def fga_channel_wake_backend_def Let_def)

text \<open>The worker handles the response: it writes DONE and wakes the backend, which then reads it.\<close>

lemma fine_response:
  assumes due: "response_due sl serve n p i req w0 w" and lat: "proc_latch (shared w0) p \<noteq> None"
  shows "\<exists>w'. (fine_step sl serve cancels)\<^sup>*\<^sup>* (fine_at w c None) (fine_at w' c None) \<and> phases w' = phases w \<and>
    slot_state (slot_of (shared w') i) = FGA_CHANNEL_SLOT_DONE \<and>
    slot_response (shared w') i = serve req (response zero_payload)"
proof -
  let ?step = "fine_step sl serve cancels"
  have d: "completed_queue w = [i]" "proc_latch (shared w) p \<noteq> None" "backend_pid (slot_of (shared w) i) = p"
    "slot_state (slot_of (shared w) i) = FGA_CHANNEL_SLOT_PROCESSING" "i < slot_count (shared w)"
    "slot_response (shared w) i = serve req (response zero_payload)"
    using due lat chan_wf_count [of sl n "shared w"] by (simp_all add: response_due_def)
  define s1 where "s1 = slot_state_set i FGA_CHANNEL_SLOT_DONE (shared w)"
  have s1: "slot_of s1 i = (slot_of (shared w) i)\<lparr>slot_state := FGA_CHANNEL_SLOT_DONE\<rparr>"
    "proc_latch s1 = proc_latch (shared w)"
    using d(5) by (simp_all add: s1_def slot_state_set_def)
  let ?w1 = "w\<lparr>completed_queue := [], shared := s1\<rparr>"
  have r1: "?step\<^sup>*\<^sup>* (fine_at w c None) (fine_at ?w1 c (Some (i, True)))"
    unfolding s1_def by (rule fine_done) (simp_all add: d)
  let ?w2 = "?w1\<lparr>shared := s1\<lparr>proc_latch := (proc_latch s1)(p \<mapsto> True)\<rparr>\<rparr>"
  have "?step (fine_at ?w1 c (Some (i, True))) (fine_at ?w2 c None)"
    using fine_wake [of sl serve cancels ?w1 c i] d(2,3) s1 by (simp add: wakeBackend_woken)
  with r1 have "?step\<^sup>*\<^sup>* (fine_at w c None) (fine_at ?w2 c None)" by (rule rtranclp.rtrancl_into_rtrancl)
  then show ?thesis by (intro exI [of _ ?w2]) (simp add: s1 d(6))
qed

lemma fine_served:
  assumes due: "response_due sl serve n p i req w0 w" and "c p = None" and "proc_latch (shared w0) p \<noteq> None"
  shows "\<exists>w'. (fine_step sl serve cancels)\<^sup>*\<^sup>* (fine_at w c None) (fine_at w' c None) \<and>
    phases w' p = Served i req"
proof -
  obtain w2 where w2: "(fine_step sl serve cancels)\<^sup>*\<^sup>* (fine_at w c None) (fine_at w2 c None)" "phases w2 = phases w"
    "slot_state (slot_of (shared w2) i) = FGA_CHANNEL_SLOT_DONE"
    using fine_response [OF due assms(3), of cancels c] by blast
  let ?w3 = "w2\<lparr>phases := (phases w2)(p := Served i req)\<rparr>"
  have "base_step sl serve (Backend p) w2 ?w3"
    by (rule base_step.answered) (use due w2 in \<open>simp_all add: response_due_def\<close>)
  then have "fine_step sl serve cancels (fine_at w2 c None) (fine_at ?w3 c None)" by (rule fine_calm) (rule assms(2))
  with w2(1) have "(fine_step sl serve cancels)\<^sup>*\<^sup>* (fine_at w c None) (fine_at ?w3 c None)"
    by (rule rtranclp.rtrancl_into_rtrancl)
  then show ?thesis by (intro exI [of _ ?w3]) simp
qed

section \<open>Processes come and go\<close>

text \<open>The steps of \<open>Restart\<close> at this grain. A worker may be restarted in the middle of \<open>handleResponse\<close>;
  it reads its signals between two turns. A backend may end its session between two calls, but not
  while the worker is about to wake it: this is what goes wrong in \<open>Races\<close>.\<close>

inductive fine_life ::
  "'l slist_ops \<Rightarrow> (FgaRequest \<Rightarrow> FgaResponse \<Rightarrow> FgaResponse) \<Rightarrow> 'l fine \<Rightarrow> 'l fine \<Rightarrow> bool"
  for sl serve where
  act: "fine_step sl serve False f f' \<Longrightarrow> fine_life sl serve f f'"
| restart: "fine_life sl serve f (f\<lparr>world_of := restarted l (world_of f), handling := None\<rparr>)"
| reload: "drained (world_of f) = [] \<Longrightarrow> handling f = None \<Longrightarrow>
     fine_life sl serve f (f\<lparr>world_of := processor_replaced (world_of f)\<rparr>)"
| leave: "phases (world_of f) p = Idle \<Longrightarrow>
     \<forall>i. handling f = Some (i, True) \<longrightarrow> backend_pid (slot_of (shared (world_of f)) i) \<noteq> p \<Longrightarrow>
     fine_life sl serve f (f\<lparr>world_of := terminated p (world_of f)\<rparr>)"
| start: "proc_latch (shared (world_of f)) p = None \<Longrightarrow>
     fine_life sl serve f (f\<lparr>world_of := started p (world_of f)\<rparr>)"

lemma fine_run_lives: "(fine_step sl serve False)\<^sup>*\<^sup>* f f' \<Longrightarrow> (fine_life sl serve)\<^sup>*\<^sup>* f f'"
  by (erule rtranclp_mono [THEN predicate2D, rotated]) (auto intro: fine_life.act)

lemma ahead_lives:
  "restarted l (ahead L pre w) = ahead L [] (restarted l w)"
  "processor_replaced (ahead L [] w) = ahead L [] (processor_replaced w)"
  "terminated p (ahead L pre w) = ahead (L(p := None)) pre (terminated p w)"
  "started p (ahead L pre w) = ahead (L(p \<mapsto> False)) pre (started p w)"
  by (simp_all add: ahead_def restarted_def processor_replaced_def terminated_def started_def)

lemma life_slots:
  "slot_of (shared (restarted l w)) = slot_of (shared w)" "slot_of (shared (processor_replaced w)) = slot_of (shared w)"
  "slot_of (shared (terminated p w)) = slot_of (shared w)" "slot_of (shared (started p w)) = slot_of (shared w)"
  by (simp_all add: slot_of_def restarted_def processor_replaced_def terminated_def started_def)

lemma followsE:
  assumes "follows S sl serve n f w"
  obtains L where "owned S {} sl serve n w" and "catchers f = (\<lambda>p. None)"
    and "dom L = dom (proc_latch (shared (world_of f)))"
    and "w = ahead L (case handling f of Some (i, False) \<Rightarrow> [i] | _ \<Rightarrow> []) (world_of f)"
    and "\<And>i. i < n \<Longrightarrow> slot_state (slot_of (shared w) i) \<noteq> FGA_CHANNEL_SLOT_CANCELED"
    and "\<And>i. handling f = Some (i, True) \<Longrightarrow> i < n \<and> proc_latch (shared w) (backend_pid (slot_of (shared w) i)) \<noteq> None"
  using assms unfolding follows_def by blast

lemma follows_leave:
  assumes f: "follows S sl serve n f w" and "phases (world_of f) p = Idle"
    and "\<forall>i. handling f = Some (i, True) \<longrightarrow> backend_pid (slot_of (shared (world_of f)) i) \<noteq> p"
  shows "follows S sl serve n (f\<lparr>world_of := terminated p (world_of f)\<rparr>) (terminated p w)"
proof (rule followsE [OF f])
  fix L assume o: "owned S {} sl serve n w" and L: "dom L = dom (proc_latch (shared (world_of f)))"
      "w = ahead L (case handling f of Some (i, False) \<Rightarrow> [i] | _ \<Rightarrow> []) (world_of f)"
    and rest: "catchers f = (\<lambda>p. None)" "\<And>i. i < n \<Longrightarrow> slot_state (slot_of (shared w) i) \<noteq> FGA_CHANNEL_SLOT_CANCELED"
    and wk: "\<And>i. handling f = Some (i, True) \<Longrightarrow> i < n \<and> proc_latch (shared w) (backend_pid (slot_of (shared w) i)) \<noteq> None"
  note v = follows_views [OF f]
  have "owned S {} sl serve n (terminated p w)"
    using assms(2) v(2)
    by (intro owned_quiet [OF o, of _ "(proc_latch (shared w))(p := None)"]) (auto simp: terminated_def)
  then show ?thesis
  proof (rule followsI [of _ _ _ _ _ _ "L(p := None)"])
    show "i < n \<and> proc_latch (shared (terminated p w)) (backend_pid (slot_of (shared (terminated p w)) i)) \<noteq> None"
      if "handling (f\<lparr>world_of := terminated p (world_of f)\<rparr>) = Some (i, True)" for i
      using wk [of i] assms(3) that v(1) by (simp add: life_slots) (simp add: terminated_def)
  qed (use rest L in \<open>simp_all add: life_slots ahead_lives\<close>, simp_all add: terminated_def)
qed

lemma follows_life:
  assumes f: "follows S sl serve n f w" and st: "fine_life sl serve f f'"
  shows "\<exists>w' S'. (life_step sl serve)\<^sup>*\<^sup>* w w' \<and> follows S' sl serve n f' w'"
proof -
  let ?pre = "case handling f of Some (i, False) \<Rightarrow> [i] | _ \<Rightarrow> []"
  obtain L where o: "owned S {} sl serve n w" and c: "catchers f = (\<lambda>p. None)"
    and L: "dom L = dom (proc_latch (shared (world_of f)))" "w = ahead L ?pre (world_of f)"
    and nc: "\<And>i. i < n \<Longrightarrow> slot_state (slot_of (shared w) i) \<noteq> FGA_CHANNEL_SLOT_CANCELED"
    and wk: "\<And>i. handling f = Some (i, True) \<Longrightarrow> i < n \<and> proc_latch (shared w) (backend_pid (slot_of (shared w) i)) \<noteq> None"
    by (rule followsE [OF f]) (rule that)
  note v = follows_views [OF f]
  from st show ?thesis
  proof cases
    case act
    with follows_step [OF f this] run_lives show ?thesis by blast
  next
    case (restart l)
    have "follows (S \<union> worker_slots w) sl serve n f' (restarted l w)"
      unfolding restart by (rule followsI [OF owned_restarted [OF o], of _ L])
        (use c nc L in \<open>simp_all add: life_slots ahead_lives\<close>, simp_all add: restarted_def)
    with life_step.restart show ?thesis by blast
  next
    case reload
    have "follows (S \<union> set (completed_queue w)) sl serve n f' (processor_replaced w)"
      unfolding reload(1) by (rule followsI [OF owned_replaced [OF o], of _ L])
        (use c nc L reload(3) in \<open>simp_all add: life_slots ahead_lives\<close>, simp_all add: processor_replaced_def)
    moreover have "drained w = []" using reload v(5) by simp
    ultimately show ?thesis using life_step.reload by blast
  next
    case (leave p)
    have "follows S sl serve n f' (terminated p w)" unfolding leave(1) by (rule follows_leave [OF f leave(2,3)])
    with life_step.terminate show ?thesis by blast
  next
    case (start p)
    have none: "proc_latch (shared w) p = None" using start(2) L by (auto simp: set_eq_iff)
    have "owned S {} sl serve n (started p w)"
      by (rule owned_quiet [OF o, of _ "(proc_latch (shared w))(p \<mapsto> False)"]) (auto simp: started_def)
    then have "follows S sl serve n f' (started p w)"
      unfolding start(1)
    proof (rule followsI [of _ _ _ _ _ _ "L(p \<mapsto> False)"])
      show "i < n \<and> proc_latch (shared (started p w)) (backend_pid (slot_of (shared (started p w)) i)) \<noteq> None"
        if "handling (f\<lparr>world_of := started p (world_of f)\<rparr>) = Some (i, True)" for i
        using wk [of i] that by (auto simp: life_slots started_def)
    qed (use c nc L in \<open>simp_all add: life_slots ahead_lives\<close>, simp_all add: started_def)
    with life_step.start [OF none] show ?thesis by blast
  qed
qed

interpretation fine_lives: simulation "life_step sl serve" "fine_life sl serve" "\<lambda>f w. \<exists>S. follows S sl serve n f w"
  for sl :: "'l slist_ops" and serve n
  by unfold_locales (use follows_life in blast)

section \<open>Properties\<close>

lemma uncancelled_follows:
  assumes "initial sl n w" and "(fine_step sl serve False)\<^sup>*\<^sup>* (calm_world w) f"
  obtains w' where "(step sl serve False)\<^sup>*\<^sup>* w w'" and "follows {} sl serve n f w'"
  using uncancelled.sim_run [OF assms(2) follows_initial [OF assms(1)]] by blast

lemma fine_life_follows:
  assumes "initial sl n w" and "(fine_life sl serve)\<^sup>*\<^sup>* (calm_world w) f"
  obtains w' S where "(life_step sl serve)\<^sup>*\<^sup>* w w'" and "follows S sl serve n f w'"
  using fine_lives.sim_run [OF assms(2)] follows_initial [OF assms(1)] by blast

lemma follows_answers:
  assumes f: "follows S sl serve n f w" and ph: "phases (world_of f) p = Served i req"
  shows "slot_response (shared (world_of f)) i = serve req (response zero_payload)"
proof -
  have o: "owned S {} sl serve n w" using f by (simp add: follows_def)
  have "phases w p = Served i req" using ph follows_views(2) [OF f] by simp
  with owned_backend(7) [OF o, of p i] have "slot_response (shared w) i = serve req (response zero_payload)"
    by (simp add: backend_has_def)
  then show ?thesis by (simp add: follows_views(1) [OF f])
qed

lemma follows_all_free:
  assumes f: "follows {} sl serve n f w" and "\<forall>p. phases (world_of f) p = Idle"
    and "work (world_of f) = 0" and "handling f = None"
  shows "set (free_slots sl (shared (world_of f))) = {..<n}"
proof -
  note v = follows_views [OF f]
  have "owned {} {} sl serve n w" using f by (simp add: follows_def)
  moreover have "work w = 0" using assms(3) v(4-6) v(7) [OF assms(4)] by (simp add: work_def)
  ultimately have "set (free_slots sl (shared w)) = {..<n}" using all_free_when_idle assms(2) v(2) by metis
  then show ?thesis by (simp add: v(3))
qed



end
