(* ===== verification/Races.thy ===== *)
theory Races
  imports Interleaving
begin

text \<open>
  What a cancelled check can do at the grain of single accesses. \<open>wait_response\<close>'s catch block
  (\<open>src/channel.c\<close>) and \<open>handleResponse\<close> (\<open>src/bgw/processor.cpp\<close>) both read the slot's state and act
  on it later, without the compare and exchange that \<open>beginProcessing\<close> uses, and the catch block
  writes \<open>backend_pid\<close> when the slot may already be another backend's. The three theorems give a run
  for each consequence, from any initial state and without any \<open>PG_CATCH\<close> block but that one: the
  pool runs out for ever, a slot is released under the backend that fills it, and a backend gets
  the answer to another backend's request.

  The last section needs no cancel: \<open>handleResponse\<close> wakes the backend after it has written DONE, and
  a backend that has seen DONE by then may have released the slot and ended its session.
\<close>

section \<open>A slot is lost\<close>

text \<open>The backend reads PROCESSING, the worker writes DONE and wakes it, and the backend writes
  CANCELED: the worker has already handled the response, and the backend leaves.\<close>

lemma cancel_loses_slot:
  assumes r: "at_rest sl n P w" and p: "p \<in> P" and free: "free_slots sl (shared w) = i # F"
  shows "\<exists>w'. (fine_step sl serve True)\<^sup>*\<^sup>* (calm_world w) (calm_world w') \<and> at_rest sl n P w' \<and>
    free_slots sl (shared w') = F \<and> phases w' = phases w"
proof -
  let ?step = "fine_step sl serve True"
  have lat: "phases w p = Idle" "proc_latch (shared w) p \<noteq> None" using r p by (simp_all add: at_rest_def)
  obtain w1 where w1: "(local_step sl serve p)\<^sup>*\<^sup>* w w1"
    and due: "response_due sl serve n p i (request zero_payload) w w1"
    by (rule send_and_serve [OF r p free])
  have cnt: "i < slot_count (shared w1)" using due chan_wf_count [of sl n "shared w1"] by (simp add: response_due_def)
  have dist: "i \<notin> set F" using chan_wf_free [of sl n "shared w"] r free by (simp add: at_rest_def)
  define s3 where "s3 = slot_state_set i FGA_CHANNEL_SLOT_DONE (shared w1)"
  define s4 where "s4 = s3\<lparr>proc_latch := (proc_latch s3)(p \<mapsto> True)\<rparr>"
  define s5 where "s5 = catch_act sl i FGA_CHANNEL_SLOT_PROCESSING s4"
  let ?c2 = "Map.empty(p \<mapsto> Read i FGA_CHANNEL_SLOT_PROCESSING)" and ?c5 = "Map.empty(p \<mapsto> Acted i)"
  let ?w2 = "w1\<lparr>phases := (phases w1)(p := Idle)\<rparr>"
  let ?w3 = "?w2\<lparr>completed_queue := [], shared := s3\<rparr>"
  let ?w4 = "?w3\<lparr>shared := s4\<rparr>" and ?w5 = "?w3\<lparr>shared := s5\<rparr>" and ?w6 = "?w3\<lparr>shared := catch_leave i s5\<rparr>"
  have r1: "?step\<^sup>*\<^sup>* (calm_world w) (fine_at w1 (\<lambda>p. None) None)"
    unfolding calm_world_def by (rule fine_local [OF w1]) simp
  have r2: "?step (fine_at w1 (\<lambda>p. None) None) (fine_at ?w2 ?c2 None)"
    using fine_cancel_read [of w1 p i "request zero_payload" Map.empty sl serve None] due
    by (simp add: response_due_def)
  have r3: "?step\<^sup>*\<^sup>* (fine_at ?w2 ?c2 None) (fine_at ?w3 ?c2 (Some (i, True)))"
    using fine_done [of ?w2 i "[]" sl serve True ?c2] due by (simp add: response_due_def s3_def)
  have s3: "proc_latch s3 p \<noteq> None" "backend_pid (slot_of s3 i) = p"
    using cnt lat(2) due by (simp_all add: s3_def slot_state_set_def response_due_def)
  have r4: "?step (fine_at ?w3 ?c2 (Some (i, True))) (fine_at ?w4 ?c2 None)"
    using fine_wake [of sl serve True ?w3 ?c2 i] s3 by (simp add: wakeBackend_woken s4_def)
  have r5: "?step (fine_at ?w4 ?c2 None) (fine_at ?w5 ?c5 None)"
    using fine_cancel_act [of ?c2 p i FGA_CHANNEL_SLOT_PROCESSING sl serve True ?w4 None] by (simp add: s5_def)
  have r6: "?step (fine_at ?w5 ?c5 None) (calm_world ?w6)"
    using fine_cancel_leave [of ?c5 p i sl serve True ?w5 None] by (simp add: calm_world_def)
  have ph: "(phases w1)(p := Idle) = phases w" using due lat(1) by (auto simp: response_due_def)
  have run: "?step\<^sup>*\<^sup>* (calm_world w) (calm_world ?w6)"
    using r1 r2 r3 r4 r5 r6 by (meson rtranclp.rtrancl_into_rtrancl rtranclp_trans)
  have "catch_leave i s5 = set_slot i (\<lambda>slot. slot\<lparr>backend_pid := InvalidPid\<rparr>)
      (set_slot i (\<lambda>slot. slot\<lparr>slot_state := FGA_CHANNEL_SLOT_CANCELED\<rparr>)
        ((slot_state_set i FGA_CHANNEL_SLOT_DONE (shared w1))\<lparr>proc_latch := (proc_latch s3)(p \<mapsto> True)\<rparr>))"
    by (simp add: catch_leave_def s5_def catch_act_def s4_def s3_def)
  moreover have free1: "free_slots sl (shared w1) = F" using due free by (simp add: response_due_def)
  moreover have "chan_wf sl n (catch_leave i s5)"
    unfolding calculation(1) slot_state_set_def
    by (intro chan_wf_set_slot) (use due dist free1 in \<open>simp_all add: response_due_def chan_wf_set_slot\<close>)
  moreover have "dom (proc_latch (catch_leave i s5)) = dom (proc_latch (shared w))"
    using due lat(2) by (auto simp: calculation(1) s3_def slot_state_set_def response_due_def)
  ultimately have "at_rest sl n P ?w6 \<and> free_slots sl (shared ?w6) = F"
    using due r by (auto simp: at_rest_def response_due_def slot_state_set_def set_eq_iff)
  with run ph show ?thesis by (intro exI [of _ ?w6]) simp
qed

lemma cancels_lose_all_slots:
  "at_rest sl n P w \<Longrightarrow> p \<in> P \<Longrightarrow> \<exists>w'. (fine_step sl serve True)\<^sup>*\<^sup>* (calm_world w) (calm_world w') \<and>
    at_rest sl n P w' \<and> free_slots sl (shared w') = [] \<and> phases w' = phases w"
proof (induction "free_slots sl (shared w)" arbitrary: w)
  case Nil
  then show ?case by (metis rtranclp.rtrancl_refl)
next
  case (Cons i F)
  obtain w1 where w1: "(fine_step sl serve True)\<^sup>*\<^sup>* (calm_world w) (calm_world w1)" "at_rest sl n P w1"
    "free_slots sl (shared w1) = F" "phases w1 = phases w"
    using cancel_loses_slot [OF Cons.prems Cons.hyps(2) [symmetric]] by blast
  from Cons.hyps(1) [OF w1(3) [symmetric] w1(2) Cons.prems(2)] w1(1,4) show ?case by (metis rtranclp_trans)
qed

text \<open>Nothing can happen any more but draining the empty queue.\<close>

definition exhausted :: "'l slist_ops \<Rightarrow> nat \<Rightarrow> 'l fine \<Rightarrow> bool" where
  "exhausted sl n f \<longleftrightarrow> at_rest sl n {} (world_of f) \<and> free_slots sl (shared (world_of f)) = [] \<and>
     phases (world_of f) = (\<lambda>p. Idle) \<and> catchers f = (\<lambda>p. None) \<and> handling f = None"

lemma exhausted_acquire:
  assumes "exhausted sl n f"
  shows "fga_channel_acquire_slot sl p (shared (world_of f)) = (Inl SlotPoolExhausted, shared (world_of f))"
proof -
  obtain r s' where a: "fga_channel_acquire_slot sl p (shared (world_of f)) = (r, s')" by fastforce
  have "chan_wf sl n (shared (world_of f))" using assms by (simp add: exhausted_def at_rest_def)
  from fga_channel_acquire_slot_spec [OF this a] assms show ?thesis
    by (cases r) (simp_all add: a exhausted_def)
qed

lemma exhausted_step:
  assumes e: "exhausted sl n f" and "fine_step sl serve cancels f f'"
  shows "exhausted sl n f'"
  using assms(2)
proof cases
  case (calm a w')
  from calm(2) show ?thesis
  proof cases
    case (acquire p i s')
    with exhausted_acquire [OF e, of p] show ?thesis by simp
  next
    case (drain xs s')
    have wf: "chan_wf sl n (shared (world_of f))" using e by (simp add: exhausted_def at_rest_def)
    note d = drain_batch [OF wf drain(4)]
    with e show ?thesis by (simp add: calm(1) drain(2) exhausted_def at_rest_def)
  qed (use e in \<open>simp_all add: exhausted_def at_rest_def\<close>)
qed (use e in \<open>simp_all add: exhausted_def at_rest_def\<close>)

lemma exhausted_run: "(fine_step sl serve cancels)\<^sup>*\<^sup>* f f' \<Longrightarrow> exhausted sl n f \<Longrightarrow> exhausted sl n f'"
  by (induction rule: rtranclp_induct) (auto intro: exhausted_step)

text \<open>C5: One backend whose checks are cancelled can take the service down: from every initial state
  there is a run after which all backends are idle, the worker has nothing to do, and yet every
  slot is lost. From then on, whatever happens, every request of every backend fails because the
  pool is exhausted.\<close>

theorem cancelled_checks_exhaust_pool:
  assumes "initial sl n w" and "proc_latch (shared w) p \<noteq> None"
    and "0 < queue_capacity (ch_queue (channel (shared w)))"
  shows "\<exists>w'. (fine_step sl serve True)\<^sup>*\<^sup>* (calm_world w) (calm_world w') \<and> phases w' = (\<lambda>p. Idle) \<and>
    work w' = 0 \<and> (\<forall>f q. (fine_step sl serve True)\<^sup>*\<^sup>* (calm_world w') f \<longrightarrow>
      fst (fga_channel_acquire_slot sl q (shared (world_of f))) = Inl SlotPoolExhausted)"
proof -
  have "at_rest sl n {p} w" using assms by (simp add: at_rest_def initial_def)
  then obtain w' where w': "(fine_step sl serve True)\<^sup>*\<^sup>* (calm_world w) (calm_world w')" "at_rest sl n {p} w'"
    "free_slots sl (shared w') = []" "phases w' = phases w"
    using cancels_lose_all_slots [of sl n "{p}" w p serve] by blast
  have e: "exhausted sl n (calm_world w')"
    using w'(2-4) assms(1) by (simp add: exhausted_def at_rest_def initial_def calm_world_def)
  have "fst (fga_channel_acquire_slot sl q (shared (world_of f))) = Inl SlotPoolExhausted"
    if "(fine_step sl serve True)\<^sup>*\<^sup>* (calm_world w') f" for f q
    using exhausted_acquire [OF exhausted_run [OF that e], of q] by simp
  moreover have "work w' = 0" using w'(2) by (simp add: at_rest_def work_def)
  ultimately show ?thesis using w'(1,4) assms(1) by (intro exI [of _ w']) (simp add: initial_def)
qed

theorem cancelled_checks_exhaust_pool_witness:
  "\<exists>w. (fine_step list_slist (answer_all FGA_RESPONSE_OK True) True)\<^sup>*\<^sup>* (calm_world example_world) (calm_world w) \<and>
     phases w = (\<lambda>p. Idle) \<and> work w = 0 \<and>
     (\<forall>f q. (fine_step list_slist (answer_all FGA_RESPONSE_OK True) True)\<^sup>*\<^sup>* (calm_world w) f \<longrightarrow>
       fst (fga_channel_acquire_slot list_slist q (shared (world_of f))) = Inl SlotPoolExhausted)"
  by (rule cancelled_checks_exhaust_pool [OF example_world_initial example_world_latch example_world_queue])

section \<open>An answer goes to the wrong backend\<close>

text \<open>A backend reads PENDING in the catch block and marks its slot CANCELED; the slot stays queued.\<close>

lemma cancel_leaves_queued:
  assumes r: "at_rest sl n P w" and p: "p \<in> P" and free: "free_slots sl (shared w) = i # F"
  obtains w' where "(fine_step sl serve True)\<^sup>*\<^sup>* (calm_world w) (fine_at w' (Map.empty(p \<mapsto> Acted i)) None)"
    and "chan_wf sl n (shared w')" and "i < n" and "i \<notin> set F" and "free_slots sl (shared w') = F"
    and "queued (shared w') = [i]" and "drained w' = []" and "inflight w' = []" and "completed_queue w' = []"
    and "phases w' = phases w" and "slot_state (slot_of (shared w') i) = FGA_CHANNEL_SLOT_CANCELED"
    and "proc_latch (shared w') = proc_latch (shared w)" and "bgw_latch (shared w') \<noteq> None"
    and "0 < queue_capacity (ch_queue (channel (shared w')))"
proof -
  let ?step = "fine_step sl serve True" and ?req = "request zero_payload"
  have lat: "phases w p = Idle" "proc_latch (shared w) p \<noteq> None" using r p by (simp_all add: at_rest_def)
  have "\<exists>w1 j. (local_step sl serve p)\<^sup>*\<^sup>* w w1 \<and> sent sl n p j w w1 \<and> slot_request (shared w1) j = ?req"
    by (rule can_send_locally) (use r p free in \<open>simp_all add: at_rest_def del: not_None_eq\<close>)
  then obtain w1 j where w1: "(local_step sl serve p)\<^sup>*\<^sup>* w w1" "sent sl n p j w w1"
    "slot_request (shared w1) j = ?req" by blast
  then have j: "j = i" using free by (simp add: sent_def)
  have s: "chan_wf sl n (shared w1)" "i < n" "i \<notin> set (free_slots sl (shared w1))" "queued (shared w1) = [i]"
    "drained w1 = []" "inflight w1 = []" "completed_queue w1 = []" "phases w1 = (phases w)(p := Awaiting i ?req)"
    "slot_state (slot_of (shared w1) i) = FGA_CHANNEL_SLOT_PENDING" "free_slots sl (shared w1) = F"
    "proc_latch (shared w1) = proc_latch (shared w)" "bgw_latch (shared w1) \<noteq> None"
    "0 < queue_capacity (ch_queue (channel (shared w1)))"
    using w1(2,3) r free by (simp_all add: sent_def at_rest_def j)
  have cnt: "i < slot_count (shared w1)" using s(2) chan_wf_count [OF s(1)] by simp
  have r1: "?step\<^sup>*\<^sup>* (calm_world w) (fine_at w1 (\<lambda>p. None) None)"
    unfolding calm_world_def by (rule fine_local [OF w1(1)]) simp
  let ?w2 = "w1\<lparr>phases := (phases w1)(p := Idle)\<rparr>" and ?c2 = "Map.empty(p \<mapsto> Read i FGA_CHANNEL_SLOT_PENDING)"
  have r2: "?step (fine_at w1 (\<lambda>p. None) None) (fine_at ?w2 ?c2 None)"
    using fine_cancel_read [of w1 p i ?req Map.empty sl serve None] s(8,9) by simp
  let ?s3 = "set_slot i (\<lambda>slot. slot\<lparr>slot_state := FGA_CHANNEL_SLOT_CANCELED\<rparr>) (shared w1)"
  let ?w3 = "?w2\<lparr>shared := ?s3\<rparr>"
  have r3: "?step (fine_at ?w2 ?c2 None) (fine_at ?w3 (Map.empty(p \<mapsto> Acted i)) None)"
    using fine_cancel_act [of ?c2 p i FGA_CHANNEL_SLOT_PENDING sl serve True ?w2 None]
    by (simp add: catch_act_def)
  have run: "?step\<^sup>*\<^sup>* (calm_world w) (fine_at ?w3 (Map.empty(p \<mapsto> Acted i)) None)"
    using r1 r2 r3 by (meson rtranclp.rtrancl_into_rtrancl)
  have "chan_wf sl n ?s3" by (rule chan_wf_set_slot [OF s(1,3)])
  moreover have "(phases w1)(p := Idle) = phases w" using lat(1) by (auto simp: s(8))
  ultimately show thesis by (intro that [OF run]) (use s cnt in simp_all)
qed

text \<open>The worker claims such a slot and returns it to the pool, and the backend has yet to write
  \<open>backend_pid\<close>.\<close>

lemma cancel_stays_behind:
  assumes r: "at_rest sl n P w" and p: "p \<in> P" and free: "free_slots sl (shared w) = i # F"
  shows "\<exists>w'. (fine_step sl serve True)\<^sup>*\<^sup>* (calm_world w) (fine_at w' (Map.empty(p \<mapsto> Acted i)) None) \<and>
    at_rest sl n P w' \<and> free_slots sl (shared w') = i # F \<and> phases w' = phases w \<and>
    proc_latch (shared w') = proc_latch (shared w)"
proof -
  let ?c = "Map.empty(p \<mapsto> Acted i)"
  obtain w3 where run: "(fine_step sl serve True)\<^sup>*\<^sup>* (calm_world w) (fine_at w3 ?c None)"
    and w3: "chan_wf sl n (shared w3)" "i < n" "i \<notin> set F" "free_slots sl (shared w3) = F"
      "queued (shared w3) = [i]" "drained w3 = []" "inflight w3 = []" "completed_queue w3 = []" "phases w3 = phases w"
      "slot_state (slot_of (shared w3) i) = FGA_CHANNEL_SLOT_CANCELED" "proc_latch (shared w3) = proc_latch (shared w)"
      "bgw_latch (shared w3) \<noteq> None" "0 < queue_capacity (ch_queue (channel (shared w3)))"
    by (rule cancel_leaves_queued [OF r p free, of serve])
  obtain xs s4 where d: "fga_channel_drain_slots MAX_BATCH (shared w3) = (xs, s4)" by fastforce
  note ds = drain_batch [OF w3(1) d]
  define s5 where "s5 = fga_channel_release_slot sl i s4"
  let ?w5 = "w3\<lparr>shared := s5, drained := [], inflight := inflight w3\<rparr>"
  have "beginProcessing sl i s4 = (False, s5)" using ds(5) by (simp add: beginProcessing_def w3(10) s5_def)
  from take_request [OF w3(1,5,6) d this] have "(local_step sl serve (p + 1))\<^sup>*\<^sup>* w3 ?w5"
    by (auto intro: base_run_local [of _ _ Bgw])
  then have "(fine_step sl serve True)\<^sup>*\<^sup>* (fine_at w3 ?c None) (fine_at ?w5 ?c None)"
    by (rule fine_local) simp
  with run have "(fine_step sl serve True)\<^sup>*\<^sup>* (calm_world w) (fine_at ?w5 ?c None)" by (rule rtranclp_trans)
  moreover have "i \<notin> set (free_slots sl s4)" using ds(4) w3(3,4) by simp
  from fga_channel_release_slot_spec [OF ds(3) w3(2) this] have "chan_wf sl n s5" "free_slots sl s5 = i # F"
    using ds(4) w3(4) by (simp_all add: s5_def)
  moreover have "queued s5 = []" "bgw_latch s5 \<noteq> None" "proc_latch s5 = proc_latch (shared w)"
    "0 < queue_capacity (ch_queue (channel s5))" using ds w3 by (simp_all add: s5_def)
  ultimately show ?thesis using w3(7-9) r by (intro exI [of _ ?w5]) (simp add: at_rest_def)
qed

text \<open>The slot is acquired by \<open>q\<close>, and now the first backend overwrites \<open>backend_pid\<close>: the worker
  finds nobody to wake and releases the slot while \<open>q\<close> waits.\<close>

lemma stale_pid_releases:
  assumes r: "at_rest sl n P w" and q: "q \<in> P" "q \<noteq> p" and free: "free_slots sl (shared w) = i # F"
    and inv: "proc_latch (shared w) InvalidPid = None"
  shows "\<exists>w'. (fine_step sl serve True)\<^sup>*\<^sup>* (fine_at w (Map.empty(p \<mapsto> Acted i)) None) (calm_world w') \<and>
    at_rest sl n (P - {q}) w' \<and> free_slots sl (shared w') = i # F \<and> phases w' = (phases w)(q := Awaiting i req)"
proof -
  let ?step = "fine_step sl serve True" and ?c = "Map.empty(p \<mapsto> Acted i)"
  obtain w1 where w1: "(local_step sl serve q)\<^sup>*\<^sup>* w w1" and due: "response_due sl serve n q i req w w1"
    by (rule send_and_serve [OF r q(1) free])
  then have d: "chan_wf sl n (shared w1)" "i < n" "free_slots sl (shared w1) = F" "completed_queue w1 = [i]"
    "slot_state (slot_of (shared w1) i) = FGA_CHANNEL_SLOT_PROCESSING" "proc_latch (shared w1) = proc_latch (shared w)"
    "phases w1 = (phases w)(q := Awaiting i req)" using free by (simp_all add: response_due_def)
  have nf: "i \<notin> set F" using chan_wf_free [of sl n "shared w"] r free by (simp add: at_rest_def)
  have cnt: "i < slot_count (shared w1)" using d(2) chan_wf_count [OF d(1)] by simp
  have r1: "?step\<^sup>*\<^sup>* (fine_at w ?c None) (fine_at w1 ?c None)" by (rule fine_local [OF w1]) (use q(2) in simp)
  define s2 where "s2 = catch_leave i (shared w1)"
  let ?w2 = "w1\<lparr>shared := s2\<rparr>"
  have r2: "?step (fine_at w1 ?c None) (fine_at ?w2 (\<lambda>p. None) None)"
    using fine_cancel_leave [of ?c p i sl serve True w1 None] by (simp add: s2_def)
  define s3 where "s3 = slot_state_set i FGA_CHANNEL_SLOT_DONE s2"
  let ?w3 = "?w2\<lparr>completed_queue := [], shared := s3\<rparr>"
  have r3: "?step\<^sup>*\<^sup>* (fine_at ?w2 (\<lambda>p. None) None) (fine_at ?w3 (\<lambda>p. None) (Some (i, True)))"
    using fine_done [of ?w2 i "[]" sl serve True "\<lambda>p. None"] d(4,5) cnt by (simp add: s3_def s2_def catch_leave_def)
  let ?w4 = "?w3\<lparr>shared := fga_channel_release_slot sl i s3\<rparr>"
  have s3: "chan_wf sl n s3" "free_slots sl s3 = F" "proc_latch s3 (backend_pid (slot_of s3 i)) = None"
    using d(1,3,6) nf cnt inv
    by (simp_all add: s3_def s2_def catch_leave_def slot_state_set_def chan_wf_set_slot)
  then have "?step (fine_at ?w3 (\<lambda>p. None) (Some (i, True))) (calm_world ?w4)"
    using fine_wake [of sl serve True ?w3 "\<lambda>p. None" i] by (simp add: calm_world_def wakeBackend_failed)
  with r1 r2 r3 have run: "?step\<^sup>*\<^sup>* (fine_at w ?c None) (calm_world ?w4)"
    by (meson rtranclp.rtrancl_into_rtrancl rtranclp_trans)
  note rel = fga_channel_release_slot_spec [OF s3(1) d(2), unfolded s3(2), OF nf]
  have "queued s3 = queued (shared w1)" "bgw_latch s3 = bgw_latch (shared w1)" "proc_latch s3 = proc_latch (shared w)"
    "queue_capacity (ch_queue (channel s3)) = queue_capacity (ch_queue (channel (shared w1)))"
    by (simp_all add: s3_def s2_def catch_leave_def slot_state_set_def d(6))
  then have "at_rest sl n (P - {q}) ?w4"
    using rel(1) due r by (simp add: at_rest_def response_due_def)
  with run rel(2) d(7) show ?thesis by (intro exI [of _ ?w4]) simp
qed

text \<open>C3: One cancelled check can give another backend a wrong decision. From every initial state,
  with three backends, there is a run in which the first is cancelled and writes \<open>backend_pid\<close>
  late, the second then waits on a slot that is back in the pool, the third sends its request in
  the same slot, and the second takes the answer to the third's request for the answer to its own,
  while the third holds the slot as well.\<close>

theorem cancelled_check_misdirects_answer:
  assumes "initial sl n w" and "0 < n" and "0 < queue_capacity (ch_queue (channel (shared w)))"
    and "\<forall>x \<in> {p, q, r}. proc_latch (shared w) x \<noteq> None" and "proc_latch (shared w) InvalidPid = None"
    and "distinct [p, q, r]"
  shows "\<exists>w' i. (fine_step sl serve True)\<^sup>*\<^sup>* (calm_world w) (calm_world w') \<and>
    phases w' q = Served i asked \<and> phases w' r = Awaiting i other \<and>
    slot_response (shared w') i = serve other (response zero_payload)"
proof -
  let ?step = "fine_step sl serve True"
  have rest: "at_rest sl n {p, q, r} w" using assms(1,3,4) by (simp add: at_rest_def initial_def)
  obtain i F where free: "free_slots sl (shared w) = i # F"
    using assms(1,2) by (cases "free_slots sl (shared w)") (auto simp: initial_def)
  obtain w1 where w1: "?step\<^sup>*\<^sup>* (calm_world w) (fine_at w1 (Map.empty(p \<mapsto> Acted i)) None)"
    "at_rest sl n {p, q, r} w1" "free_slots sl (shared w1) = i # F" "proc_latch (shared w1) = proc_latch (shared w)"
    using cancel_stays_behind [OF rest _ free, of p serve] by blast
  have "\<exists>w2. ?step\<^sup>*\<^sup>* (fine_at w1 (Map.empty(p \<mapsto> Acted i)) None) (calm_world w2) \<and>
    at_rest sl n ({p, q, r} - {q}) w2 \<and> free_slots sl (shared w2) = i # F \<and> phases w2 = (phases w1)(q := Awaiting i asked)"
    by (rule stale_pid_releases [OF w1(2) _ _ w1(3)]) (use assms(5,6) w1(4) in auto)
  then obtain w2 where w2: "?step\<^sup>*\<^sup>* (fine_at w1 (Map.empty(p \<mapsto> Acted i)) None) (calm_world w2)"
    "at_rest sl n ({p, q, r} - {q}) w2" "free_slots sl (shared w2) = i # F" "phases w2 q = Awaiting i asked"
    by auto
  have r: "r \<in> {p, q, r} - {q}" using assms(6) by auto
  obtain w3 where w3: "(local_step sl serve r)\<^sup>*\<^sup>* w2 w3" and due: "response_due sl serve n r i other w2 w3"
    by (rule send_and_serve [OF w2(2) r w2(3)])
  have run3: "?step\<^sup>*\<^sup>* (calm_world w2) (calm_world w3)"
    unfolding calm_world_def by (rule fine_local [OF w3]) simp
  have "proc_latch (shared w2) r \<noteq> None" using w2(2) r by (simp add: at_rest_def)
  from fine_response [OF due this, of True "\<lambda>p. None"] obtain w5 where
    w5: "?step\<^sup>*\<^sup>* (calm_world w3) (fine_at w5 (\<lambda>p. None) None)" "phases w5 = phases w3"
      "slot_state (slot_of (shared w5) i) = FGA_CHANNEL_SLOT_DONE"
      "slot_response (shared w5) i = serve other (response zero_payload)"
    unfolding calm_world_def by blast
  have ph: "phases w5 q = Awaiting i asked" "phases w5 r = Awaiting i other" "q \<noteq> r"
    using due w2(4) w5(2) assms(6) by (auto simp: response_due_def)
  let ?w6 = "w5\<lparr>phases := (phases w5)(q := Served i asked)\<rparr>"
  have "base_step sl serve (Backend q) w5 ?w6" by (rule base_step.answered [OF ph(1) w5(3)])
  then have "?step (fine_at w5 (\<lambda>p. None) None) (calm_world ?w6)"
    unfolding calm_world_def by (rule fine_calm) simp
  then have "?step\<^sup>*\<^sup>* (calm_world w) (calm_world ?w6)"
    using w1(1) w2(1) run3 w5(1) by (meson rtranclp.rtrancl_into_rtrancl rtranclp_trans)
  with ph w5(4) show ?thesis by (intro exI [of _ ?w6] exI [of _ i]) simp
qed

text \<open>Three backends, with the process ids 41, 42 and 43.\<close>

definition crowded_world :: "nat list world" where
  "crowded_world = example_world\<lparr>shared := example_state\<lparr>proc_latch :=
     [41 \<mapsto> False, 42 \<mapsto> False, 43 \<mapsto> False]\<rparr>\<rparr>"

lemma crowded_world_initial: "initial list_slist 2 crowded_world"
  and crowded_world_queue: "0 < queue_capacity (ch_queue (channel (shared crowded_world)))"
  using example_world_initial example_world_queue
  by (simp_all add: crowded_world_def initial_def) (simp_all add: example_world_def)

theorem cancelled_check_misdirects_answer_witness:
  "\<exists>w i. (fine_step list_slist (answer_all FGA_RESPONSE_OK True) True)\<^sup>*\<^sup>* (calm_world crowded_world) (calm_world w) \<and>
     phases w 42 = Served i (request zero_payload) \<and> phases w 43 = Awaiting i ((request zero_payload)\<lparr>request_id := 7\<rparr>) \<and>
     slot_response (shared w) i = answer_all FGA_RESPONSE_OK True ((request zero_payload)\<lparr>request_id := 7\<rparr>) (response zero_payload)"
  by (rule cancelled_check_misdirects_answer [OF crowded_world_initial _ crowded_world_queue, of 41])
    (simp_all add: crowded_world_def del: not_None_eq)

section \<open>A session ends before the wake-up\<close>

text \<open>A backend ends its session between two calls, at any moment: the step that \<open>fine_life\<close> restricts.\<close>

inductive session_step ::
  "'l slist_ops \<Rightarrow> (FgaRequest \<Rightarrow> FgaResponse \<Rightarrow> FgaResponse) \<Rightarrow> 'l fine \<Rightarrow> 'l fine \<Rightarrow> bool"
  for sl serve where
  act: "fine_step sl serve False f f' \<Longrightarrow> session_step sl serve f f'"
| leave: "phases (world_of f) p = Idle \<Longrightarrow> catchers f p = None \<Longrightarrow>
     session_step sl serve f (f\<lparr>world_of := terminated p (world_of f)\<rparr>)"

lemma fine_run_session: "(fine_step sl serve False)\<^sup>*\<^sup>* f f' \<Longrightarrow> (session_step sl serve)\<^sup>*\<^sup>* f f'"
  by (erule rtranclp_mono [THEN predicate2D, rotated]) (auto intro: session_step.act)

lemma session_backend:
  "base_step sl serve (Backend p) w w' \<Longrightarrow> session_step sl serve (fine_at w (\<lambda>p. None) h) (fine_at w' (\<lambda>p. None) h)"
  by (intro session_step.act fine_calm) simp_all

text \<open>What \<open>slist_push_head\<close> does with the node that already is the head: the next two pops
  return it (in the \<open>slist\<close> of PostgreSQL it then is its own successor).\<close>

definition pushes_twice :: "'l slist_ops \<Rightarrow> bool" where
  "pushes_twice sl \<longleftrightarrow> (\<forall>l i F. sl_nodes sl l = i # F \<longrightarrow>
     (let l1 = sl_push sl l i; l2 = snd (sl_pop sl l1) in
        \<not> sl_is_empty sl l1 \<and> fst (sl_pop sl l1) = i \<and> \<not> sl_is_empty sl l2 \<and> fst (sl_pop sl l2) = i))"

lemma list_slist_pushes_twice: "pushes_twice list_slist"
  by (simp add: pushes_twice_def list_slist_def List.null_iff)

definition pool_list :: "'l FgaState \<Rightarrow> 'l" where
  "pool_list s = pool_head (ch_pool (channel s))"

lemma acquire_head:
  assumes "\<not> sl_is_empty sl (pool_list s)"
  obtains s' where "fga_channel_acquire_slot sl p s = (Inr (fst (sl_pop sl (pool_list s))), s')"
    and "pool_list s' = snd (sl_pop sl (pool_list s))" and "proc_latch s' = proc_latch s"
proof (cases "sl_pop sl (pool_list s)")
  case (Pair i l)
  with assms show thesis
    by (intro that [of "snd (fga_channel_acquire_slot sl p s)"])
      (simp_all add: fga_channel_acquire_slot_def acquire_slot_def pool_list_def Let_def on_pool_def set_slot_def
        update_slot_def)
qed

text \<open>Two backends in turn acquire the slot that is twice on the list.\<close>

lemma two_acquire:
  assumes dbl: "pushes_twice sl" and s: "sl_nodes sl (pool_list s) = i # F" "shared w = fga_channel_release_slot sl i s"
    and q: "\<forall>x \<in> {q, r}. phases w x = Idle \<and> proc_latch (shared w) x \<noteq> None" and "q \<noteq> r"
  shows "\<exists>w'. (session_step sl serve)\<^sup>*\<^sup>* (calm_world w) (calm_world w') \<and> phases w' q = Filling i \<and> phases w' r = Filling i"
proof -
  let ?l1 = "sl_push sl (pool_list s) i"
  have l: "pool_list (shared w) = ?l1"
    by (simp add: s(2) pool_list_def fga_channel_release_slot_def on_pool_def release_slot_def Let_def)
  have d: "\<not> sl_is_empty sl ?l1" "fst (sl_pop sl ?l1) = i" "\<not> sl_is_empty sl (snd (sl_pop sl ?l1))"
    "fst (sl_pop sl (snd (sl_pop sl ?l1))) = i"
    using dbl s(1) by (auto simp: pushes_twice_def Let_def)
  obtain s1 where a1: "fga_channel_acquire_slot sl q (shared w) = (Inr i, s1)"
    "pool_list s1 = snd (sl_pop sl ?l1)" "proc_latch s1 = proc_latch (shared w)"
    using acquire_head [of sl "shared w" q] d(1,2) l by auto
  obtain s2 where a2: "fga_channel_acquire_slot sl r s1 = (Inr i, s2)"
    using acquire_head [of sl s1 r] d(3,4) a1(2) by auto
  let ?w1 = "w\<lparr>shared := s1, phases := (phases w)(q := Filling i)\<rparr>"
  let ?w2 = "?w1\<lparr>shared := s2, phases := (phases ?w1)(r := Filling i)\<rparr>"
  have "base_step sl serve (Backend q) w ?w1" by (rule base_step.acquire) (use q a1(1) in auto)
  then have "session_step sl serve (calm_world w) (calm_world ?w1)"
    unfolding calm_world_def by (rule session_backend)
  moreover have "base_step sl serve (Backend r) ?w1 ?w2"
    by (rule base_step.acquire) (use q a1(3) a2 \<open>q \<noteq> r\<close> in auto)
  then have "session_step sl serve (calm_world ?w1) (calm_world ?w2)"
    unfolding calm_world_def by (rule session_backend)
  ultimately have "(session_step sl serve)\<^sup>*\<^sup>* (calm_world w) (calm_world ?w2)" by simp
  then show ?thesis using \<open>q \<noteq> r\<close> by (intro exI [of _ ?w2]) simp
qed

text \<open>The backend sees DONE, releases the slot and is gone, all before the worker's wake-up, which
  finds no process and releases the slot again.\<close>

lemma leaves_before_wake:
  assumes due: "response_due sl serve n p i req w0 w" and wf: "chan_wf sl n (shared w0)" and ph: "phases w0 p = Idle"
  shows "\<exists>w' s. (session_step sl serve)\<^sup>*\<^sup>* (calm_world w) (calm_world w') \<and>
    sl_nodes sl (pool_list s) = i # free_slots sl (shared w) \<and> shared w' = fga_channel_release_slot sl i s \<and>
    phases w' = phases w0 \<and> proc_latch (shared w') = (proc_latch (shared w0))(p := None)"
proof -
  let ?step = "session_step sl serve" and ?at = "\<lambda>w. fine_at w (\<lambda>p. None) (Some (i, True))"
  have d: "chan_wf sl n (shared w)" "i < n" "i \<notin> set (free_slots sl (shared w))" "completed_queue w = [i]"
    "slot_state (slot_of (shared w) i) = FGA_CHANNEL_SLOT_PROCESSING" "phases w = (phases w0)(p := Awaiting i req)"
    "backend_pid (slot_of (shared w) i) = p" "proc_latch (shared w) = proc_latch (shared w0)"
    "i < slot_count (shared w)"
    using due chan_wf_count [of sl n "shared w"] chan_wf_free(1) [OF wf] by (simp_all add: response_due_def)
  have ph: "(phases w)(p := Idle) = phases w0" using d(6) ph by auto
  define s1 where "s1 = slot_state_set i FGA_CHANNEL_SLOT_DONE (shared w)"
  let ?w1 = "w\<lparr>completed_queue := [], shared := s1\<rparr>"
  have r1: "?step\<^sup>*\<^sup>* (calm_world w) (?at ?w1)"
    unfolding calm_world_def s1_def
    by (rule fine_run_session, rule fine_done) (simp_all add: d(4,5))
  have st: "slot_state (slot_of s1 i) = FGA_CHANNEL_SLOT_DONE" using d(9) by (simp add: s1_def slot_state_set_def)
  let ?w2 = "?w1\<lparr>phases := (phases w)(p := Served i req)\<rparr>"
  define s3 where "s3 = fga_channel_release_slot sl i s1"
  let ?w3 = "?w2\<lparr>shared := s3, phases := phases w0\<rparr>"
  let ?w4 = "terminated p ?w3"
  have r2: "?step (?at ?w1) (?at ?w2)"
    using session_backend [OF base_step.answered [of ?w1 p i req sl serve]] d(6) st by simp
  have r3: "?step (?at ?w2) (?at ?w3)"
    using session_backend [OF base_step.release [of ?w2 p i req sl serve]] by (simp add: ph s3_def)
  have r4: "?step (?at ?w3) (?at ?w4)"
    using session_step.leave [of "?at ?w3" p sl serve] ph by (simp add: fun_upd_idem_iff) (metis fun_upd_same)
  let ?w5 = "?w4\<lparr>shared := fga_channel_release_slot sl i (shared ?w4)\<rparr>"
  have "backend_pid (slot_of s3 i) = p" "proc_latch s3 = proc_latch (shared w0)"
    using d(7-9) by (simp_all add: s3_def s1_def slot_state_set_def slot_of_release)
  then have "proc_latch (shared ?w4) (backend_pid (slot_of (shared ?w4) i)) = None"
    by (simp add: terminated_def slot_of_def)
  then have r5: "?step (?at ?w4) (calm_world ?w5)"
    using session_step.act [OF fine_wake [of sl serve False ?w4 "\<lambda>p. None" i]]
    by (simp add: calm_world_def wakeBackend_failed)
  have run: "?step\<^sup>*\<^sup>* (calm_world w) (calm_world ?w5)"
    using r1 r2 r3 r4 r5 by (meson rtranclp.rtrancl_into_rtrancl)
  have wf: "chan_wf sl n s1" unfolding s1_def slot_state_set_def by (rule chan_wf_set_slot [OF d(1,3)])
  have "free_slots sl s3 = i # free_slots sl (shared w)"
    using fga_channel_release_slot_spec [OF wf d(2)] d(3) by (simp add: s3_def s1_def slot_state_set_def)
  then have "sl_nodes sl (pool_list (shared ?w4)) = i # free_slots sl (shared w)"
    by (simp add: terminated_def pool_list_def free_slots_def pool_free_def)
  moreover have "proc_latch (shared ?w5) = (proc_latch (shared w0))(p := None)" "phases ?w5 = phases w0"
    using \<open>proc_latch s3 = proc_latch (shared w0)\<close> ph by (simp_all add: terminated_def) (metis fun_upd_same fun_upd_triv)
  ultimately show ?thesis using run by (intro exI [of _ ?w5] exI [of _ "shared ?w4"]) simp
qed

text \<open>C4: Without any cancel, a backend whose session ends right after its check can make two others
  share a slot. From every initial state, with three backends, there is a run in which the first
  sees the DONE of its answer before the worker wakes it, returns the slot and ends its session;
  the worker finds no process to wake and returns the slot again; the other two then acquire it
  and both fill it in.\<close>

theorem session_end_shares_slot:
  assumes "initial sl n w" and "0 < n" and "0 < queue_capacity (ch_queue (channel (shared w)))"
    and "\<forall>x \<in> {p, q, r}. proc_latch (shared w) x \<noteq> None" and "distinct [p, q, r]" and "pushes_twice sl"
  shows "\<exists>w' i. (session_step sl serve)\<^sup>*\<^sup>* (calm_world w) (calm_world w') \<and>
    phases w' q = Filling i \<and> phases w' r = Filling i"
proof -
  have rest: "at_rest sl n {p, q, r} w" using assms(1,3,4) by (simp add: at_rest_def initial_def)
  obtain i F where free: "free_slots sl (shared w) = i # F"
    using assms(1,2) by (cases "free_slots sl (shared w)") (auto simp: initial_def)
  have idle: "phases w = (\<lambda>p. Idle)" and wf: "chan_wf sl n (shared w)" using assms(1) by (simp_all add: initial_def)
  obtain w1 where w1: "(local_step sl serve p)\<^sup>*\<^sup>* w w1"
    and due: "response_due sl serve n p i (request zero_payload) w w1"
    by (rule send_and_serve [OF rest _ free, of p]) simp_all
  have r1: "(session_step sl serve)\<^sup>*\<^sup>* (calm_world w) (calm_world w1)"
    unfolding calm_world_def by (rule fine_run_session, rule fine_local [OF w1]) simp
  obtain w2 s where r2: "(session_step sl serve)\<^sup>*\<^sup>* (calm_world w1) (calm_world w2)"
    and s: "sl_nodes sl (pool_list s) = i # free_slots sl (shared w1)" "shared w2 = fga_channel_release_slot sl i s"
    and w2: "phases w2 = phases w" "proc_latch (shared w2) = (proc_latch (shared w))(p := None)"
    using leaves_before_wake [OF due wf] idle by auto
  have "\<exists>w3. (session_step sl serve)\<^sup>*\<^sup>* (calm_world w2) (calm_world w3) \<and>
      phases w3 q = Filling i \<and> phases w3 r = Filling i"
    by (rule two_acquire [OF assms(6) s]) (use assms(4,5) idle w2 in auto)
  with r1 r2 show ?thesis by (meson rtranclp_trans)
qed

theorem session_end_shares_slot_witness:
  "\<exists>w i. (session_step list_slist (answer_all FGA_RESPONSE_OK True))\<^sup>*\<^sup>* (calm_world crowded_world) (calm_world w) \<and>
     phases w 42 = Filling i \<and> phases w 43 = Filling i"
  by (rule session_end_shares_slot [OF crowded_world_initial _ crowded_world_queue, of 41])
    (simp_all add: crowded_world_def list_slist_pushes_twice del: not_None_eq)

end
