(* ===== verification/Wakeups.thy ===== *)
theory Wakeups
  imports Interleaving
begin

text \<open>
  Who sleeps and who is woken. \<open>Protocol\<close> lets every process act whenever it has something to do;
  in the code a backend sleeps on its latch between two looks at its slot's state
  (\<open>wait_response\<close> in \<open>src/channel.c\<close>), and the worker sleeps on its own between two turns
  (\<open>Worker::process\<close> in \<open>src/bgw/worker.cpp\<close>): it resets the latch, drains at most \<open>MAX_BATCH\<close>
  requests, hands the claimed ones to the client, and handles what \<open>completed_queue_\<close> holds when it
  swaps it (\<open>src/bgw/processor.cpp\<close>). A client thread pushes a slot and then sets the worker's latch.

  The relation here has these stages. Its theorems say when a wake-up can be lost: never without
  cancels, nor with at most \<open>MAX_BATCH\<close> slots; but a worker that drains only cancelled requests goes
  to sleep with the rest of the queue before it.
\<close>

section \<open>Stages\<close>

text \<open>\<open>Handle m\<close>: the first \<open>m\<close> slots of the completed queue are in the vector \<open>local\<close> of
  \<open>drainCompleted\<close>.\<close>

datatype stage = Asleep | Drain | Claim | Handle nat

text \<open>\<open>asleep p\<close> says that backend \<open>p\<close> is in \<open>WaitLatch\<close>; \<open>notifying\<close> counts the client threads that
  have pushed a slot and not yet set the latch.\<close>

record 'l waking =
  wk_world :: "'l world"
  asleep :: "int \<Rightarrow> bool"
  stage :: stage
  notifying :: nat

inductive wake_step ::
  "'l slist_ops \<Rightarrow> (FgaRequest \<Rightarrow> FgaResponse \<Rightarrow> FgaResponse) \<Rightarrow> bool \<Rightarrow> 'l waking \<Rightarrow> 'l waking \<Rightarrow> bool"
  for sl serve cancels where
  backend: "\<not> asleep k p \<Longrightarrow> base_step sl serve (Backend p) (wk_world k) w' \<Longrightarrow>
     wake_step sl serve cancels k (k\<lparr>wk_world := w'\<rparr>)"
| sleep: "w = wk_world k \<Longrightarrow> phases w p = Awaiting i req \<Longrightarrow>
     slot_state (slot_of (shared w) i) \<notin> {FGA_CHANNEL_SLOT_DONE, FGA_CHANNEL_SLOT_CANCELED} \<Longrightarrow>
     wake_step sl serve cancels k (k\<lparr>asleep := (asleep k)(p := True)\<rparr>)"
| wake: "w = wk_world k \<Longrightarrow> asleep k p \<Longrightarrow> proc_latch (shared w) p = Some True \<Longrightarrow>
     wake_step sl serve cancels k
       (k\<lparr>wk_world := w\<lparr>shared := reset_latch p (shared w)\<rparr>, asleep := (asleep k)(p := False)\<rparr>)"
| signal: "w = wk_world k \<Longrightarrow> proc_latch (shared w) p \<noteq> None \<Longrightarrow>
     wake_step sl serve cancels k
       (k\<lparr>wk_world := w\<lparr>shared := (shared w)\<lparr>proc_latch := (proc_latch (shared w))(p \<mapsto> True)\<rparr>\<rparr>\<rparr>)"
| cancel: "cancels \<Longrightarrow> w = wk_world k \<Longrightarrow> \<not> asleep k p \<Longrightarrow> phases w p = Awaiting i req \<Longrightarrow>
     wake_step sl serve cancels k
       (k\<lparr>wk_world := w\<lparr>shared := wait_catch sl i (shared w), phases := (phases w)(p := Idle)\<rparr>\<rparr>)"
| worker_wakes: "w = wk_world k \<Longrightarrow> stage k = Asleep \<Longrightarrow> bgw_latch (shared w) = Some True \<Longrightarrow>
     wake_step sl serve cancels k
       (k\<lparr>wk_world := w\<lparr>shared := (shared w)\<lparr>bgw_latch := Some False\<rparr>\<rparr>, stage := Drain\<rparr>)"
| drains: "w = wk_world k \<Longrightarrow> stage k = Drain \<Longrightarrow> drained w = [] \<Longrightarrow>
     fga_channel_drain_slots MAX_BATCH (shared w) = (xs, s') \<Longrightarrow>
     wake_step sl serve cancels k (k\<lparr>wk_world := w\<lparr>shared := s', drained := xs\<rparr>, stage := Claim\<rparr>)"
| claims: "w = wk_world k \<Longrightarrow> stage k = Claim \<Longrightarrow> drained w = i # rest \<Longrightarrow>
     beginProcessing sl i (shared w) = (ok, s') \<Longrightarrow>
     wake_step sl serve cancels k (k\<lparr>wk_world := w\<lparr>shared := s', drained := rest,
       inflight := (if ok then inflight w @ [i] else inflight w)\<rparr>\<rparr>)"
| swaps: "stage k = Claim \<Longrightarrow> drained (wk_world k) = [] \<Longrightarrow>
     wake_step sl serve cancels k (k\<lparr>stage := Handle (length (completed_queue (wk_world k)))\<rparr>)"
| handles: "w = wk_world k \<Longrightarrow> stage k = Handle (Suc m) \<Longrightarrow> completed_queue w = i # rest \<Longrightarrow>
     wake_step sl serve cancels k (k\<lparr>wk_world := w\<lparr>shared := handleResponse sl i (shared w),
       completed_queue := rest\<rparr>, stage := Handle m\<rparr>)"
| sleeps: "stage k = Handle 0 \<Longrightarrow> wake_step sl serve cancels k (k\<lparr>stage := Asleep\<rparr>)"
| serves: "w = wk_world k \<Longrightarrow> i \<in> set (inflight w) \<Longrightarrow>
     wake_step sl serve cancels k (k\<lparr>wk_world := w\<lparr>shared := complete serve i (shared w),
       inflight := remove1 i (inflight w), completed_queue := completed_queue w @ [i]\<rparr>,
       notifying := Suc (notifying k)\<rparr>)"
| notifies: "w = wk_world k \<Longrightarrow> notifying k = Suc m \<Longrightarrow>
     wake_step sl serve cancels k
       (k\<lparr>wk_world := w\<lparr>shared := (shared w)\<lparr>bgw_latch := Some True\<rparr>\<rparr>, notifying := m\<rparr>)"

text \<open>The worker asleep and nothing under way, in a world of the protocol.\<close>

definition sleeping_world :: "'l world \<Rightarrow> 'l waking" where
  "sleeping_world w = \<lparr>wk_world = w, asleep = (\<lambda>p. False), stage = Asleep, notifying = 0\<rparr>"

section \<open>What has been announced\<close>

text \<open>The worker's latch is set, or will be.\<close>

definition bgw_called :: "'l waking \<Rightarrow> bool" where
  "bgw_called k \<longleftrightarrow> bgw_latch (shared (wk_world k)) = Some True \<or> 0 < notifying k"

text \<open>A response that this turn does not handle has been announced.\<close>

definition responses_announced :: "'l waking \<Rightarrow> bool" where
  "responses_announced k \<longleftrightarrow> (case stage k of
     Asleep \<Rightarrow> completed_queue (wk_world k) \<noteq> [] \<longrightarrow> bgw_called k
   | Handle m \<Rightarrow> m \<le> length (completed_queue (wk_world k)) \<and>
       (m < length (completed_queue (wk_world k)) \<longrightarrow> bgw_called k)
   | _ \<Rightarrow> True)"

text \<open>A request that this turn does not drain has been announced, or there is a response to come.\<close>

definition requests_announced :: "bool \<Rightarrow> 'l waking \<Rightarrow> bool" where
  "requests_announced cancels k \<longleftrightarrow> (stage k \<noteq> Drain \<longrightarrow> queued (shared (wk_world k)) \<noteq> [] \<longrightarrow>
     bgw_latch (shared (wk_world k)) = Some True \<or>
     (\<not> cancels \<and> (0 < notifying k \<or> drained (wk_world k) \<noteq> [] \<or> inflight (wk_world k) \<noteq> [])))"

text \<open>The latch of a sleeping backend whose request is answered is set.\<close>

definition answer_announced :: "'l waking \<Rightarrow> int \<Rightarrow> bool" where
  "answer_announced k p \<longleftrightarrow> (asleep k p \<longrightarrow> (\<exists>i req. phases (wk_world k) p = Awaiting i req \<and>
     (slot_state (slot_of (shared (wk_world k)) i) = FGA_CHANNEL_SLOT_DONE \<longrightarrow>
        proc_latch (shared (wk_world k)) p = Some True)))"

definition uncanceled :: "nat \<Rightarrow> 'l world \<Rightarrow> bool" where
  "uncanceled n w \<longleftrightarrow> (\<forall>i < n. slot_state (slot_of (shared w) i) \<noteq> FGA_CHANNEL_SLOT_CANCELED)"

definition announced ::
  "'l slist_ops \<Rightarrow> (FgaRequest \<Rightarrow> FgaResponse \<Rightarrow> FgaResponse) \<Rightarrow> nat \<Rightarrow> bool \<Rightarrow> 'l waking \<Rightarrow> bool" where
  "announced sl serve n cancels k \<longleftrightarrow> owned {} {} sl serve n (wk_world k) \<and>
     (stage k \<noteq> Claim \<longrightarrow> drained (wk_world k) = []) \<and> (\<not> cancels \<longrightarrow> uncanceled n (wk_world k)) \<and>
     responses_announced k \<and> requests_announced cancels k \<and> (\<forall>p. answer_announced k p)"

section \<open>Every step keeps it\<close>

text \<open>What a step of a backend leaves to the others.\<close>

lemma backend_frame:
  assumes "base_step sl serve (Backend p) w w'"
  shows "drained w' = drained w \<and> inflight w' = inflight w \<and> completed_queue w' = completed_queue w"
    and "bgw_latch (shared w') = Some True \<or>
      (queued (shared w') = queued (shared w) \<and> bgw_latch (shared w') = bgw_latch (shared w))"
    and "q \<noteq> p \<Longrightarrow> phases w' q = phases w q \<and> proc_latch (shared w') q = proc_latch (shared w) q"
proof -
  note eqs = fga_wake_bgw_def reset_latch_def fga_channel_acquire_slot_def Let_def on_pool_def
    set_slot_def queued_def put_request_def
  show "drained w' = drained w \<and> inflight w' = inflight w \<and> completed_queue w' = completed_queue w"
    using assms by cases simp_all
  show "bgw_latch (shared w') = Some True \<or>
      (queued (shared w') = queued (shared w) \<and> bgw_latch (shared w') = bgw_latch (shared w))"
    using assms by cases (auto simp: eqs split: option.splits prod.splits)
  show "q \<noteq> p \<Longrightarrow> phases w' q = phases w q \<and> proc_latch (shared w') q = proc_latch (shared w) q"
    using assms by cases (auto simp: eqs split: option.splits prod.splits)
qed

lemma answer_announced_frame:
  assumes "answer_announced k p" and "asleep k' p \<Longrightarrow> asleep k p"
    and "phases (wk_world k') p = phases (wk_world k) p"
    and "proc_latch (shared (wk_world k)) p = Some True \<Longrightarrow> proc_latch (shared (wk_world k')) p = Some True"
    and "\<And>i req. phases (wk_world k) p = Awaiting i req \<Longrightarrow>
      slot_state (slot_of (shared (wk_world k')) i) = FGA_CHANNEL_SLOT_DONE \<Longrightarrow>
      slot_state (slot_of (shared (wk_world k)) i) = FGA_CHANNEL_SLOT_DONE"
  shows "answer_announced k' p"
  using assms unfolding answer_announced_def by metis

text \<open>What handling a response does to the slots.\<close>

lemma handle_slots:
  assumes o: "owned L {} sl serve n w" and c: "completed_queue w = i # rest"
  shows "i < n \<and> (\<forall>j. j \<noteq> i \<longrightarrow> slot_of (handleResponse sl i (shared w)) j = slot_of (shared w) j) \<and>
    slot_state (slot_of (handleResponse sl i (shared w)) i) \<noteq> FGA_CHANNEL_SLOT_CANCELED \<and>
    (\<forall>p. proc_latch (shared w) p = Some True \<longrightarrow> proc_latch (handleResponse sl i (shared w)) p = Some True) \<and>
    (\<forall>p req. phases w p = Awaiting i req \<longrightarrow> proc_latch (handleResponse sl i (shared w)) p = Some True)"
proof -
  have i: "i < n" using owned_lists(7) [OF o] c by simp
  have cnt: "i < slot_count (shared w)" using owned_count [OF o] i by simp
  have nl: "i \<notin> L" using listed_not_lost [OF o i] c by auto
  have inv: "slot_inv L {} sl serve w i" using o i by (simp add: owned_def)
  with c nl have ww: "with_worker {} w i FGA_CHANNEL_SLOT_PROCESSING (\<lambda>req. serve req (response zero_payload))"
    by (auto simp: slot_inv_def split: if_splits)
  let ?s = "slot_state_set i FGA_CHANNEL_SLOT_DONE (shared w)"
  from ww consider (canceled) "slot_state (slot_of (shared w) i) = FGA_CHANNEL_SLOT_CANCELED" "unheld w i"
    | (answered) q where "sole w q i" "slot_state (slot_of (shared w) i) = FGA_CHANNEL_SLOT_PROCESSING"
        "backend_pid (slot_of (shared w) i) = q" "proc_latch (shared w) q \<noteq> None"
    by (auto simp: with_worker_def)
  then show ?thesis
  proof cases
    case canceled
    moreover have "phases w p \<noteq> Awaiting i req" for p req
      using canceled(2) unfolding unheld_def by (metis holds.simps(3))
    ultimately show ?thesis using i cnt by (simp add: handleResponse_def slot_of_release)
  next
    case answered
    have h: "handleResponse sl i (shared w) = ?s\<lparr>proc_latch := (proc_latch (shared w))(q \<mapsto> True)\<rparr>"
      using answered cnt by (simp add: handleResponse_def wakeBackend_woken slot_state_set_def del: not_None_eq)
    have "p = q" if "phases w p = Awaiting i req" for p req
      using answered(1) that unfolding sole_def by (metis holds.simps(3))
    with i cnt show ?thesis by (auto simp: h slot_state_set_def)
  qed
qed

text \<open>The protocol's invariant, and the slots without cancels.\<close>

lemma wake_step_owned:
  assumes o: "owned {} {} sl serve n (wk_world k)" and st: "wake_step sl serve cancels k k'"
  shows "owned {} {} sl serve n (wk_world k')"
  using st
proof cases
  case (backend p w')
  with base_step_owned [OF backend(3) o] show ?thesis by simp
next
  case (wake w p)
  with o owned_wake_up [of "{}" "{}" sl serve n w p] show ?thesis by simp
next
  case (signal w p)
  with o owned_set_latch(2) [of "{}" "{}" sl serve n w p True] show ?thesis by simp
next
  case (cancel w p i req)
  with o step_owned [OF step.interrupt [of w p i req sl serve False]] show ?thesis by simp
next
  case (worker_wakes w)
  with o owned_set_latch(1) [of "{}" "{}" sl serve n w False] show ?thesis by simp
next
  case (drains w xs s')
  with o owned_drain [of "{}" "{}" sl serve n w MAX_BATCH xs s'] show ?thesis by simp
next
  case (claims w i rest ok s')
  with o owned_claim [of "{}" "{}" sl serve n w i rest ok s'] show ?thesis by simp
next
  case (handles w m i rest)
  with o step_owned [OF step.handle [OF handles(4), of sl serve False]] show ?thesis by simp
next
  case (serves w i)
  with o owned_serve [of "{}" "{}" sl serve n w i] show ?thesis by simp
next
  case (notifies w m)
  with o owned_set_latch(1) [of "{}" "{}" sl serve n w True] show ?thesis by simp
qed (use o in simp_all)

lemma wake_step_uncanceled:
  assumes o: "owned {} {} sl serve n (wk_world k)" and u: "uncanceled n (wk_world k)"
    and st: "wake_step sl serve False k k'"
  shows "uncanceled n (wk_world k')"
  using st
proof cases
  case (backend p w')
  with base_step_slot [OF backend(3) o] u show ?thesis by (fastforce simp: uncanceled_def)
next
  case (drains w xs s')
  with u drain_batch(5) [OF owned_wf [OF o], of xs s'] show ?thesis by (simp add: uncanceled_def)
next
  case (claims w i rest ok s')
  have b: "base_step sl serve Bgw w (w\<lparr>shared := s', drained := rest, inflight := (if ok then inflight w @ [i] else inflight w)\<rparr>)"
    by (rule base_step.claim [OF claims(4,5)])
  have "owned {} {} sl serve n w" using o claims(2) by simp
  with base_step_slot [OF b this] u claims(1,2) show ?thesis by (fastforce simp: uncanceled_def)
next
  case (handles w m i rest)
  have "owned {} {} sl serve n w" using o handles(2) by simp
  note h = handle_slots [OF this handles(4)]
  have "slot_state (slot_of (handleResponse sl i (shared w)) j) \<noteq> FGA_CHANNEL_SLOT_CANCELED" if "j < n" for j
    using h u that handles(2) by (cases "j = i") (simp_all add: uncanceled_def)
  with handles(1) show ?thesis by (simp add: uncanceled_def)
next
  case (serves w i)
  have "i < slot_count (shared w)" using owned_count [OF o] owned_lists(6) [OF o] serves(2,3) by auto
  with serves u show ?thesis by (simp add: uncanceled_def complete_def)
qed (use u in \<open>simp_all add: uncanceled_def\<close>)

text \<open>The backends.\<close>

lemma cancel_announces:
  assumes o: "owned {} {} sl serve n w" and ph: "phases w q = Awaiting i req" and ap: "answer_announced k p"
    and k: "wk_world k = w" "\<not> asleep k q"
  shows "answer_announced (k\<lparr>wk_world := w\<lparr>shared := wait_catch sl i (shared w), phases := (phases w)(q := Idle)\<rparr>\<rparr>) p"
proof (cases "q = p")
  case True
  with k show ?thesis by (simp add: answer_announced_def)
next
  case False
  have "i < slot_count (shared w)" and so: "sole w q i"
    using owned_awaiting(1,3) [OF o ph] owned_count [OF o] by simp_all
  then have "slot_of (wait_catch sl i (shared w)) j = slot_of (shared w) j"
    "proc_latch (wait_catch sl i (shared w)) = proc_latch (shared w)" if "j \<noteq> i" for j
    using that by (auto simp: wait_catch_def Let_def slot_of_release)
  moreover have "j \<noteq> i" if "phases w p = Awaiting j req'" for j req'
    using so False that unfolding sole_def by (metis holds.simps(3))
  ultimately show ?thesis
    using ap False k(1) unfolding answer_announced_def by fastforce
qed

lemma handle_announces:
  assumes o: "owned {} {} sl serve n w" and c: "completed_queue w = i # rest" and ap: "answer_announced k p"
    and k: "wk_world k = w" "asleep k' = asleep k"
      "wk_world k' = w\<lparr>shared := handleResponse sl i (shared w), completed_queue := rest\<rparr>"
  shows "answer_announced k' p"
proof (cases "asleep k p")
  case True
  then obtain j req where j: "phases w p = Awaiting j req"
    "slot_state (slot_of (shared w) j) = FGA_CHANNEL_SLOT_DONE \<longrightarrow> proc_latch (shared w) p = Some True"
    using ap k(1) by (auto simp: answer_announced_def)
  then have "slot_state (slot_of (handleResponse sl i (shared w)) j) = FGA_CHANNEL_SLOT_DONE \<longrightarrow>
      proc_latch (handleResponse sl i (shared w)) p = Some True"
    using handle_slots [OF o c] by (cases "j = i") auto
  with j(1) k show ?thesis by (simp add: answer_announced_def)
next
  case False
  with k show ?thesis by (simp add: answer_announced_def)
qed

lemma wake_step_answers:
  assumes o: "owned {} {} sl serve n (wk_world k)" and a: "\<forall>p. answer_announced k p"
    and st: "wake_step sl serve cancels k k'"
  shows "answer_announced k' p"
proof -
  have ap: "answer_announced k p" using a by blast
  have slot: "i < n" if "phases (wk_world k) p = Awaiting i req" for i req
    using owned_lists(8) [OF o, of p i] that by simp
  from st show ?thesis
  proof cases
    case (backend q w')
    show ?thesis
    proof (cases "q = p")
      case True
      with backend show ?thesis by (simp add: answer_announced_def)
    next
      case False
      with backend base_step_slot [OF backend(3) o slot] backend_frame(3) [OF backend(3), of p]
      show ?thesis by (intro answer_announced_frame [OF ap]) (auto simp: eq_commute)
    qed
  next
    case (sleep w q i req)
    with ap show ?thesis by (auto simp: answer_announced_def)
  next
    case (wake w q)
    with ap show ?thesis by (auto simp: answer_announced_def reset_latch_def)
  next
    case (signal w q)
    with ap show ?thesis by (auto simp: answer_announced_def)
  next
    case (cancel w q i req)
    show ?thesis unfolding cancel(1)
      by (rule cancel_announces [of sl serve n, OF _ cancel(5) ap cancel(3) [symmetric] cancel(4)]) (simp add: o cancel(3))
  next
    case (drains w xs s')
    with ap drain_batch(5,7) [OF owned_wf [OF o], of xs s'] show ?thesis by (simp add: answer_announced_def)
  next
    case (claims w i rest ok s')
    have b: "base_step sl serve Bgw w (w\<lparr>shared := s', drained := rest, inflight := (if ok then inflight w @ [i] else inflight w)\<rparr>)"
      by (rule base_step.claim [OF claims(4,5)])
    have "proc_latch s' = proc_latch (shared w)" using claims(5) by (auto simp: beginProcessing_def slot_state_set_def split: if_splits)
    with claims(1,2) base_step_slot [OF b o [unfolded claims(2) [symmetric]] slot]
    show ?thesis by (intro answer_announced_frame [OF ap]) (auto simp: eq_commute)
  next
    case (handles w m i rest)
    show ?thesis
      by (rule handle_announces [of sl serve n w i rest k p k']) (use handles(1,2,4) o ap in simp_all)
  next
    case (serves w i)
    have "i < slot_count (shared w)" using owned_count [OF o] owned_lists(6) [OF o] serves(2,3) by auto
    with serves ap show ?thesis by (auto simp: answer_announced_def complete_def)
  qed (use ap in \<open>simp_all add: answer_announced_def\<close>)
qed

text \<open>The worker.\<close>

lemma handleResponse_bgw [simp]: "bgw_latch (handleResponse sl i s) = bgw_latch s"
  by (simp add: handleResponse_def wakeBackend_def fga_channel_wake_backend_def Let_def split: option.splits)

lemma wait_catch_bgw [simp]: "bgw_latch (wait_catch sl i s) = bgw_latch s" "queued (wait_catch sl i s) = queued s"
  by (simp_all add: wait_catch_def Let_def)

lemma beginProcessing_bgw: "beginProcessing sl i s = (ok, s') \<Longrightarrow> bgw_latch s' = bgw_latch s"
  by (auto simp: beginProcessing_def slot_state_set_def split: if_splits)

lemma wake_step_drained:
  assumes "stage k \<noteq> Claim \<longrightarrow> drained (wk_world k) = []" and "wake_step sl serve cancels k k'"
  shows "stage k' \<noteq> Claim \<longrightarrow> drained (wk_world k') = []"
  using assms(2)
  by cases (use assms(1) in \<open>auto dest: backend_frame(1)\<close>)

lemma wake_step_responses:
  assumes r: "responses_announced k" and st: "wake_step sl serve cancels k k'"
  shows "responses_announced k'"
  using st
proof cases
  case (backend p w')
  with r backend_frame(1,2) [OF backend(3)] show ?thesis
    by (auto simp: responses_announced_def bgw_called_def split: stage.splits)
next
  case (serves w i)
  with r show ?thesis by (auto simp: responses_announced_def bgw_called_def split: stage.splits)
qed (use r in \<open>auto simp: responses_announced_def bgw_called_def reset_latch_def split: stage.splits\<close>)

lemma wake_step_requests:
  assumes a: "announced sl serve n cancels k" and n: "cancels \<longrightarrow> n \<le> 50" and st: "wake_step sl serve cancels k k'"
  shows "requests_announced cancels k'"
proof -
  have o: "owned {} {} sl serve n (wk_world k)" and r: "requests_announced cancels k"
    and u: "\<not> cancels \<longrightarrow> uncanceled n (wk_world k)" using a by (simp_all add: announced_def)
  from st show ?thesis
  proof cases
    case (backend p w')
    with r backend_frame(1,2) [OF backend(3)] show ?thesis by (auto simp: requests_announced_def)
  next
    case (drains w xs s')
    have wf: "chan_wf sl n (shared w)" using owned_wf [OF o] drains(2) by simp
    note d = drain_batch(1,2) [OF wf drains(5)]
    have "queued s' = []" if cancels
    proof -
      have "distinct (queued (shared w))" "set (queued (shared w)) \<subseteq> {..<n}"
        using owned_lists(2,5) [OF o] drains(2) by (auto simp: pend_def)
      then have "length (queued (shared w)) \<le> n"
        using card_mono [of "{..<n}" "set (queued (shared w))"] by (simp add: distinct_card)
      then show ?thesis using n that by (simp add: d(2))
    qed
    moreover have "xs \<noteq> []" if "queued s' \<noteq> []" using that by (auto simp: d)
    ultimately show ?thesis using drains(1) by (auto simp: requests_announced_def)
  next
    case (claims w i rest ok s')
    note keep = beginProcessing_queued [OF claims(5)] beginProcessing_bgw [OF claims(5)]
    have ok if "\<not> cancels"
    proof -
      have p: "i \<in> pend w" by (simp add: pend_def claims(4))
      have i: "i < n" using owned_lists(5) [OF o] p claims(2) by auto
      have "slot_inv {} {} sl serve w i" using o i claims(2) by (simp add: owned_def)
      with p have "with_worker {} w i FGA_CHANNEL_SLOT_PENDING (\<lambda>_. response zero_payload)"
        using listed_not_lost [OF o, of i] i by (auto simp: slot_inv_def split: if_splits)
      then have "slot_state (slot_of (shared w) i) = FGA_CHANNEL_SLOT_PENDING"
        using u i that claims(2) by (auto simp: with_worker_def uncanceled_def)
      with claims(5) show ok by (simp add: beginProcessing_def)
    qed
    with r keep claims(1-4) show ?thesis by (auto simp: requests_announced_def)
  next
    case (serves w i)
    with r show ?thesis by (auto simp: requests_announced_def complete_def)
  next
    case (cancel w p i req)
    with r show ?thesis by (auto simp: requests_announced_def)
  next
    case (handles w m i rest)
    with r show ?thesis by (auto simp: requests_announced_def)
  qed (use r in \<open>auto simp: requests_announced_def\<close>)
qed

lemma announced_step:
  assumes "announced sl serve n cancels k" and "cancels \<longrightarrow> n \<le> 50" and "wake_step sl serve cancels k k'"
  shows "announced sl serve n cancels k'"
  using assms(1) wake_step_requests [OF assms] wake_step_owned [OF _ assms(3)] wake_step_drained [OF _ assms(3)]
    wake_step_responses [OF _ assms(3)] wake_step_answers [OF _ _ assms(3)] wake_step_uncanceled [OF _ _, of sl serve n k k'] assms(3)
  unfolding announced_def by (cases cancels) auto

lemma announced_run:
  assumes "(wake_step sl serve cancels)\<^sup>*\<^sup>* k k'" and "announced sl serve n cancels k" and "cancels \<longrightarrow> n \<le> 50"
  shows "announced sl serve n cancels k'"
  using assms by (induction rule: rtranclp_induct) (auto intro: announced_step)

lemma initial_announced:
  assumes "initial sl n w"
  shows "announced sl serve n cancels (sleeping_world w)"
proof -
  have "slot_state (slot_of (shared w) i) = FGA_CHANNEL_SLOT_EMPTY" if "i < n" for i
    using assms that by (auto simp: initial_def chan_wf_def pool_wf_def slot_of_def pool_slot_def free_slots_def)
  then show ?thesis
    using assms initial_owned [OF assms, of serve]
    by (simp add: announced_def sleeping_world_def uncanceled_def responses_announced_def
        requests_announced_def answer_announced_def initial_def)
qed

section \<open>A request that is left behind\<close>

text \<open>\<open>qs\<close> are the requests that \<open>p\<close> has sent and given up while the worker sleeps.\<close>

definition parked :: "'l slist_ops \<Rightarrow> nat \<Rightarrow> int \<Rightarrow> nat list \<Rightarrow> 'l world \<Rightarrow> bool" where
  "parked sl n p qs w \<longleftrightarrow> chan_wf sl n (shared w) \<and> phases w = (\<lambda>p. Idle) \<and> drained w = [] \<and> inflight w = [] \<and>
     completed_queue w = [] \<and> queued (shared w) = qs \<and> distinct qs \<and>
     (\<forall>i \<in> set qs. i < n \<and> slot_state (slot_of (shared w) i) = FGA_CHANNEL_SLOT_CANCELED \<and>
        i \<notin> set (free_slots sl (shared w))) \<and>
     proc_latch (shared w) p \<noteq> None \<and> bgw_latch (shared w) \<noteq> None"

lemma wake_backend_run:
  "(base_step sl serve (Backend p))\<^sup>*\<^sup>* w w' \<Longrightarrow> \<not> asleep k p \<Longrightarrow> wk_world k = w \<Longrightarrow>
    (wake_step sl serve cancels)\<^sup>*\<^sup>* k (k\<lparr>wk_world := w'\<rparr>)"
proof (induction rule: rtranclp_induct)
  case base
  then have "k\<lparr>wk_world := w\<rparr> = k" by (cases k) simp
  then show ?case by simp
next
  case (step w1 w2)
  have "wake_step sl serve cancels (k\<lparr>wk_world := w1\<rparr>) (k\<lparr>wk_world := w2\<rparr>)"
    using wake_step.backend [of "k\<lparr>wk_world := w1\<rparr>" p sl serve w2 cancels] step.hyps(2) step.prems(1) by simp
  with step.IH [OF step.prems] show ?case by (rule rtranclp.rtrancl_into_rtrancl)
qed

lemma parked_sends:
  assumes pk: "parked sl n p qs w" and free: "free_slots sl (shared w) = i # F"
    and cap: "length qs < queue_capacity (ch_queue (channel (shared w)))"
  obtains w1 where "(wake_step sl serve cancels)\<^sup>*\<^sup>* (sleeping_world w) (sleeping_world w1)"
    and "sent sl n p i w w1" and "slot_request (shared w1) i = req"
proof -
  have "\<exists>w1 j. (base_step sl serve (Backend p))\<^sup>*\<^sup>* w w1 \<and> sent sl n p j w w1 \<and> slot_request (shared w1) j = req"
    by (rule can_send_alone) (use pk free cap in \<open>simp_all add: parked_def del: not_None_eq\<close>)
  then obtain w1 j where w1: "(base_step sl serve (Backend p))\<^sup>*\<^sup>* w w1" "sent sl n p j w w1"
    "slot_request (shared w1) j = req" by blast
  then have "j = i" using free by (simp add: sent_def)
  moreover have "(wake_step sl serve cancels)\<^sup>*\<^sup>* (sleeping_world w) (sleeping_world w1)"
    using wake_backend_run [OF w1(1), of "sleeping_world w" cancels] by (simp add: sleeping_world_def)
  ultimately show thesis using w1 by (intro that) simp_all
qed

lemma park_one:
  assumes pk: "parked sl n p qs w" and free: "free_slots sl (shared w) = i # F"
    and cap: "length qs < queue_capacity (ch_queue (channel (shared w)))"
  shows "\<exists>w'. (wake_step sl serve True)\<^sup>*\<^sup>* (sleeping_world w) (sleeping_world w') \<and> parked sl n p (qs @ [i]) w' \<and>
    free_slots sl (shared w') = F \<and>
    queue_capacity (ch_queue (channel (shared w'))) = queue_capacity (ch_queue (channel (shared w)))"
proof -
  obtain w1 where w1: "(wake_step sl serve True)\<^sup>*\<^sup>* (sleeping_world w) (sleeping_world w1)" "sent sl n p i w w1"
    by (rule parked_sends [OF pk free cap])
  then have s: "phases w1 p = Awaiting i (slot_request (shared w1) i)" "free_slots sl (shared w1) = F" "i < n"
    "\<forall>j. j \<noteq> i \<longrightarrow> slot_of (shared w1) j = slot_of (shared w) j" "i \<notin> set F"
    using free by (simp_all add: sent_def)
  note c = sent_cancelled [OF w1(2)]
  let ?s = "wait_catch sl i (shared w1)"
  let ?w2 = "w1\<lparr>shared := ?s, phases := (phases w1)(p := Idle)\<rparr>"
  have "wake_step sl serve True (sleeping_world w1) (sleeping_world ?w2)"
    using wake_step.cancel [of True w1 "sleeping_world w1" p i _ sl serve] s(1) by (simp add: sleeping_world_def)
  with w1(1) have run: "(wake_step sl serve True)\<^sup>*\<^sup>* (sleeping_world w) (sleeping_world ?w2)"
    by (rule rtranclp.rtrancl_into_rtrancl)
  have "i \<notin> set qs" using pk free by (auto simp: parked_def)
  moreover have "(phases w1)(p := Idle) = (\<lambda>p. Idle)" using w1(2) pk by (auto simp: sent_def parked_def)
  ultimately have "parked sl n p (qs @ [i]) ?w2"
    using pk w1(2) c s free by (auto simp: parked_def sent_def)
  with run s(2) w1(2) c(2,7) show ?thesis by (intro exI [of _ ?w2]) (simp add: sent_def)
qed

lemma park_many:
  assumes "parked sl n p qs w" and "m \<le> length (free_slots sl (shared w))"
    and "length qs + m \<le> queue_capacity (ch_queue (channel (shared w)))"
  shows "\<exists>w' qs'. (wake_step sl serve True)\<^sup>*\<^sup>* (sleeping_world w) (sleeping_world w') \<and> parked sl n p qs' w' \<and>
    length qs' = length qs + m \<and> length (free_slots sl (shared w')) = length (free_slots sl (shared w)) - m \<and>
    queue_capacity (ch_queue (channel (shared w'))) = queue_capacity (ch_queue (channel (shared w)))"
  using assms
proof (induction m arbitrary: w qs)
  case 0
  then show ?case by (metis add.right_neutral diff_zero rtranclp.rtrancl_refl)
next
  case (Suc m)
  then obtain i F where free: "free_slots sl (shared w) = i # F" by (cases "free_slots sl (shared w)") auto
  have "length qs < queue_capacity (ch_queue (channel (shared w)))" using Suc.prems(3) by simp
  from park_one [OF Suc.prems(1) free this] obtain w1 where
    w1: "(wake_step sl serve True)\<^sup>*\<^sup>* (sleeping_world w) (sleeping_world w1)" "parked sl n p (qs @ [i]) w1"
    "free_slots sl (shared w1) = F"
    "queue_capacity (ch_queue (channel (shared w1))) = queue_capacity (ch_queue (channel (shared w)))" by blast
  have "m \<le> length (free_slots sl (shared w1))"
    "length (qs @ [i]) + m \<le> queue_capacity (ch_queue (channel (shared w1)))"
    using Suc.prems(2,3) w1(3,4) free by simp_all
  from Suc.IH [OF w1(2) this] obtain w' qs' where
    "(wake_step sl serve True)\<^sup>*\<^sup>* (sleeping_world w1) (sleeping_world w')" "parked sl n p qs' w'"
    "length qs' = length (qs @ [i]) + m" "length (free_slots sl (shared w')) = length (free_slots sl (shared w1)) - m"
    "queue_capacity (ch_queue (channel (shared w'))) = queue_capacity (ch_queue (channel (shared w1)))" by blast
  with w1 free show ?case by (intro exI [of _ w'] exI [of _ qs']) (auto intro: rtranclp_trans)
qed

text \<open>The worker claims requests that have been given up: it returns their slots and hands nothing to
  the client.\<close>

lemma claims_canceled:
  assumes "stage k = Claim" and "drained (wk_world k) = xs" and "distinct xs" and "chan_wf sl n (shared (wk_world k))"
    and "\<forall>i \<in> set xs. i < n \<and> slot_state (slot_of (shared (wk_world k)) i) = FGA_CHANNEL_SLOT_CANCELED \<and>
      i \<notin> set (free_slots sl (shared (wk_world k)))"
  shows "\<exists>s. (wake_step sl serve cancels)\<^sup>*\<^sup>* k (k\<lparr>wk_world := (wk_world k)\<lparr>shared := s, drained := []\<rparr>\<rparr>) \<and>
    bgw_latch s = bgw_latch (shared (wk_world k)) \<and> proc_latch s = proc_latch (shared (wk_world k)) \<and>
    queued s = queued (shared (wk_world k))"
  using assms
proof (induction xs arbitrary: k)
  case Nil
  then have "k\<lparr>wk_world := (wk_world k)\<lparr>shared := shared (wk_world k), drained := []\<rparr>\<rparr> = k"
    by (cases k; cases "wk_world k") simp
  then show ?case by (metis rtranclp.rtrancl_refl)
next
  case (Cons i xs)
  let ?w = "wk_world k"
  let ?s = "fga_channel_release_slot sl i (shared ?w)"
  let ?k1 = "k\<lparr>wk_world := ?w\<lparr>shared := ?s, drained := xs\<rparr>\<rparr>"
  have i: "i < n" "slot_state (slot_of (shared ?w) i) = FGA_CHANNEL_SLOT_CANCELED" "i \<notin> set (free_slots sl (shared ?w))"
    using Cons.prems(5) by simp_all
  have cnt: "i < slot_count (shared ?w)" using i(1) chan_wf_count [OF Cons.prems(4)] by simp
  have "beginProcessing sl i (shared ?w) = (False, ?s)" using i(2) by (simp add: beginProcessing_def)
  then have st: "wake_step sl serve cancels k ?k1"
    using wake_step.claims [of ?w k i xs sl False ?s serve cancels] Cons.prems(1,2) by simp
  note r = fga_channel_release_slot_spec [OF Cons.prems(4) i(1,3)]
  have "\<exists>s. (wake_step sl serve cancels)\<^sup>*\<^sup>* ?k1 (?k1\<lparr>wk_world := (wk_world ?k1)\<lparr>shared := s, drained := []\<rparr>\<rparr>) \<and>
    bgw_latch s = bgw_latch (shared (wk_world ?k1)) \<and> proc_latch s = proc_latch (shared (wk_world ?k1)) \<and>
    queued s = queued (shared (wk_world ?k1))"
    by (rule Cons.IH) (use Cons.prems r cnt in \<open>auto simp: slot_of_release\<close>)
  then obtain s where "(wake_step sl serve cancels)\<^sup>*\<^sup>* ?k1 (k\<lparr>wk_world := ?w\<lparr>shared := s, drained := []\<rparr>\<rparr>)"
    "bgw_latch s = bgw_latch (shared ?w)" "proc_latch s = proc_latch (shared ?w)" "queued s = queued (shared ?w)" by auto
  with st show ?case by (meson converse_rtranclp_into_rtranclp)
qed

text \<open>A turn of the worker over 50 requests that have been given up and one that has not.\<close>

lemma turn_leaves_rest:
  assumes wf: "chan_wf sl n (shared w)" and l: "bgw_latch (shared w) = Some True"
    and e: "drained w = []" "inflight w = []" "completed_queue w = []"
    and q: "queued (shared w) = qs @ [i]" "length qs = 50" "distinct qs"
    and qs: "\<forall>j \<in> set qs. j < n \<and> slot_state (slot_of (shared w) j) = FGA_CHANNEL_SLOT_CANCELED \<and>
      j \<notin> set (free_slots sl (shared w))"
  shows "\<exists>s. (wake_step sl serve cancels)\<^sup>*\<^sup>* \<lparr>wk_world = w, asleep = a, stage = Asleep, notifying = 0\<rparr>
      \<lparr>wk_world = w\<lparr>shared := s, drained := []\<rparr>, asleep = a, stage = Asleep, notifying = 0\<rparr> \<and>
    bgw_latch s = Some False \<and> proc_latch s = proc_latch (shared w) \<and> queued s = [i]"
proof -
  let ?step = "wake_step sl serve cancels"
  let ?k = "\<lambda>w st. \<lparr>wk_world = w, asleep = a, stage = st, notifying = 0\<rparr>"
  let ?w1 = "w\<lparr>shared := (shared w)\<lparr>bgw_latch := Some False\<rparr>\<rparr>"
  have r1: "?step (?k w Asleep) (?k ?w1 Drain)"
    using wake_step.worker_wakes [of w "?k w Asleep" sl serve cancels] l by simp
  obtain xs s2 where d: "fga_channel_drain_slots MAX_BATCH (shared ?w1) = (xs, s2)" by fastforce
  have wf1: "chan_wf sl n (shared ?w1)" using wf by simp
  note ds = drain_batch [OF wf1 d]
  have xs: "xs = qs" using ds(1) q by simp
  have s2: "chan_wf sl n s2" "queued s2 = [i]" "free_slots sl s2 = free_slots sl (shared w)"
    "slot_of s2 = slot_of (shared w)" "bgw_latch s2 = Some False" "proc_latch s2 = proc_latch (shared w)"
    using ds(2-7) q by simp_all
  let ?w2 = "?w1\<lparr>shared := s2, drained := qs\<rparr>"
  have r2: "?step (?k ?w1 Drain) (?k ?w2 Claim)"
    using wake_step.drains [of ?w1 "?k ?w1 Drain" xs s2 sl serve cancels] d e(1) xs by simp
  have "\<exists>s. ?step\<^sup>*\<^sup>* (?k ?w2 Claim) ((?k ?w2 Claim)\<lparr>wk_world := (wk_world (?k ?w2 Claim))\<lparr>shared := s, drained := []\<rparr>\<rparr>) \<and>
    bgw_latch s = bgw_latch (shared (wk_world (?k ?w2 Claim))) \<and>
    proc_latch s = proc_latch (shared (wk_world (?k ?w2 Claim))) \<and> queued s = queued (shared (wk_world (?k ?w2 Claim)))"
    by (rule claims_canceled [of _ qs _ n]) (use q(3) qs s2 in simp_all)
  then obtain s where r3: "?step\<^sup>*\<^sup>* (?k ?w2 Claim) (?k (w\<lparr>shared := s, drained := []\<rparr>) Claim)"
    and s: "bgw_latch s = Some False" "proc_latch s = proc_latch (shared w)" "queued s = [i]"
    using s2 by auto
  let ?w3 = "w\<lparr>shared := s, drained := []\<rparr>"
  have r4: "?step (?k ?w3 Claim) (?k ?w3 (Handle 0))"
    using wake_step.swaps [of "?k ?w3 Claim" sl serve cancels] e(3) by simp
  have r5: "?step (?k ?w3 (Handle 0)) (?k ?w3 Asleep)"
    using wake_step.sleeps [of "?k ?w3 (Handle 0)" sl serve cancels] by simp
  have "?step\<^sup>*\<^sup>* (?k w Asleep) (?k ?w3 Asleep)"
    using r1 r2 r3 r4 r5 by (meson rtranclp.rtrancl_into_rtrancl converse_rtranclp_into_rtranclp)
  with s show ?thesis by blast
qed

section \<open>Properties\<close>

text \<open>Nobody will ever wake backend \<open>p\<close>: it is in \<open>WaitLatch\<close> with its latch unset, the worker as
  well, the client has no call under way and no thread about to set the worker's latch.\<close>

definition stalled :: "'l waking \<Rightarrow> int \<Rightarrow> bool" where
  "stalled k p \<longleftrightarrow> asleep k p \<and> proc_latch (shared (wk_world k)) p \<noteq> Some True \<and> stage k = Asleep \<and>
     bgw_latch (shared (wk_world k)) \<noteq> Some True \<and> inflight (wk_world k) = [] \<and> notifying k = 0"



text \<open>C8: With more than \<open>MAX_BATCH\<close> slots and cancels a wake-up can be lost. From every initial state
  there is a run in which one backend gives up 50 requests and sends another while the worker
  sleeps; the worker's turn drains only the cancelled requests, and everybody falls asleep with
  the last request in the queue and its backend waiting for ever.\<close>

theorem cancelled_requests_strand_waiter:
  assumes "initial sl n w" and "50 < n" and "50 < queue_capacity (ch_queue (channel (shared w)))"
    and "proc_latch (shared w) p \<noteq> None"
  shows "\<exists>k i. (wake_step sl serve True)\<^sup>*\<^sup>* (sleeping_world w) k \<and> stalled k p \<and>
    phases (wk_world k) p = Awaiting i req \<and> queued (shared (wk_world k)) = [i]"
proof -
  let ?step = "wake_step sl serve True"
  have "parked sl n p [] w" using assms(1,4) by (simp add: parked_def initial_def)
  moreover have "length (free_slots sl (shared w)) = n"
    using assms(1) chan_wf_free [of sl n "shared w"] distinct_card [of "free_slots sl (shared w)"] by (simp add: initial_def)
  ultimately obtain w1 qs where w1: "?step\<^sup>*\<^sup>* (sleeping_world w) (sleeping_world w1)" "parked sl n p qs w1"
    "length qs = 50" "length (free_slots sl (shared w1)) = n - 50"
    "50 < queue_capacity (ch_queue (channel (shared w1)))"
    using park_many [of sl n p "[]" w 50 serve] assms(2,3) by auto
  obtain i F where free: "free_slots sl (shared w1) = i # F"
    using w1(4) assms(2) by (cases "free_slots sl (shared w1)") auto
  have "length qs < queue_capacity (ch_queue (channel (shared w1)))" using w1(3,5) by simp
  then obtain w2 where w2: "?step\<^sup>*\<^sup>* (sleeping_world w1) (sleeping_world w2)" "sent sl n p i w1 w2"
    "slot_request (shared w2) i = req" by (rule parked_sends [OF w1(2) free])
  have s: "phases w2 = (\<lambda>p. Idle)(p := Awaiting i req)" "queued (shared w2) = qs @ [i]"
    "slot_state (slot_of (shared w2) i) = FGA_CHANNEL_SLOT_PENDING" "bgw_latch (shared w2) = Some True"
    using w2(2,3) w1(2) by (simp_all add: sent_def parked_def)
  define w3 where "w3 = w2\<lparr>shared := reset_latch p (shared w2)\<rparr>"
  have "base_step sl serve (Backend p) w2 w3"
    unfolding w3_def by (rule base_step.wake_up [of _ _ i req]) (simp add: s(1))
  then have r3: "?step (sleeping_world w2) (sleeping_world w3)"
    using wake_step.backend [of "sleeping_world w2" p sl serve w3 True] by (simp add: sleeping_world_def)
  let ?k = "\<lambda>w. \<lparr>wk_world = w, asleep = (\<lambda>p. False)(p := True), stage = Asleep, notifying = 0\<rparr>"
  have r4: "?step (sleeping_world w3) (?k w3)"
    using wake_step.sleep [of w3 "sleeping_world w3" p i req sl serve True] s(1,3) by (simp add: sleeping_world_def w3_def)
  have "\<exists>s. ?step\<^sup>*\<^sup>* (?k w3) (?k (w3\<lparr>shared := s, drained := []\<rparr>)) \<and>
    bgw_latch s = Some False \<and> proc_latch s = proc_latch (shared w3) \<and> queued s = [i]"
    by (rule turn_leaves_rest) (use w1(2,3) w2(2) s free in \<open>auto simp: w3_def sent_def parked_def\<close>)
  then obtain s' where r5: "?step\<^sup>*\<^sup>* (?k w3) (?k (w3\<lparr>shared := s', drained := []\<rparr>))"
    and s': "bgw_latch s' = Some False" "proc_latch s' = proc_latch (shared w3)" "queued s' = [i]" by blast
  have "?step\<^sup>*\<^sup>* (sleeping_world w) (?k (w3\<lparr>shared := s', drained := []\<rparr>))"
    using w1(1) w2(1) r3 r4 r5 by (meson rtranclp.rtrancl_into_rtrancl rtranclp_trans)
  moreover have "inflight w2 = []" using w1(2) w2(2) by (simp add: sent_def parked_def)
  then have "stalled (?k (w3\<lparr>shared := s', drained := []\<rparr>)) p"
    using s'(1,2) by (simp add: stalled_def w3_def reset_latch_def)
  ultimately show ?thesis using s(1) s'(3) by (intro exI [of _ "?k (w3\<lparr>shared := s', drained := []\<rparr>)"] exI [of _ i]) (simp add: w3_def)
qed

text \<open>A segment of 64 slots.\<close>

definition wide_world :: "nat list world" where
  "wide_world = example_world\<lparr>shared := example_state\<lparr>channel := \<lparr>ch_request_id = 0,
     ch_pool = pool_init list_slist \<lparr>pool_head = [], pool_slots = replicate 64 (fresh_slot 0 0)\<rparr> 64,
     ch_queue = queue_init \<lparr>q_mask = 0, q_head = 0, q_tail = 0, q_values = replicate 64 0\<rparr> 64\<rparr>\<rparr>\<rparr>"

lemma fresh_initial:
  assumes "pool_wf sl n (ch_pool (channel (shared w))) \<and> pool_free sl (ch_pool (channel (shared w))) = rev [0..<n]"
    and "queue_wf (ch_queue (channel (shared w)))" and "queue_list (ch_queue (channel (shared w))) = []" and "n \<le> 65536"
    and "drained w = [] \<and> inflight w = [] \<and> completed_queue w = [] \<and> phases w = (\<lambda>p. Idle)"
    and "bgw_latch (shared w) \<noteq> None"
  shows "initial sl n w"
  using assms by (auto simp: initial_def chan_wf_def queued_def free_slots_def)

lemma wide_world_initial: "initial list_slist 64 wide_world"
  and wide_world_queue: "50 < queue_capacity (ch_queue (channel (shared wide_world)))"
  and wide_world_latch: "proc_latch (shared wide_world) 42 \<noteq> None"
proof -
  have pool: "ch_pool (channel (shared wide_world)) =
      pool_init list_slist \<lparr>pool_head = [], pool_slots = replicate 64 (fresh_slot 0 0)\<rparr> 64"
    by (simp add: wide_world_def)
  have wf: "pool_wf list_slist 64 (ch_pool (channel (shared wide_world))) \<and>
      pool_free list_slist (ch_pool (channel (shared wide_world))) = rev [0..<64]"
    unfolding pool by (rule pool_init_wf [OF list_slist_ok]) (simp only: FgaChannelSlotPool.simps length_replicate)
  have queue: "ch_queue (channel (shared wide_world)) =
      queue_init \<lparr>q_mask = 0, q_head = 0, q_tail = 0, q_values = replicate 64 0\<rparr> 64"
    by (simp add: wide_world_def)
  have q: "queue_wf (ch_queue (channel (shared wide_world)))"
    "queue_list (ch_queue (channel (shared wide_world))) = []"
    and cap: "queue_capacity (ch_queue (channel (shared wide_world))) = 63"
    unfolding queue by code_simp+
  show "initial list_slist 64 wide_world"
    by (rule fresh_initial [OF wf q]) (simp_all add: wide_world_def example_world_def example_state_def)
  show "50 < queue_capacity (ch_queue (channel (shared wide_world)))" by (simp add: cap)
  show "proc_latch (shared wide_world) 42 \<noteq> None" by (simp add: wide_world_def example_state_def)
qed

theorem cancelled_requests_strand_waiter_witness:
  "\<exists>k i. (wake_step list_slist (answer_all FGA_RESPONSE_OK True) True)\<^sup>*\<^sup>* (sleeping_world wide_world) k \<and>
     stalled k 42 \<and> phases (wk_world k) 42 = Awaiting i (request zero_payload) \<and> queued (shared (wk_world k)) = [i]"
  by (rule cancelled_requests_strand_waiter [OF wide_world_initial _ wide_world_queue wide_world_latch]) simp

end
