(* ===== verification/Cache_L2_Shared.thy ===== *)
theory Cache_L2_Shared
  imports Cache_L2
begin

text \<open>
  The shared cache of \<open>src/cache_l2.h\<close> when several backends use it at once. \<open>l2_store\<close> holds the lock
  in exclusive mode, so it is one step. \<open>l2_lookup\<close> holds it in shared mode, so the lookups of
  several backends run at the same time, and each writes \<open>usage_count\<close>; here a lookup is a sequence
  of single accesses to shared memory.

  Run alone the accesses are \<open>l2_lookup\<close>. Among others the answer is still the one that
  \<open>l2_lookup\<close> would give in one step. But the usage counts do not keep their maximum.
\<close>

section \<open>A lookup as accesses\<close>

text \<open>
  Where a backend with the lock is: before \<open>hash_search\<close>; before \<open>l2_entry_expired\<close>; before the write
  of 0; before the comparison of \<open>usage_count\<close> with the maximum; before the read and before the
  write of \<open>usage_count++\<close>; before the copies of \<open>allowed\<close> and \<open>expires_at_ms\<close>; before the release
  of the lock, with its answer.
\<close>

datatype l2_stage =
    Searching
  | Checking nat
  | Expiring nat
  | Comparing nat
  | Loading nat
  | Writing nat u8
  | Copying nat
  | Copied nat bool
  | Leaving "(bool \<times> i64) option"

abbreviation l2_count :: "FgaL2AclCache \<Rightarrow> nat \<Rightarrow> u8" where
  "l2_count cache i \<equiv> usage_count (l2_value (l2_entries cache ! i))"

fun lookup_access ::
  "'h dynahash \<Rightarrow> FgaAclCacheKey \<Rightarrow> i64 \<Rightarrow> 'h \<Rightarrow> l2_stage \<times> FgaL2AclCache \<Rightarrow> l2_stage \<times> FgaL2AclCache" where
  "lookup_access ht key now_ms tbl (Searching, cache) =
     (case ht_find ht tbl key of None \<Rightarrow> Leaving None | Some slot_no \<Rightarrow> Checking (unat slot_no), cache)"
| "lookup_access ht key now_ms tbl (Checking i, cache) =
     (if l2_entry_expired cache (l2_entries cache ! i) now_ms then Expiring i else Comparing i, cache)"
| "lookup_access ht key now_ms tbl (Expiring i, cache) = (Leaving None, set_usage i 0 cache)"
| "lookup_access ht key now_ms tbl (Comparing i, cache) =
     (if l2_count cache i < FGA_L2_USAGE_MAX then Loading i else Copying i, cache)"
| "lookup_access ht key now_ms tbl (Loading i, cache) = (Writing i (l2_count cache i + 1), cache)"
| "lookup_access ht key now_ms tbl (Writing i u, cache) = (Copying i, set_usage i u cache)"
| "lookup_access ht key now_ms tbl (Copying i, cache) = (Copied i (l2_allowed (l2_value (l2_entries cache ! i))), cache)"
| "lookup_access ht key now_ms tbl (Copied i a, cache) =
     (Leaving (Some (a, l2_expires_at_ms (l2_value (l2_entries cache ! i)))), cache)"
| "lookup_access ht key now_ms tbl (Leaving r, cache) = (Leaving r, cache)"

text \<open>A lookup is at most seven accesses, and run alone they do what \<open>l2_lookup\<close> does.\<close>

lemma lookup_alone:
  assumes "l2_wf ht (Some (cache, tbl))" and "l2_lookup ht key now (Some (cache, tbl)) = (r, Some (cache', tbl))"
  shows "((lookup_access ht key now tbl) ^^ 7) (Searching, cache) = (Leaving r, cache')"
proof -
  have "unat s < length (l2_entries cache)" if "ht_find ht tbl key = Some s" for s
    using assms(1) that by (simp add: l2_wf_def word_less_nat_alt)
  with assms(2) show ?thesis
    by (auto simp: l2_lookup_def Let_def eval_nat_numeral set_usage_def split: option.splits if_splits)
qed

section \<open>Several backends\<close>

record l2_reader =
  rd_key :: FgaAclCacheKey
  rd_now :: i64
  rd_stage :: l2_stage

text \<open>\<open>stored\<close> is what was stored last under each key, by anyone.\<close>

record 'h l2_world =
  shared_cache :: FgaL2AclCache
  shared_index :: 'h
  readers :: "int \<Rightarrow> l2_reader option"
  stored :: "FgaAclCacheKey \<rightharpoonup> bool \<times> i64"

inductive shared_step :: "'h dynahash \<Rightarrow> 'h l2_world \<Rightarrow> 'h l2_world \<Rightarrow> bool" for ht where
  enter: "readers w p = None \<Longrightarrow>
     shared_step ht w (w\<lparr>readers := (readers w)(p \<mapsto> \<lparr>rd_key = key, rd_now = now, rd_stage = Searching\<rparr>)\<rparr>)"
| access: "readers w p = Some rd \<Longrightarrow>
     lookup_access ht (rd_key rd) (rd_now rd) (shared_index w) (rd_stage rd, shared_cache w) = (st, c) \<Longrightarrow>
     shared_step ht w (w\<lparr>shared_cache := c, readers := (readers w)(p \<mapsto> rd\<lparr>rd_stage := st\<rparr>)\<rparr>)"
| leave: "readers w p = Some rd \<Longrightarrow> rd_stage rd = Leaving r \<Longrightarrow>
     shared_step ht w (w\<lparr>readers := (readers w)(p := None)\<rparr>)"
| store: "readers w = (\<lambda>p. None) \<Longrightarrow>
     l2_store ht key now expires_at allowed (Some (shared_cache w, shared_index w)) = Some (Inr (Some (c, t))) \<Longrightarrow>
     shared_step ht w (w\<lparr>shared_cache := c, shared_index := t,
       stored := (stored w)(key \<mapsto> (allowed, expires_at))\<rparr>)"

abbreviation l2_of :: "'h l2_world \<Rightarrow> 'h l2" where
  "l2_of w \<equiv> Some (shared_cache w, shared_index w)"

text \<open>What a reader has found out so far is still true.\<close>

definition found :: "'h dynahash \<Rightarrow> 'h l2_world \<Rightarrow> l2_reader \<Rightarrow> nat \<Rightarrow> bool" where
  "found ht w rd i \<longleftrightarrow> (\<exists>s. ht_find ht (shared_index w) (rd_key rd) = Some s \<and> i = unat s)"

definition live :: "'h l2_world \<Rightarrow> l2_reader \<Rightarrow> nat \<Rightarrow> bool" where
  "live w rd i \<longleftrightarrow> \<not> l2_entry_expired (shared_cache w) (l2_entries (shared_cache w) ! i) (rd_now rd)"

definition reader_ok :: "'h dynahash \<Rightarrow> 'h l2_world \<Rightarrow> l2_reader \<Rightarrow> bool" where
  "reader_ok ht w rd \<longleftrightarrow> (case rd_stage rd of
     Searching \<Rightarrow> True
   | Checking i \<Rightarrow> found ht w rd i
   | Expiring i \<Rightarrow> found ht w rd i \<and> \<not> live w rd i
   | Comparing i \<Rightarrow> found ht w rd i \<and> live w rd i
   | Loading i \<Rightarrow> found ht w rd i \<and> live w rd i
   | Writing i u \<Rightarrow> found ht w rd i \<and> live w rd i
   | Copying i \<Rightarrow> found ht w rd i \<and> live w rd i
   | Copied i a \<Rightarrow> found ht w rd i \<and> live w rd i \<and> a = l2_allowed (l2_value (l2_entries (shared_cache w) ! i))
   | Leaving r \<Rightarrow> r = fst (l2_lookup ht (rd_key rd) (rd_now rd) (l2_of w)))"

definition shared_inv :: "'h dynahash \<Rightarrow> 'h l2_world \<Rightarrow> bool" where
  "shared_inv ht w \<longleftrightarrow> l2_wf ht (l2_of w) \<and> l2_content ht (l2_of w) \<subseteq>\<^sub>m stored w \<and>
     (\<forall>p rd. readers w p = Some rd \<longrightarrow> reader_ok ht w rd)"

lemma lookup_answer:
  "l2_wf ht l2 \<Longrightarrow> fst (l2_lookup ht key now l2) = (case l2_content ht l2 key of None \<Rightarrow> None
    | Some v \<Rightarrow> if l2_fresh now v then Some v else None)"
  using l2_lookup_spec(3) [of ht l2 key now "fst (l2_lookup ht key now l2)" "snd (l2_lookup ht key now l2)"] by simp

text \<open>An access changes nothing but usage counts, and those no reader depends on.\<close>

lemma access_same:
  "lookup_access ht key now tbl (st, c) = (st', c') \<Longrightarrow> same_but_usage c c'"
  by (cases "(ht, key, now, tbl, (st, c))" rule: lookup_access.cases)
    (auto simp: set_usage_same split: if_splits)

lemma reader_ok_same:
  assumes wf: "l2_wf ht (l2_of w)" and same: "same_but_usage (shared_cache w) (shared_cache w')"
    and idx: "shared_index w' = shared_index w" and ok: "reader_ok ht w rd"
  shows "reader_ok ht w' rd"
proof -
  note wf' = l2_wf_same [OF wf same]
  have ent: "forget_usage (l2_entries (shared_cache w') ! i) = forget_usage (l2_entries (shared_cache w) ! i)"
    if "found ht w rd i" for i
  proof -
    have "i < length (l2_entries (shared_cache w))"
      using that wf by (auto simp: found_def l2_wf_def word_less_nat_alt)
    with same_but_usage_nth [OF same] show ?thesis by blast
  qed
  have f: "found ht w' rd i = found ht w rd i" for i by (simp add: found_def idx)
  have l: "live w' rd i = live w rd i" if "found ht w rd i" for i
    unfolding live_def using l2_expired_same [OF same ent [OF that]] by simp
  have a: "l2_allowed (l2_value (l2_entries (shared_cache w') ! i)) = l2_allowed (l2_value (l2_entries (shared_cache w) ! i))"
    if "found ht w rd i" for i
    using ent [OF that] by (simp add: forget_usage_eq)
  have "fst (l2_lookup ht (rd_key rd) (rd_now rd) (l2_of w')) = fst (l2_lookup ht (rd_key rd) (rd_now rd) (l2_of w))"
    by (simp add: lookup_answer wf wf' idx)
  with ok show ?thesis by (auto simp: reader_ok_def f l a split: l2_stage.splits)
qed

lemma found_lookup:
  assumes "found ht w rd i"
  shows "fst (l2_lookup ht (rd_key rd) (rd_now rd) (l2_of w)) = (if live w rd i
    then Some (l2_allowed (l2_value (l2_entries (shared_cache w) ! i)), l2_expires_at_ms (l2_value (l2_entries (shared_cache w) ! i)))
    else None)"
  using assms by (auto simp: found_def live_def l2_lookup_def Let_def)

lemma access_reader_ok:
  assumes wf: "l2_wf ht (l2_of w)" and ok: "reader_ok ht w rd"
    and acc: "lookup_access ht (rd_key rd) (rd_now rd) (shared_index w) (rd_stage rd, shared_cache w) = (st, c)"
  shows "reader_ok ht w (rd\<lparr>rd_stage := st\<rparr>)"
proof -
  obtain k n stage where rd: "rd = \<lparr>rd_key = k, rd_now = n, rd_stage = stage\<rparr>" by (cases rd)
  have "found ht w (rd\<lparr>rd_stage := s\<rparr>) = found ht w rd" "live w (rd\<lparr>rd_stage := s\<rparr>) = live w rd" for s
    by (simp_all add: found_def live_def fun_eq_iff)
  with ok acc show ?thesis
    by (cases stage)
      (auto simp: rd reader_ok_def found_lookup live_def found_def l2_lookup_def Let_def split: option.splits if_splits)
qed

lemma shared_step_inv:
  assumes "shared_step ht w w'" and inv: "shared_inv ht w"
  shows "shared_inv ht w'"
  using assms(1)
proof cases
  case (enter p key now)
  have "reader_ok ht w' rd = reader_ok ht w rd" for rd
    by (simp add: reader_ok_def found_def live_def enter split: l2_stage.splits)
  with inv show ?thesis by (auto simp: shared_inv_def enter reader_ok_def)
next
  case (access p rd st c)
  have wf: "l2_wf ht (l2_of w)" using inv by (simp add: shared_inv_def)
  have same: "same_but_usage (shared_cache w) (shared_cache w')" using access_same [OF access(3)] by (simp add: access(1))
  have idx: "shared_index w' = shared_index w" by (simp add: access(1))
  have "reader_ok ht w' rd'" if "readers w' q = Some rd'" for q rd'
  proof (rule reader_ok_same [OF wf same idx])
    show "reader_ok ht w rd'"
      using that inv access_reader_ok [OF wf _ access(3)] access(2)
      by (auto simp: access(1) shared_inv_def split: if_splits)
  qed
  with l2_wf_same [OF wf same] inv show ?thesis by (simp add: shared_inv_def idx access(1))
next
  case (leave p rd r)
  have "reader_ok ht w' rd = reader_ok ht w rd" for rd
    by (simp add: reader_ok_def found_def live_def leave split: l2_stage.splits)
  with inv show ?thesis by (auto simp: shared_inv_def leave split: if_splits)
next
  case (store key now e a c t)
  have "l2_after_store ht key now e a (l2_of w) = l2_of w'"
    using store by (simp add: l2_after_store_def)
  with l2_after_store_spec [of ht "l2_of w" key now e a] inv
  have "l2_wf ht (l2_of w')" "l2_content ht (l2_of w') \<subseteq>\<^sub>m map_upd_class (=) (l2_content ht (l2_of w)) key (a, e)"
    by (simp_all add: shared_inv_def)
  moreover have "map_upd_class (=) (l2_content ht (l2_of w)) key (a, e) \<subseteq>\<^sub>m (stored w)(key \<mapsto> (a, e))"
    using inv by (auto simp: shared_inv_def map_upd_class_def map_le_def dom_def)
  ultimately show ?thesis using store(1,2) map_le_trans by (auto simp: shared_inv_def)
qed

lemma shared_run_inv: "(shared_step ht)\<^sup>*\<^sup>* w w' \<Longrightarrow> shared_inv ht w \<Longrightarrow> shared_inv ht w'"
  by (induction rule: rtranclp_induct) (auto intro: shared_step_inv)

text \<open>An empty cache that nobody uses yet.\<close>

definition shared_start :: "'h dynahash \<Rightarrow> 'h l2_world \<Rightarrow> bool" where
  "shared_start ht w \<longleftrightarrow> l2_wf ht (l2_of w) \<and> l2_content ht (l2_of w) = Map.empty \<and>
     readers w = (\<lambda>p. None) \<and> stored w = Map.empty"

lemma shared_start_inv: "shared_start ht w \<Longrightarrow> shared_inv ht w"
  by (simp add: shared_start_def shared_inv_def)

section \<open>Right answers\<close>

text \<open>C22: Whatever other backends look up at the same time, and whatever they do to the usage counts, a
  lookup answers when it gives up the lock what \<open>l2_lookup\<close> would answer if it ran in one step
  there. So a hit is the decision and the expiry time stored last under exactly its key, the
  expiry time is still ahead, and an entry that is there and has not expired is not missed.\<close>

theorem shared_lookups_are_atomic:
  assumes "shared_start ht w0" and "(shared_step ht)\<^sup>*\<^sup>* w0 w"
    and "readers w p = Some rd" and "rd_stage rd = Leaving answer"
  shows "answer = fst (l2_lookup ht (rd_key rd) (rd_now rd) (l2_of w)) \<and>
    (\<forall>allowed expires. answer = Some (allowed, expires) \<longrightarrow>
       stored w (rd_key rd) = Some (allowed, expires) \<and> \<not> s_le64 expires (rd_now rd))"
proof -
  have inv: "shared_inv ht w" by (rule shared_run_inv [OF assms(2) shared_start_inv [OF assms(1)]])
  then have ans: "answer = fst (l2_lookup ht (rd_key rd) (rd_now rd) (l2_of w))"
    using assms(3,4) unfolding shared_inv_def reader_ok_def by fastforce
  have wf: "l2_wf ht (l2_of w)" and le: "l2_content ht (l2_of w) \<subseteq>\<^sub>m stored w" using inv by (simp_all add: shared_inv_def)
  have "stored w (rd_key rd) = Some v \<and> l2_fresh (rd_now rd) v" if "answer = Some v" for v
  proof -
    have "l2_content ht (l2_of w) (rd_key rd) = Some v" "l2_fresh (rd_now rd) v"
      using that ans by (auto simp: lookup_answer [OF wf] split: option.splits if_splits)
    with le show ?thesis by (auto simp: map_le_def dom_def)
  qed
  with ans show ?thesis by (auto simp: l2_fresh_def)
qed

section \<open>Usage counts\<close>

text \<open>A backend looks up a live entry and finds the count below the maximum.\<close>

definition reading :: "FgaAclCacheKey \<Rightarrow> i64 \<Rightarrow> l2_stage \<Rightarrow> l2_reader" where
  "reading key now st = \<lparr>rd_key = key, rd_now = now, rd_stage = st\<rparr>"

lemma accesses_run:
  "readers w p = Some (reading key now st) \<Longrightarrow>
    ((lookup_access ht key now (shared_index w)) ^^ n) (st, shared_cache w) = (st', c) \<Longrightarrow>
    (shared_step ht)\<^sup>*\<^sup>* w (w\<lparr>shared_cache := c, readers := (readers w)(p \<mapsto> reading key now st')\<rparr>)"
proof (induction n arbitrary: st' c)
  case 0
  then have eq: "w\<lparr>shared_cache := c, readers := (readers w)(p \<mapsto> reading key now st')\<rparr> = w"
    by (cases w) (auto simp: fun_upd_idem)
  show ?case unfolding eq by simp
next
  case (Suc n)
  obtain st1 c1 where n: "((lookup_access ht key now (shared_index w)) ^^ n) (st, shared_cache w) = (st1, c1)"
    by fastforce
  let ?w = "w\<lparr>shared_cache := c1, readers := (readers w)(p \<mapsto> reading key now st1)\<rparr>"
  have "(shared_step ht)\<^sup>*\<^sup>* w ?w" by (rule Suc.IH [OF Suc.prems(1) n])
  moreover have "shared_step ht ?w (w\<lparr>shared_cache := c, readers := (readers w)(p \<mapsto> reading key now st')\<rparr>)"
    using shared_step.access [of ?w p "reading key now st1" ht st' c] Suc.prems(2) n by (simp add: reading_def)
  ultimately show ?case by (rule rtranclp.rtrancl_into_rtrancl)
qed

lemma enter_run:
  assumes "readers w p = None"
    and "((lookup_access ht key now (shared_index w)) ^^ n) (Searching, shared_cache w) = (st, c)"
  shows "(shared_step ht)\<^sup>*\<^sup>* w (w\<lparr>shared_cache := c, readers := (readers w)(p \<mapsto> reading key now st)\<rparr>)"
proof -
  let ?w = "w\<lparr>readers := (readers w)(p \<mapsto> reading key now Searching)\<rparr>"
  have "shared_step ht w ?w" using shared_step.enter [OF assms(1)] by (simp add: reading_def)
  moreover have "(shared_step ht)\<^sup>*\<^sup>* ?w (w\<lparr>shared_cache := c, readers := (readers w)(p \<mapsto> reading key now st)\<rparr>)"
    using accesses_run [of ?w p key now Searching n ht st c] assms(2) by simp
  ultimately show ?thesis by (rule converse_rtranclp_into_rtranclp)
qed

lemma one_loads:
  assumes "readers w p = None" and "ht_find ht (shared_index w) key = Some s"
    and "\<not> l2_entry_expired (shared_cache w) (l2_entries (shared_cache w) ! unat s) now"
    and "l2_count (shared_cache w) (unat s) < FGA_L2_USAGE_MAX"
  shows "(shared_step ht)\<^sup>*\<^sup>* w (w\<lparr>readers := (readers w)(p \<mapsto> reading key now (Loading (unat s)))\<rparr>)"
  using enter_run [OF assms(1), of 3 ht key now "Loading (unat s)" "shared_cache w"] assms(2-4)
  by (simp add: eval_nat_numeral)

lemma all_load:
  assumes "ht_find ht (shared_index w) key = Some s"
    and "\<not> l2_entry_expired (shared_cache w) (l2_entries (shared_cache w) ! unat s) now"
    and "l2_count (shared_cache w) (unat s) < FGA_L2_USAGE_MAX"
    and "distinct ps" and "\<forall>p \<in> set ps. readers w p = None"
  shows "\<exists>w'. (shared_step ht)\<^sup>*\<^sup>* w w' \<and> shared_cache w' = shared_cache w \<and>
    (\<forall>p \<in> set ps. readers w' p = Some (reading key now (Loading (unat s))))"
proof -
  have "(shared_step ht)\<^sup>*\<^sup>* w (w\<lparr>readers := \<lambda>q. if q \<in> set ps then Some (reading key now (Loading (unat s))) else readers w q\<rparr>)"
    using assms(4,5)
  proof (induction ps)
    case Nil
    then show ?case by simp
  next
    case (Cons p ps)
    let ?w = "w\<lparr>readers := \<lambda>q. if q \<in> set ps then Some (reading key now (Loading (unat s))) else readers w q\<rparr>"
    have "(shared_step ht)\<^sup>*\<^sup>* w ?w" using Cons by simp
    moreover have "(shared_step ht)\<^sup>*\<^sup>* ?w (?w\<lparr>readers := (readers ?w)(p \<mapsto> reading key now (Loading (unat s)))\<rparr>)"
      by (rule one_loads) (use assms(1-3) Cons.prems in simp_all)
    moreover have "(readers ?w)(p \<mapsto> reading key now (Loading (unat s))) =
      (\<lambda>q. if q \<in> set (p # ps) then Some (reading key now (Loading (unat s))) else readers w q)"
      by (auto simp: fun_eq_iff)
    ultimately show ?case by simp
  qed
  then show ?thesis by (intro exI) (auto elim: back_subst)
qed

text \<open>One that has done so increments the count and leaves with the answer.\<close>

lemma one_counts:
  assumes "readers w p = Some (reading key now (Loading i))" and "i < length (l2_entries (shared_cache w))"
  shows "(shared_step ht)\<^sup>*\<^sup>* w (w\<lparr>shared_cache := set_usage i (l2_count (shared_cache w) i + 1) (shared_cache w),
    readers := (readers w)(p \<mapsto> reading key now (Leaving (Some (l2_allowed (l2_value (l2_entries (shared_cache w) ! i)),
      l2_expires_at_ms (l2_value (l2_entries (shared_cache w) ! i))))))\<rparr>)"
  by (rule accesses_run [OF assms(1), of 4 ht]) (use assms(2) in \<open>simp add: eval_nat_numeral set_usage_def\<close>)

lemma all_count:
  assumes "i < length (l2_entries (shared_cache w))" and "distinct ps"
    and "\<forall>p \<in> set ps. readers w p = Some (reading key now (Loading i))"
  shows "\<exists>w'. (shared_step ht)\<^sup>*\<^sup>* w w' \<and>
    l2_count (shared_cache w') i = l2_count (shared_cache w) i + of_nat (length ps) \<and>
    (\<forall>p \<in> set ps. \<exists>r. readers w' p = Some (reading key now (Leaving (Some r)))) \<and>
    (\<forall>q. q \<notin> set ps \<longrightarrow> readers w' q = readers w q)"
  using assms
proof (induction ps arbitrary: w)
  case Nil
  then show ?case by (intro exI [of _ w]) simp
next
  case (Cons p ps)
  let ?c = "shared_cache w"
  let ?r = "(l2_allowed (l2_value (l2_entries ?c ! i)), l2_expires_at_ms (l2_value (l2_entries ?c ! i)))"
  let ?w = "w\<lparr>shared_cache := set_usage i (l2_count ?c i + 1) ?c,
    readers := (readers w)(p \<mapsto> reading key now (Leaving (Some ?r)))\<rparr>"
  have run: "(shared_step ht)\<^sup>*\<^sup>* w ?w" by (rule one_counts) (use Cons.prems in simp_all)
  have cnt: "l2_count (shared_cache ?w) i = l2_count ?c i + 1" "i < length (l2_entries (shared_cache ?w))"
    using Cons.prems(1) by (simp_all add: set_usage_def)
  have ps: "distinct ps" "\<forall>q \<in> set ps. readers ?w q = Some (reading key now (Loading i))"
    using Cons.prems(2,3) by auto
  obtain w' where w': "(shared_step ht)\<^sup>*\<^sup>* ?w w'"
    "l2_count (shared_cache w') i = l2_count (shared_cache ?w) i + of_nat (length ps)"
    "\<forall>p \<in> set ps. \<exists>r. readers w' p = Some (reading key now (Leaving (Some r)))"
    "\<forall>q. q \<notin> set ps \<longrightarrow> readers w' q = readers ?w q"
    using Cons.IH [OF cnt(2) ps] by blast
  have "(shared_step ht)\<^sup>*\<^sup>* w w'" using run w'(1) by (rule rtranclp_trans)
  moreover have "l2_count (shared_cache w') i = l2_count ?c i + of_nat (length (p # ps))"
    using w'(2) cnt(1) by simp
  moreover have "\<exists>r. readers w' q = Some (reading key now (Leaving (Some r)))" if "q \<in> set (p # ps)" for q
  proof (cases "q \<in> set ps")
    case False
    with that w'(4) show ?thesis by auto
  qed (use w'(3) in blast)
  ultimately show ?case using w'(4) by (intro exI [of _ w']) auto
qed

text \<open>C23: The shared lock does not protect the usage count, which a lookup compares with the maximum and
  then increments: backends that look up the same live entry at once all pass the comparison. With
  the count at 4, one below the maximum, \<open>n\<close> of them bring it to \<open>4 + n\<close> in eight bits, and each
  has its hit.\<close>

theorem usage_count_overruns:
  assumes "l2_wf ht (l2_of w)" and "ht_find ht (shared_index w) key = Some s"
    and "\<not> l2_entry_expired (shared_cache w) (l2_entries (shared_cache w) ! unat s) now"
    and "l2_count (shared_cache w) (unat s) = FGA_L2_USAGE_MAX - 1"
    and "distinct ps" and "\<forall>p \<in> set ps. readers w p = None"
  shows "\<exists>w'. (shared_step ht)\<^sup>*\<^sup>* w w' \<and>
    l2_count (shared_cache w') (unat s) = FGA_L2_USAGE_MAX - 1 + of_nat (length ps) \<and>
    (\<forall>p \<in> set ps. \<exists>r. readers w' p = Some (reading key now (Leaving (Some r))))"
proof -
  have "l2_count (shared_cache w) (unat s) < FGA_L2_USAGE_MAX" by (simp add: assms(4))
  from all_load [OF assms(2,3) this assms(5,6)] obtain w1 where w1: "(shared_step ht)\<^sup>*\<^sup>* w w1"
    "shared_cache w1 = shared_cache w" "\<forall>p \<in> set ps. readers w1 p = Some (reading key now (Loading (unat s)))" by blast
  have "unat s < length (l2_entries (shared_cache w1))"
    using assms(1,2) by (auto simp: w1(2) l2_wf_def word_less_nat_alt)
  from all_count [OF this assms(5) w1(3), of ht] obtain w' where "(shared_step ht)\<^sup>*\<^sup>* w1 w'"
    "l2_count (shared_cache w') (unat s) = FGA_L2_USAGE_MAX - 1 + of_nat (length ps)"
    "\<forall>p \<in> set ps. \<exists>r. readers w' p = Some (reading key now (Leaving (Some r)))"
    by (auto simp: w1(2) assms(4))
  with w1(1) show ?thesis by (meson rtranclp_trans)
qed

section \<open>Examples\<close>

definition example_shared :: "(nat \<times> (FgaAclCacheKey \<times> u32) list) l2_world" where
  "example_shared = \<lparr>shared_cache = fst (the example_l2), shared_index = snd (the example_l2),
     readers = (\<lambda>p. None), stored = Map.empty\<rparr>"

lemma example_shared_start: "shared_start list_ht example_shared"
  using example_l2_wf by (simp add: shared_start_def example_shared_def example_l2_def)

lemma example_stored:
  obtains w where "(shared_step list_ht)\<^sup>*\<^sup>* example_shared w" and "readers w = (\<lambda>p. None)"
    and "l2_of w = l2_after_store list_ht zero_key 100 500 True example_l2"
proof -
  have st: "l2_of example_shared = example_l2" by (simp add: example_shared_def example_l2_def)
  have wf: "l2_wf list_ht (l2_of example_shared)" using example_l2_wf st by simp
  obtain l2' where "l2_store list_ht zero_key 100 500 True (l2_of example_shared) = Some (Inr l2')"
    and "l2_content list_ht l2' zero_key = Some (True, 500) \<or> l2_capacity (shared_cache example_shared) = 1"
    using l2_store_spec [OF wf, of zero_key 100 500 True] by blast
  moreover have "l2_capacity (shared_cache example_shared) \<noteq> 1" by (simp add: example_shared_def example_l2_def)
  ultimately obtain c t where s: "l2_store list_ht zero_key 100 500 True (l2_of example_shared) = Some (Inr (Some (c, t)))"
    by (cases l2') (auto simp: l2_content_def)
  have none: "readers example_shared = (\<lambda>p. None)" by (simp add: example_shared_def)
  let ?w = "example_shared\<lparr>shared_cache := c, shared_index := t, stored := (stored example_shared)(zero_key \<mapsto> (True, 500))\<rparr>"
  have "shared_step list_ht example_shared ?w" by (rule shared_step.store [OF none s])
  moreover have "readers ?w = (\<lambda>p. None)" "l2_of ?w = l2_after_store list_ht zero_key 100 500 True example_l2"
    using s by (simp_all add: none l2_after_store_def st)
  ultimately show thesis by (intro that [of ?w]) auto
qed

theorem shared_lookups_are_atomic_witness:
  "\<exists>w. (shared_step list_ht)\<^sup>*\<^sup>* example_shared w \<and>
     readers w 42 = Some \<lparr>rd_key = zero_key, rd_now = 200, rd_stage = Leaving (Some (True, 500))\<rparr> \<and>
     stored w zero_key = Some (True, 500)"
proof -
  obtain w where w: "(shared_step list_ht)\<^sup>*\<^sup>* example_shared w" "readers w = (\<lambda>p. None)"
    "l2_of w = l2_after_store list_ht zero_key 100 500 True example_l2" by (rule example_stored)
  have wf: "l2_wf list_ht (l2_of w)" using l2_after_store_spec [OF example_l2_wf [THEN conjunct1]] w(3) by simp
  have "fst (l2_lookup list_ht zero_key 200 (l2_of w)) = Some (True, 500)"
    unfolding w(3) by code_simp
  then obtain c where "l2_lookup list_ht zero_key 200 (l2_of w) = (Some (True, 500), Some (c, shared_index w))"
    by (auto simp: l2_lookup_def Let_def split: option.splits if_splits)
  from lookup_alone [OF wf this] have
    "((lookup_access list_ht zero_key 200 (shared_index w)) ^^ 7) (Searching, shared_cache w) = (Leaving (Some (True, 500)), c)" .
  let ?w = "w\<lparr>shared_cache := c, readers := (readers w)(42 \<mapsto> reading zero_key 200 (Leaving (Some (True, 500))))\<rparr>"
  have "(shared_step list_ht)\<^sup>*\<^sup>* w ?w" by (rule enter_run) (simp_all add: w(2), fact)
  with w(1) have run: "(shared_step list_ht)\<^sup>*\<^sup>* example_shared ?w" by (rule rtranclp_trans)
  have "stored ?w zero_key = Some (True, 500)"
    using shared_lookups_are_atomic [OF example_shared_start run,
      of 42 "reading zero_key 200 (Leaving (Some (True, 500)))" "Some (True, 500)"]
    by (auto simp: reading_def)
  with run show ?thesis by (intro exI [of _ ?w]) (simp add: reading_def)
qed

text \<open>With 252 backends at once an entry in use gets the count 0: it is the first victim.\<close>

definition worn_cache :: FgaL2AclCache where
  "worn_cache = \<lparr>nextVictim = 0, l2_capacity = 2, l2_generation = 0,
     l2_entries = [\<lparr>l2_key = zero_key, l2_value = \<lparr>l2_allowed = True, l2_global_gen = 0, l2_object_gen = 0,
       l2_expires_at_ms = 500, usage_count = 4\<rparr>, l2_valid = True\<rparr>, zero_l2_entry]\<rparr>"

definition worn_world :: "(nat \<times> (FgaAclCacheKey \<times> u32) list) l2_world" where
  "worn_world = \<lparr>shared_cache = worn_cache, shared_index = (4, [(zero_key, 0)]), readers = (\<lambda>p. None),
     stored = [zero_key \<mapsto> (True, 500)]\<rparr>"

lemma worn_world_wf: "l2_wf list_ht (l2_of worn_world)"
proof -
  have two: "s = 0 \<or> s = 1" if "s < 2" for s :: u32 using that by (auto simp: word_less_nat_alt word_unat_eq_iff)
  have "ht_find list_ht (4, [(zero_key, 0)]) = [zero_key \<mapsto> 0]" "ht_max list_ht (4, [(zero_key, 0)]) = 4"
    by (simp_all add: list_ht_def)
  then show ?thesis
    by (auto simp: l2_wf_def list_ht_ok worn_world_def worn_cache_def zero_l2_entry_def dest!: two split: if_splits)
qed

theorem usage_count_overruns_witness:
  "\<exists>w. (shared_step list_ht)\<^sup>*\<^sup>* worn_world w \<and> l2_count (shared_cache w) 0 = 0"
proof -
  have "\<not> l2_entry_expired (shared_cache worn_world) (l2_entries (shared_cache worn_world) ! unat (0 :: u32)) 200"
    by code_simp
  from usage_count_overruns [OF worn_world_wf _ this, of zero_key "[1..252]"] show ?thesis
    by (auto simp: worn_world_def worn_cache_def list_ht_def)
qed

end
