(* ===== verification/Client.thy ===== *)
theory Client
  imports Calls
begin

text \<open>
  The OpenFGA client of \<open>src/client/\<close>: the dispatch on the request's type
  (\<open>request_variant.hpp\<close>), the RPC each kind of request becomes, and the response its completion
  callback writes in the payload (\<open>openfga_client*.cpp\<close>), one request at a time and in batches.

  gRPC and the server are a parameter: for each method, the status and reply to a message sent with
  a timeout. Protobuf messages are records of the fields the code sets or reads; a \<open>string\<close> field
  that is not set is empty. The calls are asynchronous: what is modelled of a call is the response
  in the payload when its callback has run, \<open>None\<close> if no callback ever runs.
\<close>

section \<open>Messages and the server\<close>

record Status =
  st_ok :: bool
  st_message :: string

record TupleKey =
  tk_object :: string
  tk_user :: string
  tk_relation :: string

record CheckRequest =
  cr_store_id :: string
  cr_model_id :: string
  cr_tuple_key :: TupleKey

record BatchCheckRequest =
  br_store_id :: string
  br_model_id :: string
  br_checks :: "(string \<times> TupleKey) list"  \<comment> \<open>correlation id and tuple\<close>

datatype BatchCheckSingleResult = Allowed bool | CheckError string | ResultNotSet

text \<open>\<open>writes\<close> with \<open>on_duplicate\<close>, \<open>deletes\<close> with \<open>on_missing\<close>.\<close>

record WriteRequest =
  wr_store_id :: string
  wr_model_id :: string
  wr_writes :: "(TupleKey list \<times> string) option"
  wr_deletes :: "(TupleKey list \<times> string) option"

record openfga =
  Check :: "int \<Rightarrow> CheckRequest \<Rightarrow> Status \<times> bool"
  BatchCheck :: "int \<Rightarrow> BatchCheckRequest \<Rightarrow> Status \<times> (string \<rightharpoonup> BatchCheckSingleResult)"
  Write :: "int \<Rightarrow> WriteRequest \<Rightarrow> Status"
  CreateStoreRpc :: "int \<Rightarrow> string \<Rightarrow> Status \<times> string \<times> string"
  DeleteStoreRpc :: "int \<Rightarrow> string \<Rightarrow> Status"

section \<open>Dispatch\<close>

datatype RequestVariant =
    CheckTuple FgaPayload
  | WriteTuple FgaPayload
  | DeleteTuple FgaPayload
  | GetStore FgaPayload
  | CreateStore FgaPayload
  | DeleteStore FgaPayload
  | InvalidRequest FgaPayload

definition make_request_variant :: "FgaPayload \<Rightarrow> RequestVariant" where
  "make_request_variant p =
     (let type = req_type (request p) in
      if type = request_type_code FGA_REQUEST_CHECK then CheckTuple p
      else if type = request_type_code FGA_REQUEST_WRITE_TUPLE then WriteTuple p
      else if type = request_type_code FGA_REQUEST_DELETE_TUPLE then DeleteTuple p
      else if type = request_type_code FGA_REQUEST_GET_STORE then GetStore p
      else if type = request_type_code FGA_REQUEST_CREATE_STORE then CreateStore p
      else if type = request_type_code FGA_REQUEST_DELETE_STORE then DeleteStore p
      else InvalidRequest p)"

abbreviation payload_tuple :: "FgaPayload \<Rightarrow> FgaTuple" where
  "payload_tuple p \<equiv> body_tuple (req_body (request p))"

abbreviation payload_store_id :: "FgaPayload \<Rightarrow> string" where
  "payload_store_id p \<equiv> c_str (req_store_id (request p))"

abbreviation payload_model_id :: "FgaPayload \<Rightarrow> string" where
  "payload_model_id p \<equiv> c_str (req_model_id (request p))"

text \<open>The accessors of the request structs: what \<open>request_id()\<close>, \<open>store_id()\<close>, \<open>model_id()\<close>,
  \<open>request()\<close> and \<open>response()\<close> read in the payload. Not every struct has the store and the model;
  the bodies of \<open>GetStore\<close> and \<open>DeleteStore\<close> are empty.\<close>

record id_view =
  rv_request_id :: u64

record 'b body_view = id_view +
  rv_request :: 'b
  rv_response :: FgaResponse

record 'b store_view = "'b body_view" +
  rv_store_id :: string

record 'b model_view = "'b store_view" +
  rv_model_id :: string

definition InvalidRequest_view :: "FgaPayload \<Rightarrow> id_view" where
  "InvalidRequest_view p = \<lparr>rv_request_id = request_id (request p)\<rparr>"

definition CheckTuple_view :: "FgaPayload \<Rightarrow> FgaTuple model_view" where
  "CheckTuple_view p = \<lparr>rv_request_id = request_id (request p), rv_request = payload_tuple p,
     rv_response = response p, rv_store_id = payload_store_id p, rv_model_id = payload_model_id p\<rparr>"

definition WriteTuple_view :: "FgaPayload \<Rightarrow> FgaTuple model_view" where
  "WriteTuple_view p = \<lparr>rv_request_id = request_id (request p), rv_request = payload_tuple p,
     rv_response = response p, rv_store_id = payload_store_id p, rv_model_id = payload_model_id p\<rparr>"

definition DeleteTuple_view :: "FgaPayload \<Rightarrow> FgaTuple model_view" where
  "DeleteTuple_view p = \<lparr>rv_request_id = request_id (request p), rv_request = payload_tuple p,
     rv_response = response p, rv_store_id = payload_store_id p, rv_model_id = payload_model_id p\<rparr>"

definition GetStore_view :: "FgaPayload \<Rightarrow> unit store_view" where
  "GetStore_view p = \<lparr>rv_request_id = request_id (request p), rv_request = (),
     rv_response = response p, rv_store_id = payload_store_id p\<rparr>"

definition CreateStore_view :: "FgaPayload \<Rightarrow> string body_view" where
  "CreateStore_view p = \<lparr>rv_request_id = request_id (request p),
     rv_request = c_str (body_store_name (req_body (request p))), rv_response = response p\<rparr>"

definition DeleteStore_view :: "FgaPayload \<Rightarrow> unit store_view" where
  "DeleteStore_view p = \<lparr>rv_request_id = request_id (request p), rv_request = (),
     rv_response = response p, rv_store_id = payload_store_id p\<rparr>"

lemmas view_defs [simp] = CheckTuple_view_def WriteTuple_view_def DeleteTuple_view_def
  CreateStore_view_def DeleteStore_view_def

section \<open>Requests\<close>

definition fill_tuple_key :: "FgaTuple \<Rightarrow> TupleKey" where
  "fill_tuple_key t =
     \<lparr>tk_object = c_str (object_type t) @ '':'' @ c_str (object_id t),
      tk_user = c_str (subject_type t) @ '':'' @ c_str (subject_id t),
      tk_relation = c_str (relation t)\<rparr>"

definition fill_check_request :: "FgaPayload \<Rightarrow> CheckRequest" where
  "fill_check_request p = \<lparr>cr_store_id = rv_store_id (CheckTuple_view p),
     cr_model_id = rv_model_id (CheckTuple_view p),
     cr_tuple_key = fill_tuple_key (rv_request (CheckTuple_view p))\<rparr>"

definition fill_write_request :: "FgaPayload \<Rightarrow> WriteRequest" where
  "fill_write_request p = \<lparr>wr_store_id = rv_store_id (WriteTuple_view p),
     wr_model_id = rv_model_id (WriteTuple_view p),
     wr_writes = Some ([fill_tuple_key (rv_request (WriteTuple_view p))], ''ignore''), wr_deletes = None\<rparr>"

definition fill_delete_request :: "FgaPayload \<Rightarrow> WriteRequest" where
  "fill_delete_request p = \<lparr>wr_store_id = rv_store_id (DeleteTuple_view p), wr_model_id = [],
     wr_writes = None, wr_deletes = Some ([fill_tuple_key (rv_request (DeleteTuple_view p))], ''ignore'')\<rparr>"

section \<open>Completions\<close>

text \<open>\<open>strlcpy(res.error_message, msg, sizeof(res.error_message))\<close>.\<close>

definition set_error :: "FgaResponseStatus \<Rightarrow> string \<Rightarrow> FgaResponse \<Rightarrow> FgaResponse" where
  "set_error st msg res = res\<lparr>status := st, error_message := strlcpy (error_message res) msg\<rparr>"

definition set_allow :: "bool \<Rightarrow> FgaResponse \<Rightarrow> FgaResponse" where
  "set_allow allow res = res\<lparr>res_body := set_body_flag allow (res_body res)\<rparr>"

definition check_done :: "Status \<Rightarrow> bool \<Rightarrow> FgaResponse \<Rightarrow> FgaResponse" where
  "check_done st allowed res =
     (if st_ok st then set_allow allowed (res\<lparr>status := FGA_RESPONSE_OK\<rparr>)
      else set_error FGA_RESPONSE_CLIENT_ERROR (st_message st) (set_allow False res))"

definition write_done :: "Status \<Rightarrow> FgaResponse \<Rightarrow> FgaResponse" where
  "write_done st res =
     (if st_ok st then res\<lparr>status := FGA_RESPONSE_OK\<rparr>
      else set_error FGA_RESPONSE_CLIENT_ERROR (st_message st) res)"

text \<open>\<open>body.deleteTuple.success\<close> is the same byte as \<open>body.checkTuple.allow\<close>.\<close>

definition delete_done :: "Status \<Rightarrow> FgaResponse \<Rightarrow> FgaResponse" where
  "delete_done st res =
     (if st_ok st then set_allow True (res\<lparr>status := FGA_RESPONSE_OK\<rparr>)
      else set_error FGA_RESPONSE_CLIENT_ERROR (st_message st) res)"

definition create_store_done :: "Status \<Rightarrow> string \<Rightarrow> string \<Rightarrow> FgaResponse \<Rightarrow> FgaResponse" where
  "create_store_done st sid name res =
     (if st_ok st
      then let res1 = res\<lparr>status := FGA_RESPONSE_OK\<rparr>;
               res2 = res1\<lparr>res_body := put_bytes 0 (strlcpy (body_created_id (res_body res1)) sid) (res_body res1)\<rparr>
           in res2\<lparr>res_body := put_bytes 64 (strlcpy (body_created_name (res_body res2)) name) (res_body res2)\<rparr>
      else set_error FGA_RESPONSE_CLIENT_ERROR (st_message st) res)"

section \<open>Handlers\<close>

definition handle_check_tuple :: "openfga \<Rightarrow> int \<Rightarrow> FgaPayload \<Rightarrow> FgaResponse" where
  "handle_check_tuple sv timeout p =
     (case Check sv timeout (fill_check_request p) of (st, allowed) \<Rightarrow> check_done st allowed (rv_response (CheckTuple_view p)))"

definition handle_write_tuple :: "openfga \<Rightarrow> int \<Rightarrow> FgaPayload \<Rightarrow> FgaResponse" where
  "handle_write_tuple sv timeout p =
     write_done (Write sv timeout (fill_write_request p)) (rv_response (WriteTuple_view p))"

definition handle_delete_tuple :: "openfga \<Rightarrow> int \<Rightarrow> FgaPayload \<Rightarrow> FgaResponse" where
  "handle_delete_tuple sv timeout p =
     delete_done (Write sv timeout (fill_delete_request p)) (rv_response (DeleteTuple_view p))"

definition handle_create_store :: "openfga \<Rightarrow> int \<Rightarrow> FgaPayload \<Rightarrow> FgaResponse" where
  "handle_create_store sv timeout p =
     (case CreateStoreRpc sv timeout (rv_request (CreateStore_view p)) of (st, sid, name) \<Rightarrow>
        create_store_done st sid name (rv_response (CreateStore_view p)))"

definition handle_delete_store :: "openfga \<Rightarrow> int \<Rightarrow> FgaPayload \<Rightarrow> FgaResponse" where
  "handle_delete_store sv timeout p =
     write_done (DeleteStoreRpc sv timeout (rv_store_id (DeleteStore_view p)))
       (rv_response (DeleteStore_view p))"

text \<open>The overloads of \<open>handle_request\<close>; the last two have empty bodies.\<close>

fun handle_request :: "openfga \<Rightarrow> int \<Rightarrow> RequestVariant \<Rightarrow> FgaResponse option" where
  "handle_request sv timeout (CheckTuple p) = Some (handle_check_tuple sv timeout p)"
| "handle_request sv timeout (WriteTuple p) = Some (handle_write_tuple sv timeout p)"
| "handle_request sv timeout (DeleteTuple p) = Some (handle_delete_tuple sv timeout p)"
| "handle_request sv timeout (CreateStore p) = Some (handle_create_store sv timeout p)"
| "handle_request sv timeout (DeleteStore p) = Some (handle_delete_store sv timeout p)"
| "handle_request sv timeout (GetStore p) = None"
| "handle_request sv timeout (InvalidRequest p) = None"

definition process :: "openfga \<Rightarrow> int \<Rightarrow> FgaPayload \<Rightarrow> FgaResponse option" where
  "process sv timeout p = handle_request sv timeout (make_request_variant p)"

section \<open>Batches\<close>

text \<open>\<open>std::to_string\<close> of the request id.\<close>

fun decimal :: "nat \<Rightarrow> string" where
  "decimal n = (if n < 10 then [char_of (48 + n)] else decimal (n div 10) @ [char_of (48 + n mod 10)])"

declare decimal.simps [simp del]

definition to_string :: "u64 \<Rightarrow> string" where
  "to_string x = decimal (unat x)"

definition correlation_id :: "FgaPayload \<Rightarrow> string" where
  "correlation_id p = to_string (rv_request_id (CheckTuple_view p))"

definition batch_check_request :: "FgaPayload list \<Rightarrow> BatchCheckRequest" where
  "batch_check_request items = \<lparr>br_store_id = rv_store_id (CheckTuple_view (hd items)),
     br_model_id = rv_model_id (CheckTuple_view (hd items)),
     br_checks = map (\<lambda>p. (correlation_id p, fill_tuple_key (rv_request (CheckTuple_view p)))) items\<rparr>"

definition batch_item_done ::
  "Status \<Rightarrow> (string \<rightharpoonup> BatchCheckSingleResult) \<Rightarrow> FgaPayload \<Rightarrow> FgaResponse" where
  "batch_item_done st result p =
     (let out = rv_response (CheckTuple_view p) in
      if st_ok st then
        (case result (correlation_id p) of
           None \<Rightarrow> (set_allow False out)\<lparr>status := FGA_RESPONSE_CLIENT_ERROR\<rparr>
         | Some (Allowed allowed) \<Rightarrow> set_allow allowed (out\<lparr>status := FGA_RESPONSE_OK\<rparr>)
         | Some (CheckError msg) \<Rightarrow> set_error FGA_RESPONSE_SERVER_ERROR msg (set_allow False out)
         | Some ResultNotSet \<Rightarrow>
             set_error FGA_RESPONSE_CLIENT_ERROR ''Invalid response received'' (set_allow False out))
      else set_error FGA_RESPONSE_CLIENT_ERROR (st_message st) (set_allow False out))"

text \<open>The responses written so far, by the position of the item in the batch.\<close>

type_synonym answers = "nat \<rightharpoonup> FgaResponse"

definition handle_check_batch :: "openfga \<Rightarrow> int \<Rightarrow> (nat \<times> FgaPayload) list \<Rightarrow> answers \<Rightarrow> answers" where
  "handle_check_batch sv timeout items ans =
     (case BatchCheck sv timeout (batch_check_request (map snd items)) of (st, result) \<Rightarrow>
        fold (\<lambda>(i, p) ans. ans(i \<mapsto> batch_item_done st result p)) items ans)"

text \<open>The loop of \<open>process_batch\<close> from item \<open>i\<close>: the checks are set aside, the others dispatched.\<close>

fun batch_loop :: "openfga \<Rightarrow> int \<Rightarrow> nat \<Rightarrow> FgaPayload list \<Rightarrow> (nat \<times> FgaPayload) list \<times> answers
    \<Rightarrow> (nat \<times> FgaPayload) list \<times> answers" where
  "batch_loop sv timeout i [] acc = acc"
| "batch_loop sv timeout i (p # ps) (checks, ans) =
     batch_loop sv timeout (Suc i) ps
       (case make_request_variant p of
          CheckTuple q \<Rightarrow> (checks @ [(i, q)], ans)
        | variant \<Rightarrow> (checks, ans(i := handle_request sv timeout variant)))"

definition process_batch :: "openfga \<Rightarrow> int \<Rightarrow> FgaPayload list \<Rightarrow> answers" where
  "process_batch sv timeout items =
     (case items of
        [] \<Rightarrow> Map.empty
      | [item] \<Rightarrow> Map.empty(0 := process sv timeout item)
      | _ \<Rightarrow> (case batch_loop sv timeout 0 items ([], Map.empty) of (checks, ans) \<Rightarrow>
          if checks = [] then ans else handle_check_batch sv timeout checks ans))"

section \<open>Facts about batches\<close>

definition is_check :: "FgaPayload \<Rightarrow> bool" where
  "is_check p \<longleftrightarrow> req_type (request p) = request_type_code FGA_REQUEST_CHECK"

lemma make_request_variant_check:
  "make_request_variant p = (if is_check p then CheckTuple p else make_request_variant p)"
  by (simp add: make_request_variant_def is_check_def)

lemma make_request_variant_other: "\<not> is_check p \<Longrightarrow> make_request_variant p \<noteq> CheckTuple q"
  by (simp add: make_request_variant_def is_check_def Let_def)

lemma batch_loop_spec:
  "batch_loop sv t i ps (checks, ans) = (checks', ans') \<Longrightarrow>
   checks' = checks @ filter (\<lambda>(j, p). is_check p) (enumerate i ps) \<and>
   ans' k = (if i \<le> k \<and> k < i + length ps \<and> \<not> is_check (ps ! (k - i)) then process sv t (ps ! (k - i)) else ans k)"
proof (induction ps arbitrary: i checks ans)
  case Nil
  then show ?case by auto
next
  case (Cons p ps)
  show ?case
  proof (cases "is_check p")
    case True
    then have "batch_loop sv t (Suc i) ps (checks @ [(i, p)], ans) = (checks', ans')"
      using Cons.prems make_request_variant_check [of p] by simp
    from Cons.IH [OF this] True show ?thesis by (auto simp: nth_Cons' not_less_eq_eq le_Suc_eq)
  next
    case False
    have "batch_loop sv t (Suc i) ps (checks, ans(i := process sv t p)) = (checks', ans')"
      using Cons.prems
      by (cases "make_request_variant p") (simp_all add: process_def make_request_variant_other [OF False])
    from Cons.IH [OF this] False show ?thesis by (auto simp: nth_Cons' not_less_eq_eq le_Suc_eq)
  qed
qed

lemma fold_answers:
  "distinct (map fst items) \<Longrightarrow>
   fold (\<lambda>(i, p) ans. ans(i \<mapsto> f p)) items ans k =
     (case map_of items k of None \<Rightarrow> ans k | Some p \<Rightarrow> Some (f p))"
proof (induction items arbitrary: ans)
  case Nil
  then show ?case by simp
next
  case (Cons x items)
  obtain i p where x: "x = (i, p)" by (cases x)
  have "i \<notin> set (map fst items)" using Cons.prems by (simp add: x)
  then have "map_of items i = None" by (simp add: map_of_eq_None_iff)
  with Cons show ?case by (auto simp: x split: option.splits)
qed

lemma decimal_nonempty: "decimal n \<noteq> []"
  by (subst decimal.simps) simp

lemma decimal_inj: "decimal m = decimal n \<Longrightarrow> m = n"
proof (induction m arbitrary: n rule: less_induct)
  case (less m)
  have digit: "j = k" if "(char_of (48 + j) :: char) = char_of (48 + k)" "j < 10" "k < 10" for j k :: nat
  proof -
    have "of_char (char_of (48 + j) :: char) = (of_char (char_of (48 + k) :: char) :: nat)" using that by simp
    with that(2,3) show ?thesis by simp
  qed
  show ?case
  proof (cases "m < 10 \<or> n < 10")
    case True
    with less.prems digit [of m n] show ?thesis
      by (auto simp: decimal.simps [of m] decimal.simps [of n] decimal_nonempty append_eq_Cons_conv
          Cons_eq_append_conv split: if_splits)
  next
    case False
    then have "decimal (m div 10) @ [char_of (48 + m mod 10)] = decimal (n div 10) @ [char_of (48 + n mod 10)]"
      using less.prems by (simp add: decimal.simps [of m] decimal.simps [of n])
    then have "decimal (m div 10) = decimal (n div 10)" "m mod 10 = n mod 10"
      using digit [of "m mod 10" "n mod 10"] by simp_all
    with less.IH [of "m div 10"] False show ?thesis by (metis div_mult_mod_eq div_less_dividend less_le_trans
          not_less one_less_numeral_iff semiring_norm(76) zero_less_numeral)
  qed
qed

lemma to_string_inj: "to_string x = to_string y \<longleftrightarrow> x = y"
  by (auto simp: to_string_def word_unat_eq_iff dest: decimal_inj)

lemma process_batch_spec:
  assumes "2 \<le> length items" and "i < length items"
  defines "checks \<equiv> filter is_check items"
  shows "process_batch sv t items i = (if is_check (items ! i)
    then (case BatchCheck sv t (batch_check_request checks) of (st, result) \<Rightarrow>
            Some (batch_item_done st result (items ! i)))
    else process sv t (items ! i))"
proof -
  obtain a b cs where items: "items = a # b # cs" using assms(1) by (cases items; cases "tl items") auto
  obtain cks ans where l: "batch_loop sv t 0 items ([], Map.empty) = (cks, ans)" by fastforce
  let ?cks = "filter (\<lambda>(j, p). is_check p) (enumerate 0 items)"
  have cks: "cks = ?cks" and ans: "ans k = (if k < length items \<and> \<not> is_check (items ! k)
      then process sv t (items ! k) else None)" for k
    using batch_loop_spec [OF l] by auto
  have snd: "map snd ?cks = checks"
  proof -
    have "map snd (filter (\<lambda>(j, p). is_check p) (enumerate k ps)) = filter is_check ps" for k ps
      by (induction ps arbitrary: k) auto
    then show ?thesis by (simp add: checks_def)
  qed
  have dist: "distinct (map fst ?cks)"
    by (rule distinct_map_filter) simp
  have of: "map_of ?cks i = (if is_check (items ! i) then Some (items ! i) else None)"
  proof (cases "is_check (items ! i)")
    case True
    then have "(i, items ! i) \<in> set ?cks" using assms(2) by (simp add: in_set_enumerate_eq)
    with dist True show ?thesis by simp
  next
    case False
    then have "i \<notin> fst ` set ?cks" by (auto simp: in_set_enumerate_eq)
    with False show ?thesis by (simp add: map_of_eq_None_iff)
  qed
  have "process_batch sv t items = (if cks = [] then ans else handle_check_batch sv t cks ans)"
    using l [unfolded items] by (simp add: process_batch_def items del: batch_loop.simps)
  then show ?thesis
    using assms(2) by (auto simp: handle_check_batch_def cks fold_answers [OF dist] of ans snd
        split: prod.splits) (metis (no_types, lifting) map_of.simps(1) of option.distinct(1))+
qed

section \<open>The client behind the worker\<close>

text \<open>The response the client leaves in a payload, as the worker's parameter \<open>serve\<close>.\<close>

definition client_serve :: "openfga \<Rightarrow> int \<Rightarrow> FgaRequest \<Rightarrow> FgaResponse \<Rightarrow> FgaResponse" where
  "client_serve sv t req res = (case process sv t \<lparr>request = req, response = res\<rparr> of
     None \<Rightarrow> res | Some res' \<Rightarrow> res')"

text \<open>What the server is to be asked for a call: 63 bytes of each argument fit the request.\<close>

definition args_key :: "TupleArgsView \<Rightarrow> TupleKey" where
  "args_key v =
     \<lparr>tk_object = take 63 (arg_object_type v) @ '':'' @ take 63 (arg_object_id v),
      tk_user = take 63 (arg_subject_type v) @ '':'' @ take 63 (arg_subject_id v),
      tk_relation = take 63 (arg_relation v)\<rparr>"

definition config_store :: "FgaConfig \<Rightarrow> string" where
  "config_store config = take 63 (c_str (the (cfg_store_id config)))"

definition config_model :: "FgaConfig \<Rightarrow> string" where
  "config_model config = (case cfg_model_id config of None \<Rightarrow> [] | Some m \<Rightarrow> take 63 (c_str m))"

lemma carries_fields:
  assumes "carries rtype config args req"
  shows "req_type req = request_type_code rtype" and "c_str (req_store_id req) = config_store config"
    and "c_str (req_model_id req) = config_model config"
    and "fill_tuple_key (body_tuple (req_body req)) = args_key args"
  using assms
  by (simp_all add: carries_def config_store_def config_model_def fill_tuple_key_def args_key_def
      tuple_strings_def args_strings_def)

lemma serve_check:
  assumes "carries FGA_REQUEST_CHECK config args req"
  shows "client_serve sv t req res = (case Check sv t \<lparr>cr_store_id = config_store config,
      cr_model_id = config_model config, cr_tuple_key = args_key args\<rparr> of (st, allowed) \<Rightarrow> check_done st allowed res)"
  using carries_fields [OF assms]
  by (simp add: client_serve_def process_def make_request_variant_def handle_check_tuple_def fill_check_request_def
      split: prod.splits)

lemma serve_write:
  assumes "carries FGA_REQUEST_WRITE_TUPLE config args req"
  shows "client_serve sv t req res = write_done (Write sv t \<lparr>wr_store_id = config_store config,
      wr_model_id = config_model config, wr_writes = Some ([args_key args], ''ignore''), wr_deletes = None\<rparr>) res"
  using carries_fields [OF assms]
  by (simp add: client_serve_def process_def make_request_variant_def handle_write_tuple_def fill_write_request_def)

lemma serve_delete:
  assumes "carries FGA_REQUEST_DELETE_TUPLE config args req"
  shows "client_serve sv t req res = delete_done (Write sv t \<lparr>wr_store_id = config_store config,
      wr_model_id = [], wr_writes = None, wr_deletes = Some ([args_key args], ''ignore'')\<rparr>) res"
  using carries_fields [OF assms]
  by (simp add: client_serve_def process_def make_request_variant_def handle_delete_tuple_def fill_delete_request_def)

text \<open>What a response written over the zeroed payload says.\<close>

lemma done_zero:
  "status (check_done st allowed (response zero_payload)) = FGA_RESPONSE_OK \<longleftrightarrow> st_ok st"
  "st_ok st \<Longrightarrow> body_flag (res_body (check_done st allowed (response zero_payload))) = allowed"
  "\<not> st_ok st \<Longrightarrow> c_str (error_message (check_done st allowed (response zero_payload))) = take 127 (c_str (st_message st))"
  "status (write_done st (response zero_payload)) = FGA_RESPONSE_OK \<longleftrightarrow> st_ok st"
  "\<not> st_ok st \<Longrightarrow> c_str (error_message (write_done st (response zero_payload))) = take 127 (c_str (st_message st))"
  "status (delete_done st (response zero_payload)) = FGA_RESPONSE_OK \<longleftrightarrow> st_ok st"
  "\<not> st_ok st \<Longrightarrow> c_str (error_message (delete_done st (response zero_payload))) = take 127 (c_str (st_message st))"
proof -
  have ne: "zero_bytes 128 \<noteq> []" by (simp add: zero_bytes_def)
  show "status (check_done st allowed (response zero_payload)) = FGA_RESPONSE_OK \<longleftrightarrow> st_ok st"
  "st_ok st \<Longrightarrow> body_flag (res_body (check_done st allowed (response zero_payload))) = allowed"
  "\<not> st_ok st \<Longrightarrow> c_str (error_message (check_done st allowed (response zero_payload))) = take 127 (c_str (st_message st))"
  "status (write_done st (response zero_payload)) = FGA_RESPONSE_OK \<longleftrightarrow> st_ok st"
  "\<not> st_ok st \<Longrightarrow> c_str (error_message (write_done st (response zero_payload))) = take 127 (c_str (st_message st))"
  "status (delete_done st (response zero_payload)) = FGA_RESPONSE_OK \<longleftrightarrow> st_ok st"
  "\<not> st_ok st \<Longrightarrow> c_str (error_message (delete_done st (response zero_payload))) = take 127 (c_str (st_message st))"
    by (simp_all add: check_done_def write_done_def delete_done_def set_error_def set_allow_def
        zero_payload_def c_str_strlcpy [OF ne])
      (simp add: body_flag_set zero_bytes_def)
qed

section \<open>Properties\<close>


text \<open>A server that knows one user.\<close>

definition ok_status :: Status where
  "ok_status = \<lparr>st_ok = True, st_message = []\<rparr>"

definition anne_server :: openfga where
  "anne_server = \<lparr>Check = (\<lambda>t r. (ok_status, tk_user (cr_tuple_key r) = ''user:anne'')),
     BatchCheck = (\<lambda>t br. (ok_status, map_of (map (\<lambda>(cid, key). (cid, Allowed (tk_user key = ''user:anne''))) (br_checks br)))),
     Write = (\<lambda>t r. ok_status), CreateStoreRpc = (\<lambda>t name. (ok_status, ''01H'', name)),
     DeleteStoreRpc = (\<lambda>t store. ok_status)\<rparr>"


text \<open>C24: A served tuple write or delete succeeds exactly when the server accepts the Write call that
  writes, or deletes, the call's tuple in the configured store, ignoring duplicates and missing
  tuples; otherwise it raises the error with the server's message. The model id goes with a write
  and not with a delete. Either way the slot is free again and the queue empty.\<close>

theorem writes_sent_to_server:
  assumes "idle sl n (ce_pid env) s" and "store_configured (ce_config env)"
    and "served_env sl (client_serve sv t) env" and "read_tuple_args fcinfo = Inr args" and "args_text args"
  shows "(\<exists>s'. fga_write_tuple sl env fcinfo s =
        (let st = Write sv t \<lparr>wr_store_id = config_store (ce_config env),
           wr_model_id = config_model (ce_config env), wr_writes = Some ([args_key args], ''ignore''),
           wr_deletes = None\<rparr> in
         (if st_ok st then Return True else Raise (WriteTupleFailed (take 127 (c_str (st_message st)))), s')) \<and>
      chan_wf sl n s' \<and> free_slots sl s' = free_slots sl s \<and> queued s' = []) \<and>
    (\<exists>s'. fga_delete_tuple sl env fcinfo s =
        (let st = Write sv t \<lparr>wr_store_id = config_store (ce_config env), wr_model_id = [],
           wr_writes = None, wr_deletes = Some ([args_key args], ''ignore'')\<rparr> in
         (if st_ok st then Return True else Raise (DeleteTupleFailed (take 127 (c_str (st_message st)))), s')) \<and>
      chan_wf sl n s' \<and> free_slots sl s' = free_slots sl s \<and> queued s' = [])"
proof
  note w = write_delete_served [OF assms]
  obtain req s' where "carries FGA_REQUEST_WRITE_TUPLE (ce_config env) args req"
    "fga_write_tuple sl env fcinfo s = (let res = client_serve sv t req (response zero_payload) in
        if status res = FGA_RESPONSE_OK then (Return True, s')
        else (Raise (WriteTupleFailed (c_str (error_message res))), s'))"
    "chan_wf sl n s'" "free_slots sl s' = free_slots sl s" "queued s' = []" using w by blast
  then show "\<exists>s'. fga_write_tuple sl env fcinfo s =
        (let st = Write sv t \<lparr>wr_store_id = config_store (ce_config env),
           wr_model_id = config_model (ce_config env), wr_writes = Some ([args_key args], ''ignore''),
           wr_deletes = None\<rparr> in
         (if st_ok st then Return True else Raise (WriteTupleFailed (take 127 (c_str (st_message st)))), s')) \<and>
      chan_wf sl n s' \<and> free_slots sl s' = free_slots sl s \<and> queued s' = []"
    by (intro exI [of _ s']) (simp add: serve_write done_zero Let_def)
  obtain req s' where "carries FGA_REQUEST_DELETE_TUPLE (ce_config env) args req"
    "fga_delete_tuple sl env fcinfo s = (let res = client_serve sv t req (response zero_payload) in
        if status res = FGA_RESPONSE_OK then (Return True, s')
        else (Raise (DeleteTupleFailed (c_str (error_message res))), s'))"
    "chan_wf sl n s'" "free_slots sl s' = free_slots sl s" "queued s' = []" using w by blast
  then show "\<exists>s'. fga_delete_tuple sl env fcinfo s =
        (let st = Write sv t \<lparr>wr_store_id = config_store (ce_config env), wr_model_id = [],
           wr_writes = None, wr_deletes = Some ([args_key args], ''ignore'')\<rparr> in
         (if st_ok st then Return True else Raise (DeleteTupleFailed (take 127 (c_str (st_message st)))), s')) \<and>
      chan_wf sl n s' \<and> free_slots sl s' = free_slots sl s \<and> queued s' = []"
    by (intro exI [of _ s']) (simp add: serve_delete done_zero Let_def)
qed

theorem writes_sent_to_server_witness:
  "\<exists>s'. fga_write_tuple list_slist (example_env [served list_slist (client_serve anne_server 5000)])
     example_fcinfo example_state = (Return True, s') \<and> queued s' = []"
proof -
  let ?env = "example_env [served list_slist (client_serve anne_server 5000)]"
  have env: "served_env list_slist (client_serve anne_server 5000) ?env"
    unfolding served_env_def by (rule exI [of _ 0]) (simp add: example_env_def)
  from writes_sent_to_server [OF example_call(1,2) env example_read example_call(4)] show ?thesis
    by (auto simp: Let_def anne_server_def ok_status_def)
qed

text \<open>A server whose batch check answers each item as the single check would.\<close>

definition batch_consistent :: "openfga \<Rightarrow> int \<Rightarrow> bool" where
  "batch_consistent sv t \<longleftrightarrow> (\<forall>br. distinct (map fst (br_checks br)) \<longrightarrow>
     st_ok (fst (BatchCheck sv t br)) \<and>
     (\<forall>cid key. (cid, key) \<in> set (br_checks br) \<longrightarrow> snd (BatchCheck sv t br) cid = Some (
        case Check sv t \<lparr>cr_store_id = br_store_id br, cr_model_id = br_model_id br, cr_tuple_key = key\<rparr> of
          (st, allowed) \<Rightarrow> if st_ok st then Allowed allowed else CheckError (st_message st))))"


lemma anne_server_consistent: "batch_consistent anne_server t"
  unfolding batch_consistent_def
proof (intro allI impI conjI)
  fix br :: BatchCheckRequest and cid key
  assume "distinct (map fst (br_checks br))" and "(cid, key) \<in> set (br_checks br)"
  then have "map_of (map (\<lambda>(cid, key). (cid, Allowed (tk_user key = ''user:anne''))) (br_checks br)) cid =
      Some (Allowed (tk_user key = ''user:anne''))"
    by (intro map_of_is_SomeI) (auto simp: comp_def split_def intro: rev_image_eqI)
  then show "snd (BatchCheck anne_server t br) cid = Some (
      case Check anne_server t \<lparr>cr_store_id = br_store_id br, cr_model_id = br_model_id br, cr_tuple_key = key\<rparr> of
        (st, allowed) \<Rightarrow> if st_ok st then Allowed allowed else CheckError (st_message st))"
    by (simp add: anne_server_def ok_status_def)
qed (simp add: anne_server_def ok_status_def)

text \<open>A check of the example arguments, in the store \<open>store\<close>.\<close>

definition example_check :: "u64 \<Rightarrow> string \<Rightarrow> FgaPayload" where
  "example_check rid store = zero_payload\<lparr>request := (request zero_payload)\<lparr>request_id := rid,
     req_type := request_type_code FGA_REQUEST_CHECK,
     req_store_id := strlcpy (zero_bytes 64) store,
     req_body := set_body_tuple (fill_tuple example_args (body_tuple (zero_bytes 320))) (zero_bytes 320)\<rparr>\<rparr>"


text \<open>Every request of a batch gets its callback run with a response written, except those whose
  type is none of check, write, delete, create store and delete store: their slots stay with the
  worker for ever.\<close>

theorem unanswered_requests:
  assumes "i < length items"
  shows "process_batch sv t items i = None \<longleftrightarrow> req_type (request (items ! i)) \<notin> request_type_code `
    {FGA_REQUEST_CHECK, FGA_REQUEST_WRITE_TUPLE, FGA_REQUEST_DELETE_TUPLE, FGA_REQUEST_CREATE_STORE,
     FGA_REQUEST_DELETE_STORE}"
proof -
  have single: "process sv t p = None \<longleftrightarrow> req_type (request p) \<notin> request_type_code `
    {FGA_REQUEST_CHECK, FGA_REQUEST_WRITE_TUPLE, FGA_REQUEST_DELETE_TUPLE, FGA_REQUEST_CREATE_STORE,
     FGA_REQUEST_DELETE_STORE}" for p
    by (simp add: process_def make_request_variant_def Let_def split: prod.splits)
  show ?thesis
  proof (cases "2 \<le> length items")
    case True
    then show ?thesis
      using process_batch_spec [OF True assms, of sv t] single [of "items ! i"]
      by (simp add: is_check_def split: prod.splits if_splits)
  next
    case False
    then obtain p where "items = [p]" using assms by (cases items) (auto simp: Suc_le_eq)
    then show ?thesis using assms single [of p] by (simp add: process_batch_def)
  qed
qed

theorem unanswered_requests_witness:
  "process_batch anne_server 5000 [example_check 7 ''s1'', zero_payload] 1 = None"
proof -
  have "1 < length [example_check 7 ''s1'', zero_payload]" by simp
  from unanswered_requests [OF this, of anne_server 5000] show ?thesis
    by (simp add: zero_payload_def)
qed

end
