(* ===== verification/Worker.thy ===== *)
theory Worker
  imports Calls
begin

text \<open>
  The background worker process: its registration (\<open>src/bgw/bgw.c\<close>), its signal handlers and main
  loop (\<open>src/bgw/worker.cpp\<close>), and what it makes of the configuration: the client's \<open>Config\<close>
  (\<open>src/config/config.cpp\<close>) and the gRPC channel (\<open>src/client/channel_factory.cpp\<close>).

  The processor is the configuration its client was made with, and what its \<open>execute\<close> does to the
  rest of the world is a parameter. A turn of the loop is a function of what happens while the
  worker waits: the signals, the configuration file as it then is, and what \<open>WaitLatch\<close> returns.
\<close>

section \<open>The client's configuration\<close>

record GrpcTlsOptions =
  use_tls :: bool
  root_certs :: string
  client_cert :: string
  client_key :: string
  insecure_skip_verify :: bool
  server_name_override :: string

record GrpcChannelOptions =
  max_message_size :: int
  keepalive_time_ms :: int
  keepalive_timeout_ms :: int
  keepalive_without_calls :: bool
  idle_timeout_ms :: int
  load_balancing_policy :: string

text \<open>\<open>retry\<close> and \<open>concurrency\<close> keep their defaults in every configuration the code makes, and
  nothing reads them: they are left out.\<close>

record Config =
  config_endpoint :: string
  config_timeout :: int
  config_tls :: GrpcTlsOptions
  config_channel :: GrpcChannelOptions

definition default_tls :: GrpcTlsOptions where
  "default_tls = \<lparr>use_tls = False, root_certs = [], client_cert = [], client_key = [],
     insecure_skip_verify = False, server_name_override = []\<rparr>"

definition default_channel :: GrpcChannelOptions where
  "default_channel = \<lparr>max_message_size = 4 * 1024 * 1024, keepalive_time_ms = 0,
     keepalive_timeout_ms = 0, keepalive_without_calls = False, idle_timeout_ms = 0,
     load_balancing_policy = []\<rparr>"

definition load_config_from_guc :: "FgaConfig \<Rightarrow> Config" where
  "load_config_from_guc guc = \<lparr>
     config_endpoint = (case cfg_endpoint guc of Some e \<Rightarrow> c_str e | None \<Rightarrow> []),
     config_timeout = sint (cfg_cache_ttl_ms guc),
     config_tls = default_tls, config_channel = default_channel\<rparr>"

section \<open>The gRPC channel\<close>

datatype channel_arg =
    LoadBalancingPolicyName string
  | MaxReceiveMessageSize int
  | MaxSendMessageSize int
  | IntArg string int

datatype channel_creds = InsecureChannelCredentials | SslCredentials string string string

definition make_channel :: "Config \<Rightarrow> string \<times> channel_creds \<times> channel_arg list" where
  "make_channel cfg =
     (let ch = config_channel cfg;
          args = (if load_balancing_policy ch \<noteq> [] then [LoadBalancingPolicyName (load_balancing_policy ch)] else []);
          args = args @ (if 0 < max_message_size ch
                  then [MaxReceiveMessageSize (max_message_size ch), MaxSendMessageSize (max_message_size ch)] else []);
          args = args @ (if 0 < keepalive_time_ms ch
                  then [IntArg ''grpc.keepalive_time_ms'' (keepalive_time_ms ch)] else []);
          args = args @ (if 0 < keepalive_timeout_ms ch
                  then [IntArg ''grpc.keepalive_timeout_ms'' (keepalive_timeout_ms ch)] else []);
          args = args @ [IntArg ''grpc.keepalive_permit_without_calls'' 1];
          creds = (if use_tls (config_tls cfg)
                   then SslCredentials (root_certs (config_tls cfg)) (client_key (config_tls cfg)) (client_cert (config_tls cfg))
                   else InsecureChannelCredentials)
      in (config_endpoint cfg, creds, args))"

section \<open>The process\<close>

record BackgroundWorker =
  bgw_flags :: "string list"
  bgw_start_time :: string
  bgw_restart_time :: int
  bgw_notify_pid :: int
  bgw_main_arg :: int
  bgw_library_name :: string
  bgw_function_name :: string
  bgw_name :: string
  bgw_type :: string

text \<open>What \<open>fga_bgw_init\<close> registers.\<close>

definition fga_bgw_init :: BackgroundWorker where
  "fga_bgw_init = \<lparr>bgw_flags = [''BGWORKER_SHMEM_ACCESS''], bgw_start_time = ''BgWorkerStart_RecoveryFinished'',
     bgw_restart_time = 1, bgw_notify_pid = 0, bgw_main_arg = 0, bgw_library_name = ''postfga'',
     bgw_function_name = ''postfga_bgw_work'', bgw_name = ''postfga_bgw'', bgw_type = ''postfga_worker''\<rparr>"

text \<open>The process's flags and latch, and the locals of \<open>process\<close>: \<open>w_config\<close> is the configuration
  loaded before the loop, \<open>w_processor\<close> the \<open>std::optional\<close>.\<close>

record worker =
  shutdown_requested :: bool
  reload_requested :: bool
  my_latch :: bool
  w_config :: Config
  w_processor :: "Config option"

definition bgw_sigterm_handler :: "worker \<Rightarrow> worker" where
  "bgw_sigterm_handler w = w\<lparr>shutdown_requested := True, my_latch := True\<rparr>"

definition bgw_sighup_handler :: "worker \<Rightarrow> worker" where
  "bgw_sighup_handler w = w\<lparr>reload_requested := True, my_latch := True\<rparr>"

definition process_start :: "FgaConfig \<Rightarrow> worker" where
  "process_start guc =
     (let config = load_config_from_guc guc
      in \<lparr>shutdown_requested = False, reload_requested = False, my_latch = False, w_config = config,
          w_processor = (if config_endpoint config \<noteq> [] then Some config else None)\<rparr>)"

definition reload :: "FgaConfig \<Rightarrow> worker \<Rightarrow> worker" where
  "reload guc w =
     (let w1 = w\<lparr>reload_requested := False\<rparr>;
          new_config = load_config_from_guc guc
      in if new_config \<noteq> w_config w1
         then w1\<lparr>w_processor := (if config_endpoint new_config \<noteq> [] then Some new_config else None)\<rparr>
         else w1)"

text \<open>
  One turn of the loop after \<open>WaitLatch\<close>: \<open>latch_set\<close> is whether it reports \<open>WL_LATCH_SET\<close>, \<open>guc\<close>
  the configuration \<open>ProcessConfigFile\<close> reads. \<open>execute cfg\<close> is what a processor made with \<open>cfg\<close>
  does.
\<close>

definition worker_turn :: "(Config \<Rightarrow> 's \<Rightarrow> 's) \<Rightarrow> bool \<Rightarrow> FgaConfig \<Rightarrow> worker \<times> 's \<Rightarrow> worker \<times> 's" where
  "worker_turn execute latch_set guc ws = (case ws of (w, s) \<Rightarrow>
     let w1 = w\<lparr>my_latch := False\<rparr> in
     if \<not> latch_set then (w1, s)
     else let w2 = (if reload_requested w1 then reload guc w1 else w1)
          in (w2, case w_processor w2 of None \<Rightarrow> s | Some cfg \<Rightarrow> execute cfg s))"

text \<open>What happens while the worker waits, and the loop over such events.\<close>

datatype worker_event = Sigterm | Sighup | WakeUp | Spurious

fun worker_loop :: "(Config \<Rightarrow> 's \<Rightarrow> 's) \<Rightarrow> (worker_event \<times> FgaConfig) list \<Rightarrow> worker \<times> 's \<Rightarrow> worker \<times> 's" where
  "worker_loop execute [] ws = ws"
| "worker_loop execute ((ev, guc) # evs) (w, s) =
     (if shutdown_requested w then (w, s)
      else worker_loop execute evs (worker_turn execute (ev \<noteq> Spurious) guc
        ((case ev of Sigterm \<Rightarrow> bgw_sigterm_handler w | Sighup \<Rightarrow> bgw_sighup_handler w
          | WakeUp \<Rightarrow> w\<lparr>my_latch := True\<rparr> | Spurious \<Rightarrow> w), s)))"

section \<open>Which server the worker talks to\<close>

definition processor_of :: "Config \<Rightarrow> Config option" where
  "processor_of cfg = (if config_endpoint cfg \<noteq> [] then Some cfg else None)"

text \<open>The configurations the worker has loaded on its way, the last one last.\<close>

definition reloaded :: "(worker_event \<times> FgaConfig) list \<Rightarrow> Config list" where
  "reloaded evs = map (load_config_from_guc \<circ> snd) (filter (\<lambda>e. fst e = Sighup) evs)"

lemma worker_turn_signal:
  assumes "\<not> reload_requested w" and "w_processor w = processor_of cur"
  shows "fst (worker_turn execute True guc (bgw_sighup_handler w, s)) = w\<lparr>reload_requested := False,
      my_latch := False, w_processor := processor_of
        (if load_config_from_guc guc \<noteq> w_config w then load_config_from_guc guc else cur)\<rparr>"
    and "fst (worker_turn execute b guc (w\<lparr>my_latch := l\<rparr>, s)) = w\<lparr>my_latch := False\<rparr>"
  using assms
  by (simp_all add: worker_turn_def bgw_sighup_handler_def reload_def Let_def processor_of_def)

lemma worker_loop_processor:
  assumes "\<not> reload_requested w" and "\<not> shutdown_requested w" and "w_config w = start"
    and "w_processor w = processor_of cur" and "Sigterm \<notin> fst ` set evs"
  shows "w_processor (fst (worker_loop execute evs (w, s))) =
    processor_of (last (cur # filter (\<lambda>c. c \<noteq> start) (reloaded evs)))"
  using assms
proof (induction evs arbitrary: w s cur)
  case Nil
  then show ?case by (simp add: reloaded_def)
next
  case (Cons e evs)
  obtain ev guc where e: "e = (ev, guc)" by (cases e)
  have rest: "Sigterm \<notin> fst ` set evs" and ev: "ev \<noteq> Sigterm" using Cons.prems(5) by (auto simp: e)
  note turn = worker_turn_signal [OF Cons.prems(1,4), where execute = execute and guc = guc and s = s]
  show ?case
  proof (cases ev)
    case Sighup
    obtain w' s' where t: "worker_turn execute True guc (bgw_sighup_handler w, s) = (w', s')" by fastforce
    let ?cur = "if load_config_from_guc guc \<noteq> start then load_config_from_guc guc else cur"
    have "\<not> reload_requested w'" "\<not> shutdown_requested w'" "w_config w' = start"
      "w_processor w' = processor_of ?cur"
      using turn(1) Cons.prems(2,3) by (simp_all add: t)
    from Cons.IH [OF this rest, of s'] show ?thesis
      using Cons.prems(2) by (simp add: e Sighup t reloaded_def)
  next
    case WakeUp
    obtain w' s' where t: "worker_turn execute True guc (w\<lparr>my_latch := True\<rparr>, s) = (w', s')" by fastforce
    have "\<not> reload_requested w'" "\<not> shutdown_requested w'" "w_config w' = start" "w_processor w' = processor_of cur"
      using turn(2) [where b = True and l = True] Cons.prems by (simp_all add: t)
    from Cons.IH [OF this rest, of s'] show ?thesis
      using Cons.prems(2) by (simp add: e WakeUp t reloaded_def)
  next
    case Spurious
    obtain w' s' where t: "worker_turn execute False guc (w, s) = (w', s')" by fastforce
    have "\<not> reload_requested w'" "\<not> shutdown_requested w'" "w_config w' = start" "w_processor w' = processor_of cur"
      using turn(2) [where b = False and l = "my_latch w"] Cons.prems by (simp_all add: t)
    from Cons.IH [OF this rest, of s'] show ?thesis
      using Cons.prems(2) by (simp add: e Spurious t reloaded_def)
  qed (use ev in simp)
qed

section \<open>The life of the process\<close>

text \<open>How \<open>process\<close> ends: it returns, throws, or leaves through PostgreSQL's error handling.
  \<open>StillRunning\<close> means that its events are used up while it waits.\<close>

datatype process_end = Finished | StdException string | UnknownException | PgError string | StillRunning

definition worker_process :: "(Config \<Rightarrow> 's \<Rightarrow> 's) \<Rightarrow> (worker_event \<times> FgaConfig) list \<Rightarrow> FgaConfig \<Rightarrow> 's
    \<Rightarrow> process_end \<times> 's" where
  "worker_process execute evs guc s = (case worker_loop execute evs (process_start guc, s) of
     (w, s') \<Rightarrow> (if shutdown_requested w then Finished else StillRunning, s'))"

text \<open>\<open>Worker::run\<close>. The catch clauses turn an exception into an \<open>ERROR\<close>, which leaves the function
  before the latch is unregistered.\<close>

definition worker_run :: "('l FgaState \<Rightarrow> process_end \<times> 'l FgaState) \<Rightarrow> bool \<Rightarrow> 'l FgaState
    \<Rightarrow> process_end \<times> 'l FgaState" where
  "worker_run proc MyLatch s = (case proc (s\<lparr>bgw_latch := Some MyLatch\<rparr>) of
     (Finished, s') \<Rightarrow> (Finished, s'\<lparr>bgw_latch := None\<rparr>)
   | (StdException what, s') \<Rightarrow> (PgError (''postfga: bgw exception: '' @ what), s')
   | (UnknownException, s') \<Rightarrow> (PgError ''postfga: bgw unknown exception'', s')
   | (PgError msg, s') \<Rightarrow> (PgError msg, s')
   | (StillRunning, s') \<Rightarrow> (StillRunning, s'))"

text \<open>\<open>postfga_bgw_work\<close>: the exit status, the error report, and the shared state left.\<close>

definition postfga_bgw_work :: "('l FgaState \<Rightarrow> process_end \<times> 'l FgaState) \<Rightarrow> bool \<Rightarrow> 'l FgaState
    \<Rightarrow> (int \<times> string list) option \<times> 'l FgaState" where
  "postfga_bgw_work proc MyLatch s = (case worker_run proc MyLatch s of
     (Finished, s') \<Rightarrow> (Some (0, []), s')
   | (PgError msg, s') \<Rightarrow> (Some (1, [msg]), s')
   | (_, s') \<Rightarrow> (None, s'))"

lemma worker_turn_shutdown:
  "shutdown_requested (fst (worker_turn execute b guc (w, s))) = shutdown_requested w"
  by (simp add: worker_turn_def reload_def Let_def)

text \<open>The loop ends with the first \<open>SIGTERM\<close>.\<close>

lemma worker_loop_shutdown:
  "shutdown_requested (fst (worker_loop execute evs (w, s))) \<longleftrightarrow>
    shutdown_requested w \<or> Sigterm \<in> fst ` set evs"
proof (induction evs arbitrary: w s)
  case Nil
  then show ?case by simp
next
  case (Cons e evs)
  obtain ev guc where e: "e = (ev, guc)" by (cases e)
  let ?w = "case ev of Sigterm \<Rightarrow> bgw_sigterm_handler w | Sighup \<Rightarrow> bgw_sighup_handler w
          | WakeUp \<Rightarrow> w\<lparr>my_latch := True\<rparr> | Spurious \<Rightarrow> w"
  obtain w' s' where t: "worker_turn execute (ev \<noteq> Spurious) guc (?w, s) = (w', s')" by fastforce
  have "shutdown_requested w' = shutdown_requested ?w"
    using worker_turn_shutdown [of execute "ev \<noteq> Spurious" guc ?w s] by (simp add: t)
  also have "\<dots> \<longleftrightarrow> shutdown_requested w \<or> ev = Sigterm"
    by (simp add: bgw_sigterm_handler_def bgw_sighup_handler_def split: worker_event.split)
  finally show ?case using Cons.IH [of w' s'] by (auto simp: e t)
qed

text \<open>An exception leaves the latch of the dead process registered.\<close>

theorem failed_worker_leaves_latch:
  assumes "proc (s\<lparr>bgw_latch := Some l\<rparr>) = (StdException what, s')" and "bgw_latch s' = Some l'"
  shows "postfga_bgw_work proc l s = (Some (1, [''postfga: bgw exception: '' @ what]), s') \<and>
    fga_wake_bgw s' = (Return (), s'\<lparr>bgw_latch := Some True\<rparr>)"
  using assms by (simp add: postfga_bgw_work_def worker_run_def fga_wake_bgw_def)

section \<open>Properties\<close>

text \<open>C35: Whatever wakes the worker, its client is made with the configuration loaded by the last
  reload that differs from the one the process started with; a reload that goes back to the
  starting configuration is ignored, and the worker goes on asking the server of the reload before.
  With an empty endpoint there is no client.\<close>

theorem worker_follows_reloads:
  assumes "Sigterm \<notin> fst ` set evs"
  shows "w_processor (fst (worker_loop execute evs (process_start guc, s))) =
    processor_of (last (load_config_from_guc guc #
      filter (\<lambda>c. c \<noteq> load_config_from_guc guc) (reloaded evs)))"
  by (rule worker_loop_processor [OF _ _ _ _ assms]) (simp_all add: process_start_def processor_of_def Let_def)

definition example_guc :: "string \<Rightarrow> FgaConfig" where
  "example_guc url = fga_config_instance\<lparr>cfg_endpoint := Some url\<rparr>"

theorem worker_follows_reloads_witness:
  "w_processor (fst (worker_loop (\<lambda>cfg s. s) [(Sighup, example_guc ''b:8081''), (WakeUp, example_guc ''b:8081''),
     (Sighup, example_guc ''a:8081'')] (process_start (example_guc ''a:8081''), ()))) =
   Some (load_config_from_guc (example_guc ''b:8081''))"
  by (subst worker_follows_reloads)
    (simp_all add: reloaded_def processor_of_def load_config_from_guc_def example_guc_def c_str_def)

text \<open>C34: A worker that gets a \<open>SIGTERM\<close> leaves its loop, unregisters its latch and exits with
  status 0; after that every backend that enqueues a request dereferences the null latch in
  \<open>fga_wake_bgw\<close> and crashes, with its index left in the queue.\<close>

theorem stopped_worker_crashes_backends:
  assumes "Sigterm \<in> fst ` set evs"
    and "postfga_bgw_work (worker_process execute evs guc) l s = (r, s')"
    and "queue_enqueue (ch_queue (channel s')) (of_nat i) = (True, q)"
  shows "r = Some (0, []) \<and> bgw_latch s' = None \<and>
    fga_channel_execute_slot sl pid i ws s' = (Crash, put_queue q s')"
proof -
  obtain w s1 where loop: "worker_loop execute evs (process_start guc, s\<lparr>bgw_latch := Some l\<rparr>) = (w, s1)"
    by fastforce
  have "shutdown_requested w"
    using worker_loop_shutdown [of execute evs "process_start guc" "s\<lparr>bgw_latch := Some l\<rparr>"] assms(1)
    by (simp add: loop)
  with assms(2) have "r = Some (0, [])" and "bgw_latch s' = None"
    by (auto simp: postfga_bgw_work_def worker_run_def worker_process_def loop)
  with assms(3) show ?thesis
    by (simp add: fga_channel_execute_slot_def fga_wake_bgw_def)
qed

theorem stopped_worker_crashes_backends_witness:
  "\<exists>r s' q. postfga_bgw_work (worker_process (\<lambda>cfg s. s) [(WakeUp, example_guc ''a:8081''), (Sigterm, example_guc ''a:8081'')]
      (example_guc ''a:8081'')) False example_state = (r, s') \<and> r = Some (0, []) \<and>
    fga_channel_execute_slot list_slist 42 1 [] s' = (Crash, put_queue q s')"
proof -
  let ?evs = "[(WakeUp, example_guc ''a:8081''), (Sigterm, example_guc ''a:8081'')]"
  let ?work = "postfga_bgw_work (worker_process (\<lambda>cfg s. s) ?evs (example_guc ''a:8081'')) False example_state"
  obtain r s' where run: "?work = (r, s')" by fastforce
  then have s': "ch_queue (channel s') = ch_queue (channel example_state)"
    by (auto simp: postfga_bgw_work_def worker_run_def worker_process_def process_start_def Let_def
        load_config_from_guc_def example_guc_def c_str_def worker_turn_def bgw_sigterm_handler_def)
  have "fst (queue_enqueue (ch_queue (channel example_state)) (of_nat 1))" by code_simp
  then obtain q where q: "queue_enqueue (ch_queue (channel s')) (of_nat 1) = (True, q)"
    by (cases "queue_enqueue (ch_queue (channel example_state)) (of_nat 1)") (simp add: s')
  show ?thesis
    using stopped_worker_crashes_backends [OF _ run q, of list_slist 42 "[]"] run by auto
qed

end
