(* ===== verification/Limiters.thy ===== *)
theory Limiters
  imports Slot_Pool
begin

text \<open>
  The limiters the program keeps for concurrent calls: \<open>Counter\<close>, a counting semaphore whose
  tokens are held by movable guards (\<open>src/util/counter.hpp\<close>, \<open>src/util/counter.cpp\<close>), and
  \<open>GrpcAsyncSlotPool\<close>, a bounded pool of call slots (\<open>src/bgw/task_slot.hpp\<close>).

  A semaphore is its count, at an address; a guard is the address it points to and its flag.
  Guards live in named variables, and a client program is a list of commands that construct,
  move, assign and destroy them. The lemmas show that no command makes or loses a token. The
  pool is an instance of the interface \<open>allocator\<close> of the shared slot pool.
\<close>

section \<open>Counter\<close>

record Counter =
  semaphore :: nat
  max_value :: int

record Guard =
  guard_sem :: "nat option"
  acquired :: bool

type_synonym semaphores = "nat \<Rightarrow> nat"

abbreviation INT_MAX :: int where "INT_MAX \<equiv> 2147483647"

definition new_counter :: "nat \<Rightarrow> int \<Rightarrow> semaphores \<Rightarrow> Counter \<times> semaphores" where
  "new_counter a m sems =
     (\<lparr>semaphore = a, max_value = m\<rparr>, sems(a := nat (if 0 < m then m else INT_MAX)))"

text \<open>\<open>acquire\<close>, \<open>None\<close> while it blocks, and \<open>try_acquire\<close>.\<close>

definition counter_acquire :: "Counter \<Rightarrow> semaphores \<Rightarrow> (Guard \<times> semaphores) option" where
  "counter_acquire c sems =
     (if max_value c \<le> 0 then Some (\<lparr>guard_sem = None, acquired = True\<rparr>, sems)
      else if sems (semaphore c) = 0 then None
      else Some (\<lparr>guard_sem = Some (semaphore c), acquired = True\<rparr>,
                 sems(semaphore c := sems (semaphore c) - 1)))"

definition counter_try_acquire :: "Counter \<Rightarrow> semaphores \<Rightarrow> Guard \<times> semaphores" where
  "counter_try_acquire c sems =
     (if max_value c \<le> 0 then (\<lparr>guard_sem = None, acquired = True\<rparr>, sems)
      else if 0 < sems (semaphore c)
      then (\<lparr>guard_sem = Some (semaphore c), acquired = True\<rparr>,
            sems(semaphore c := sems (semaphore c) - 1))
      else (\<lparr>guard_sem = None, acquired = False\<rparr>, sems))"

definition default_guard :: Guard where
  "default_guard = \<lparr>guard_sem = None, acquired = False\<rparr>"

definition guard_release :: "Guard \<Rightarrow> semaphores \<Rightarrow> Guard \<times> semaphores" where
  "guard_release g sems =
     (\<lparr>guard_sem = None, acquired = False\<rparr>,
      case guard_sem g of
        Some a \<Rightarrow> if acquired g then sems(a := Suc (sems a)) else sems
      | None \<Rightarrow> sems)"

text \<open>The move constructor: the new guard, and the other one afterwards.\<close>

definition guard_move :: "Guard \<Rightarrow> Guard \<times> Guard" where
  "guard_move other =
     (\<lparr>guard_sem = guard_sem other, acquired = acquired other\<rparr>, \<lparr>guard_sem = None, acquired = False\<rparr>)"

text \<open>The variables that are live, and the move assignment between two of them.\<close>

record guard_state =
  sems :: semaphores
  guards :: "nat \<Rightarrow> Guard option"

definition guard_assign :: "nat \<Rightarrow> nat \<Rightarrow> guard_state \<Rightarrow> guard_state option" where
  "guard_assign x y st =
     (case (guards st x, guards st y) of
        (Some g, Some other) \<Rightarrow>
          Some (if x = y then st
                else st\<lparr>sems := snd (guard_release g (sems st)),
                        guards := (guards st)
                          (x \<mapsto> \<lparr>guard_sem = guard_sem other, acquired = acquired other\<rparr>,
                           y \<mapsto> \<lparr>guard_sem = None, acquired = False\<rparr>)\<rparr>)
      | _ \<Rightarrow> None)"

text \<open>\<open>None\<close>: the command blocks, or is no command of a program, which declares a variable once
  and uses only live ones.\<close>

datatype guard_cmd =
    Construct nat
  | AcquireTo nat Counter
  | TryAcquireTo nat Counter
  | MoveTo nat nat
  | AssignTo nat nat
  | Destroy nat

definition guard_declare :: "nat \<Rightarrow> Guard \<Rightarrow> guard_state \<Rightarrow> guard_state option" where
  "guard_declare x g st =
     (if guards st x = None then Some (st\<lparr>guards := (guards st)(x \<mapsto> g)\<rparr>) else None)"

fun guard_step :: "guard_cmd \<Rightarrow> guard_state \<Rightarrow> guard_state option" where
  "guard_step (Construct x) st = guard_declare x default_guard st"
| "guard_step (AcquireTo x c) st =
     (case counter_acquire c (sems st) of None \<Rightarrow> None
      | Some (g, sems') \<Rightarrow> guard_declare x g (st\<lparr>sems := sems'\<rparr>))"
| "guard_step (TryAcquireTo x c) st =
     (case counter_try_acquire c (sems st) of (g, sems') \<Rightarrow> guard_declare x g (st\<lparr>sems := sems'\<rparr>))"
| "guard_step (MoveTo x y) st =
     (case guards st y of None \<Rightarrow> None
      | Some g \<Rightarrow> (case guard_move g of (g', other) \<Rightarrow>
          guard_declare x g' (st\<lparr>guards := (guards st)(y \<mapsto> other)\<rparr>)))"
| "guard_step (AssignTo x y) st = guard_assign x y st"
| "guard_step (Destroy x) st =
     (case guards st x of None \<Rightarrow> None
      | Some g \<Rightarrow> Some (st\<lparr>sems := snd (guard_release g (sems st)), guards := (guards st)(x := None)\<rparr>))"

fun guard_run :: "guard_cmd list \<Rightarrow> guard_state \<Rightarrow> guard_state option" where
  "guard_run [] st = Some st"
| "guard_run (c # cs) st = (case guard_step c st of None \<Rightarrow> None | Some st' \<Rightarrow> guard_run cs st')"

section \<open>Tokens\<close>

text \<open>The guards that hold a token of the semaphore at an address.\<close>

definition token :: "Guard \<Rightarrow> nat \<Rightarrow> bool" where
  "token g a \<longleftrightarrow> guard_sem g = Some a \<and> acquired g"

definition tokens :: "(nat \<Rightarrow> Guard option) \<Rightarrow> nat \<Rightarrow> nat" where
  "tokens gs a = card {x. \<exists>g. gs x = Some g \<and> token g a}"

lemma token_simps [simp]:
  "\<not> token \<lparr>guard_sem = None, acquired = b\<rparr> a"
  "token \<lparr>guard_sem = Some a', acquired = True\<rparr> a \<longleftrightarrow> a' = a"
  "token \<lparr>guard_sem = guard_sem g, acquired = acquired g\<rparr> a \<longleftrightarrow> token g a"
  by (auto simp: token_def)

lemma token_finite: "finite (dom gs) \<Longrightarrow> finite {x. \<exists>g. gs x = Some g \<and> token g a}"
  by (erule finite_subset [rotated]) auto

text \<open>One variable is split off the count.\<close>

lemma tokens_split:
  assumes "finite (dom gs)"
  shows "tokens gs a = tokens (gs(x := None)) a + (case gs x of None \<Rightarrow> 0 | Some g \<Rightarrow> of_bool (token g a))"
proof -
  let ?H = "{x. \<exists>g. gs x = Some g \<and> token g a}"
  have H: "{y. \<exists>g. (gs(x := None)) y = Some g \<and> token g a} = ?H - {x}" by auto
  have "card ?H = card (?H - {x}) + of_bool (x \<in> ?H)"
    using card.remove [OF token_finite [OF assms], of x a] by (cases "x \<in> ?H") auto
  then show ?thesis unfolding tokens_def H by (cases "gs x") auto
qed

lemma tokens_new:
  assumes "finite (dom gs)" and "gs x = None"
  shows "tokens (gs(x \<mapsto> g)) a = tokens gs a + of_bool (token g a)"
  using tokens_split [of "gs(x \<mapsto> g)" a x] tokens_split [OF assms(1), of a x] assms by simp

lemma tokens_replace:
  assumes "finite (dom gs)" and "gs x = Some g"
  shows "tokens (gs(x \<mapsto> g')) a + of_bool (token g a) = tokens gs a + of_bool (token g' a)"
  using tokens_split [of "gs(x \<mapsto> g')" a x] tokens_split [OF assms(1), of a x] assms by simp

lemma guard_release_count:
  "snd (guard_release g sm) a = sm a + of_bool (token g a)"
  by (auto simp: guard_release_def token_def split: option.splits)

text \<open>No command makes or loses a token.\<close>

definition conserved :: "guard_state \<Rightarrow> guard_state \<Rightarrow> bool" where
  "conserved st st' \<longleftrightarrow> finite (dom (guards st')) \<and>
     (\<forall>a. sems st' a + tokens (guards st') a = sems st a + tokens (guards st) a)"

lemma conserved_declare:
  assumes "finite (dom (guards st))" and "guard_declare x g st = Some st'"
    and "\<forall>a. sems st a + of_bool (token g a) + tokens (guards st) a = n a"
  shows "finite (dom (guards st')) \<and> (\<forall>a. sems st' a + tokens (guards st') a = n a)"
proof -
  from assms(2) have x: "guards st x = None" and st': "st' = st\<lparr>guards := (guards st)(x \<mapsto> g)\<rparr>"
    by (auto simp: guard_declare_def split: if_splits)
  have "sems st' a + tokens (guards st') a = n a" for a
    using assms(3) [rule_format, of a] tokens_new [where a = a and g = g, OF assms(1) x] by (simp add: st')
  then show ?thesis using assms(1) by (simp add: st')
qed

lemma conserved_assign:
  assumes fin: "finite (dom (guards st))" and step: "guard_step (AssignTo x y) st = Some st'"
  shows "conserved st st'"
proof (cases "x = y")
  case True
  with step fin show ?thesis by (auto simp: guard_assign_def conserved_def split: option.splits)
next
  case False
  with step obtain g other where x: "guards st x = Some g" and y: "guards st y = Some other"
    by (auto simp: guard_assign_def split: option.splits)
  let ?v = "\<lparr>guard_sem = guard_sem other, acquired = acquired other\<rparr>"
    and ?w = "\<lparr>guard_sem = None, acquired = False\<rparr>"
  have "tokens (guards st) a = tokens ((guards st)(x \<mapsto> ?v, y \<mapsto> ?w)) a + of_bool (token g a)" for a
    using tokens_replace [where g' = ?v and a = a, OF fin x]
      tokens_replace [of "(guards st)(x \<mapsto> ?v)" y other ?w a] fin y False by simp
  with step False x y fin show ?thesis by (auto simp: guard_assign_def conserved_def guard_release_count)
qed

lemma conserved_step:
  assumes fin: "finite (dom (guards st))" and step: "guard_step c st = Some st'"
  shows "conserved st st'"
proof (cases c)
  case (Construct x)
  with step show ?thesis
    unfolding conserved_def
    by (intro conserved_declare [OF fin, of x default_guard]) (auto simp: default_guard_def)
next
  case (AcquireTo x k)
  with step obtain g sm where k: "counter_acquire k (sems st) = Some (g, sm)"
    and d: "guard_declare x g (st\<lparr>sems := sm\<rparr>) = Some st'" by (auto split: option.splits)
  have "sm a + of_bool (token g a) = sems st a" for a
    using k by (auto simp: counter_acquire_def split: if_splits)
  then show ?thesis
    unfolding conserved_def by (intro conserved_declare [OF _ d]) (simp_all add: fin)
next
  case (TryAcquireTo x k)
  with step obtain g sm where k: "counter_try_acquire k (sems st) = (g, sm)"
    and d: "guard_declare x g (st\<lparr>sems := sm\<rparr>) = Some st'" by (auto split: prod.splits)
  have "sm a + of_bool (token g a) = sems st a" for a
    using k by (auto simp: counter_try_acquire_def split: if_splits)
  then show ?thesis
    unfolding conserved_def by (intro conserved_declare [OF _ d]) (simp_all add: fin)
next
  case (MoveTo x y)
  with step obtain g where y: "guards st y = Some g"
    and d: "guard_declare x \<lparr>guard_sem = guard_sem g, acquired = acquired g\<rparr>
        (st\<lparr>guards := (guards st)(y \<mapsto> \<lparr>guard_sem = None, acquired = False\<rparr>)\<rparr>) = Some st'"
    by (auto simp: guard_move_def split: option.splits)
  have "tokens (guards st) a = tokens ((guards st)(y \<mapsto> \<lparr>guard_sem = None, acquired = False\<rparr>)) a +
      of_bool (token g a)" for a
    using tokens_replace [where a = a, OF fin y, of "\<lparr>guard_sem = None, acquired = False\<rparr>"] by simp
  then show ?thesis
    unfolding conserved_def by (intro conserved_declare [OF _ d]) (simp_all add: fin)
next
  case (AssignTo x y)
  with conserved_assign [OF fin] step show ?thesis by blast
next
  case (Destroy x)
  with step obtain g where x: "guards st x = Some g"
    and st': "st' = st\<lparr>sems := snd (guard_release g (sems st)), guards := (guards st)(x := None)\<rparr>"
    by (auto split: option.splits)
  have "tokens (guards st) a = tokens ((guards st)(x := None)) a + of_bool (token g a)" for a
    using tokens_split [OF fin, of a x] x by simp
  then show ?thesis
    using fin by (simp add: st' conserved_def guard_release_count)
qed

lemma conserved_run:
  "finite (dom (guards st)) \<Longrightarrow> guard_run cs st = Some st' \<Longrightarrow> conserved st st'"
proof (induction cs arbitrary: st)
  case Nil
  then show ?case by (simp add: conserved_def)
next
  case (Cons c cs)
  then obtain st1 where "guard_step c st = Some st1" and "guard_run cs st1 = Some st'"
    by (auto split: option.splits)
  with conserved_step [OF Cons.prems(1)] Cons.IH [of st1] show ?case
    by (auto simp: conserved_def)
qed

section \<open>GrpcAsyncSlotPool\<close>

text \<open>A slot pointer is an index; \<open>in_use_\<close> is a 64-bit \<open>size_t\<close>.\<close>

record GrpcAsyncSlot =
  async_slot_index :: u16
  async_slot_ptr :: "nat option"

record GrpcAsyncSlotPool =
  async_capacity :: nat
  async_slots :: "GrpcAsyncSlot list"
  async_free :: "nat list"
  async_in_use :: u64

definition fresh_async_slot :: GrpcAsyncSlot where
  "fresh_async_slot = \<lparr>async_slot_index = 0, async_slot_ptr = None\<rparr>"

text \<open>The loop of the constructor, \<open>k\<close> turns from index \<open>i\<close>.\<close>

fun async_pool_loop :: "nat \<Rightarrow> nat \<Rightarrow> GrpcAsyncSlotPool \<Rightarrow> GrpcAsyncSlotPool" where
  "async_pool_loop 0 i p = p"
| "async_pool_loop (Suc k) i p =
     async_pool_loop k (Suc i) (p\<lparr>async_slots := async_slots p @ [fresh_async_slot],
       async_free := async_free p @ [i]\<rparr>)"

definition new_async_pool :: "nat \<Rightarrow> GrpcAsyncSlotPool" where
  "new_async_pool n = async_pool_loop n 0
     \<lparr>async_capacity = n, async_slots = [], async_free = [], async_in_use = 0\<rparr>"

definition async_try_acquire :: "GrpcAsyncSlotPool \<Rightarrow> nat option \<times> GrpcAsyncSlotPool" where
  "async_try_acquire p =
     (if async_free p = [] then (None, p)
      else let i = last (async_free p)
           in (Some i, p\<lparr>async_free := butlast (async_free p), async_in_use := async_in_use p + 1,
                         async_slots := (async_slots p)[i := fresh_async_slot]\<rparr>))"

text \<open>\<open>acquire\<close> waits until the list is not empty and goes on as \<open>try_acquire\<close>: \<open>None\<close> while it
  waits.\<close>

definition async_acquire :: "GrpcAsyncSlotPool \<Rightarrow> (nat \<times> GrpcAsyncSlotPool) option" where
  "async_acquire p =
     (if async_free p = [] then None
      else let i = last (async_free p)
           in Some (i, p\<lparr>async_free := butlast (async_free p), async_in_use := async_in_use p + 1,
                         async_slots := (async_slots p)[i := fresh_async_slot]\<rparr>))"

definition async_release :: "nat option \<Rightarrow> GrpcAsyncSlotPool \<Rightarrow> GrpcAsyncSlotPool" where
  "async_release slot p =
     (case slot of None \<Rightarrow> p
      | Some i \<Rightarrow> p\<lparr>async_free := async_free p @ [i], async_in_use := async_in_use p - 1\<rparr>)"

definition async_wf :: "nat \<Rightarrow> GrpcAsyncSlotPool \<Rightarrow> bool" where
  "async_wf n p \<longleftrightarrow> async_capacity p = n \<and> length (async_slots p) = n \<and>
     distinct (async_free p) \<and> set (async_free p) \<subseteq> {..<n} \<and>
     async_in_use p + of_nat (length (async_free p)) = of_nat n"

interpretation async_pool: allocator "async_wf n" "\<lambda>p. rev (async_free p)" n async_try_acquire
  "\<lambda>i. async_release (Some i)" for n
proof (unfold_locales, goal_cases)
  case (1 p)
  then show ?case by (simp add: async_wf_def)
next
  case (2 p r p')
  then show ?case
    by (cases "async_free p" rule: rev_cases) (auto simp: async_try_acquire_def async_wf_def Let_def ac_simps)
next
  case (3 p i)
  then show ?case by (auto simp: async_release_def async_wf_def algebra_simps)
qed

lemma async_pool_loop_wf:
  "async_capacity p = i + k \<Longrightarrow> length (async_slots p) = i \<Longrightarrow> async_free p = [0..<i] \<Longrightarrow>
   async_in_use p = 0 \<Longrightarrow>
   async_wf (i + k) (async_pool_loop k i p) \<and> async_free (async_pool_loop k i p) = [0..<i + k]"
proof (induction k arbitrary: i p)
  case 0
  then show ?case by (auto simp: async_wf_def)
next
  case (Suc k)
  let ?p = "p\<lparr>async_slots := async_slots p @ [fresh_async_slot], async_free := async_free p @ [i]\<rparr>"
  show ?case using Suc.IH [of ?p "Suc i"] Suc.prems by simp
qed

lemma new_async_pool_wf: "async_wf n (new_async_pool n) \<and> async_free (new_async_pool n) = [0..<n]"
  unfolding new_async_pool_def by (rule async_pool_loop_wf [where i = 0, simplified]) simp_all

lemma async_acquire_waits:
  "async_acquire p = (case async_try_acquire p of (None, _) \<Rightarrow> None | (Some i, p') \<Rightarrow> Some (i, p'))"
  by (simp add: async_acquire_def async_try_acquire_def Let_def)

section \<open>Properties\<close>


definition example_counter :: Counter where
  "example_counter = \<lparr>semaphore = 7, max_value = 2\<rparr>"

definition example_cmds :: "guard_cmd list" where
  "example_cmds = [AcquireTo 0 example_counter, AcquireTo 1 example_counter, AssignTo 0 1, MoveTo 2 0,
     Destroy 0]"


text \<open>From construction on, whatever clients acquire and give back of what they hold, the slots
  held and the free ones partition the pool's indices, and \<open>in_use\<close> is the number of slots held; so
  \<open>try_acquire\<close> returns null, and \<open>acquire\<close> waits, exactly when all slots are held.\<close>

theorem async_slots_conserved:
  assumes "n < 2 ^ 64"
    and "alloc_run async_try_acquire (\<lambda>i. async_release (Some i)) ops [] (new_async_pool n) = (held, p)"
  shows "distinct (held @ async_free p) \<and> set (held @ async_free p) = {..<n} \<and>
    unat (async_in_use p) = length held \<and>
    (async_acquire p = None \<longleftrightarrow> length held = n) \<and> (fst (async_try_acquire p) = None \<longleftrightarrow> length held = n)"
proof -
  have "async_pool.partitioned n [] (new_async_pool n)"
    using new_async_pool_wf [of n] by (auto simp: async_pool.partitioned_def)
  from async_pool.run_partitioned [OF this assms(2)]
  have wf: "async_wf n p" and d: "distinct (held @ async_free p)" and st: "set (held @ async_free p) = {..<n}"
    by (auto simp: async_pool.partitioned_def)
  have len: "length held + length (async_free p) = n"
    using distinct_card [OF d] st by simp
  have "async_in_use p = of_nat (length held)"
  proof -
    have "async_in_use p + of_nat (length (async_free p)) = of_nat (length held) + of_nat (length (async_free p))"
      using wf by (simp add: async_wf_def flip: len)
    then show ?thesis by simp
  qed
  moreover have "length held < 2 ^ 64" using len assms(1) by simp
  ultimately have "unat (async_in_use p) = length held"
    by (simp add: unat_of_nat take_bit_nat_eq_self)
  moreover have "async_free p = [] \<longleftrightarrow> length held = n" using len by auto
  ultimately show ?thesis
    using d st by (auto simp: async_acquire_def async_try_acquire_def Let_def)
qed

theorem async_slots_conserved_witness:
  "\<exists>held p. alloc_run async_try_acquire (\<lambda>i. async_release (Some i))
     [Acquire, Acquire, Release 1, Acquire] [] (new_async_pool 2) = (held, p) \<and>
     held = [1, 0] \<and> async_acquire p = None \<and> unat (async_in_use p) = 2"
proof -
  obtain held p where run: "alloc_run async_try_acquire (\<lambda>i. async_release (Some i))
     [Acquire, Acquire, Release 1, Acquire] [] (new_async_pool 2) = (held, p)" by fastforce
  then have "held = [1, 0]"
    by (auto simp: new_async_pool_def numeral_2_eq_2 async_try_acquire_def async_release_def Let_def)
  with async_slots_conserved [OF _ run] run show ?thesis by auto
qed

end
