(* ===== verification/Client_Life.thy ===== *)
theory Client_Life
  imports Worker Limiters
begin

text \<open>
  The life of an \<open>OpenFgaGrpcClient\<close> (\<open>src/client/openfga_client.cpp\<close>) and of the \<open>Processor\<close> that
  owns one (\<open>src/bgw/processor.cpp\<close>): what the constructors make of the configuration, the health
  check and the shutdown the destructor runs. The connectivity state of the channel is gRPC's.
\<close>

datatype connectivity =
    GRPC_CHANNEL_IDLE
  | GRPC_CHANNEL_CONNECTING
  | GRPC_CHANNEL_READY
  | GRPC_CHANNEL_TRANSIENT_FAILURE
  | GRPC_CHANNEL_SHUTDOWN

record OpenFgaGrpcClient =
  gc_config :: Config
  gc_channel :: "(string \<times> channel_creds \<times> channel_arg list) option"
  gc_stopping :: bool
  gc_inflight :: Counter

text \<open>The constructor; the semaphore of the counter is at the address \<open>a\<close>.\<close>

definition new_grpc_client :: "Config \<Rightarrow> nat \<Rightarrow> semaphores \<Rightarrow> OpenFgaGrpcClient \<times> semaphores" where
  "new_grpc_client cfg a sm = (case new_counter a 1000 sm of (c, sm') \<Rightarrow>
     (\<lparr>gc_config = cfg, gc_channel = Some (make_channel cfg), gc_stopping = False, gc_inflight = c\<rparr>, sm'))"

definition is_healthy :: "connectivity \<Rightarrow> OpenFgaGrpcClient \<Rightarrow> bool" where
  "is_healthy st client =
     (if gc_channel client = None \<or> gc_stopping client then False
      else (case st of
         GRPC_CHANNEL_READY \<Rightarrow> True
       | GRPC_CHANNEL_IDLE \<Rightarrow> True
       | GRPC_CHANNEL_CONNECTING \<Rightarrow> True
       | _ \<Rightarrow> False))"

text \<open>The exchange of \<open>stopping_\<close> is all that \<open>shutdown\<close> does; both of its ends return.\<close>

definition client_shutdown :: "OpenFgaGrpcClient \<Rightarrow> OpenFgaGrpcClient" where
  "client_shutdown client =
     (if gc_stopping client then client else client\<lparr>gc_stopping := True\<rparr>)"

record worker_processor =
  pr_client :: OpenFgaGrpcClient
  pr_inflight :: Counter

definition new_processor :: "Config \<Rightarrow> nat \<Rightarrow> nat \<Rightarrow> semaphores \<Rightarrow> worker_processor \<times> semaphores" where
  "new_processor cfg a b sm = (case new_grpc_client cfg a sm of (client, sm1) \<Rightarrow>
     case new_counter b 1000 sm1 of (c, sm2) \<Rightarrow> (\<lparr>pr_client = client, pr_inflight = c\<rparr>, sm2))"

text \<open>A client talks to the endpoint of its configuration, and is healthy from its construction until
  its shutdown exactly while the channel has not failed; a second shutdown changes nothing.\<close>

theorem client_health:
  assumes "new_grpc_client cfg a sm = (client, sm')"
  shows "fst (the (gc_channel client)) = config_endpoint cfg \<and>
    (is_healthy st client \<longleftrightarrow> st \<notin> {GRPC_CHANNEL_TRANSIENT_FAILURE, GRPC_CHANNEL_SHUTDOWN}) \<and>
    \<not> is_healthy st (client_shutdown client) \<and>
    client_shutdown (client_shutdown client) = client_shutdown client"
  using assms
  by (cases st) (auto simp: new_grpc_client_def new_counter_def is_healthy_def client_shutdown_def
      make_channel_def Let_def)

text \<open>The counters of a processor and of its client are the two thousand tokens nothing takes.\<close>

lemma new_processor_counters:
  assumes "new_processor cfg a b sm = (p, sm')" and "a \<noteq> b"
  shows "sm' = sm(a := 1000, b := 1000) \<and> semaphore (gc_inflight (pr_client p)) = a \<and>
    semaphore (pr_inflight p) = b"
  using assms by (auto simp: new_processor_def new_grpc_client_def new_counter_def)

end
