(* ===== verification/Startup.thy ===== *)
theory Startup
  imports Calls "HOL-Library.Monad_Syntax" "HOL-Library.Char_ord"
begin

text \<open>
  Loading and start-up: the hooks of \<open>src/init.c\<close>, the sizes and layout of the shared memory segment
  (\<open>src/channel_shmem.c\<close>, \<open>src/state.c\<close> and the size functions of \<open>src/cache.c\<close> and
  \<open>src/stats.c\<close>), and the initialization of what is in it.

  The sizes of the C structs, PostgreSQL's \<open>MAXALIGN\<close>, its overflow-checked \<open>add_size\<close> and
  \<open>mul_size\<close>, and dynahash's size estimate are the parameter \<open>platform\<close>. A size is \<open>None\<close> when its
  computation overflows, which PostgreSQL reports as an error.
\<close>

section \<open>Powers of two\<close>

definition pow2_ceil :: "u32 \<Rightarrow> u32" where
  "pow2_ceil x =
     (if x = 0 then 1
      else let x = x - 1;
               x = x OR drop_bit 1 x;
               x = x OR drop_bit 2 x;
               x = x OR drop_bit 4 x;
               x = x OR drop_bit 8 x;
               x = x OR drop_bit 16 x
           in x + 1)"

text \<open>One step of the smearing: bits reach twice as far down.\<close>

lemma bit_smear:
  fixes x y :: u32
  assumes "\<And>i. bit y i \<longleftrightarrow> (\<exists>j < m. bit x (i + j))"
  shows "bit (y OR drop_bit m y) i \<longleftrightarrow> (\<exists>j < 2 * m. bit x (i + j))"
proof
  assume "bit (y OR drop_bit m y) i"
  then consider "bit y i" | "bit y (m + i)" by (auto simp: bit_or_iff bit_drop_bit_eq)
  then show "\<exists>j < 2 * m. bit x (i + j)"
  proof cases
    case 1
    then obtain j where "j < m" "bit x (i + j)" using assms by blast
    then show ?thesis by (intro exI [of _ j]) simp
  next
    case 2
    then obtain j where "j < m" "bit x (m + i + j)" using assms by blast
    then show ?thesis by (intro exI [of _ "m + j"]) (simp add: ac_simps)
  qed
next
  assume "\<exists>j < 2 * m. bit x (i + j)"
  then obtain j where j: "j < 2 * m" "bit x (i + j)" by blast
  show "bit (y OR drop_bit m y) i"
  proof (cases "j < m")
    case True
    with j(2) assms show ?thesis by (auto simp: bit_or_iff)
  next
    case False
    then have "bit x (m + i + (j - m))" "j - m < m" using j by (simp_all add: ac_simps)
    with assms have "bit y (m + i)" by blast
    then show ?thesis by (simp add: bit_or_iff bit_drop_bit_eq)
  qed
qed

text \<open>All five steps: every bit from the highest one down is set.\<close>

definition smear :: "u32 \<Rightarrow> u32" where
  "smear x = (let x = x OR drop_bit 1 x;
                  x = x OR drop_bit 2 x;
                  x = x OR drop_bit 4 x;
                  x = x OR drop_bit 8 x
              in x OR drop_bit 16 x)"

lemma bit_smear_all: "bit (smear y0) i \<longleftrightarrow> (\<exists>j < 32. bit y0 (i + j))"
proof -
  define y1 where "y1 = y0 OR drop_bit 1 y0"
  define y2 where "y2 = y1 OR drop_bit 2 y1"
  define y3 where "y3 = y2 OR drop_bit 4 y2"
  define y4 where "y4 = y3 OR drop_bit 8 y3"
  have b1: "bit y1 i \<longleftrightarrow> (\<exists>j < 2. bit y0 (i + j))" for i
    using bit_smear [of y0 1 y0 i] by (simp add: y1_def)
  have b2: "bit y2 i \<longleftrightarrow> (\<exists>j < 4. bit y0 (i + j))" for i
    using bit_smear [of y1 2 y0 i, OF b1] by (simp add: y2_def)
  have b3: "bit y3 i \<longleftrightarrow> (\<exists>j < 8. bit y0 (i + j))" for i
    using bit_smear [of y2 4 y0 i, OF b2] by (simp add: y3_def)
  have b4: "bit y4 i \<longleftrightarrow> (\<exists>j < 16. bit y0 (i + j))" for i
    using bit_smear [of y3 8 y0 i, OF b3] by (simp add: y4_def)
  have "smear y0 = y4 OR drop_bit 16 y4" by (simp add: smear_def Let_def y1_def y2_def y3_def y4_def)
  then show ?thesis using bit_smear [of y4 16 y0 i, OF b4] by simp
qed

lemma highest_bit:
  fixes y :: u32
  assumes "y \<noteq> 0"
  obtains h where "bit y h" and "\<And>i. bit y i \<Longrightarrow> i \<le> h" and "h < 32" and "2 ^ h \<le> unat y" and "unat y < 2 ^ Suc h"
proof -
  let ?h = "Max {i. bit y i}"
  have fin: "finite {i. bit y i}" by (rule finite_subset [of _ "{..<32}"]) (auto dest: bit_imp_le_length)
  have ne: "{i. bit y i} \<noteq> {}" using assms by (auto simp: bit_eq_iff)
  have h: "bit y ?h" and le: "\<And>i. bit y i \<Longrightarrow> i \<le> ?h" using Max_in [OF fin ne] Max_ge [OF fin] by auto
  have bn: "bit (unat y) i = bit y i" for i by (simp add: bit_unsigned_iff)
  have "take_bit (Suc ?h) (unat y) = unat y" by (rule bit_eqI) (auto simp: bit_take_bit_iff bn dest: le)
  then have lt: "unat y < 2 ^ Suc ?h" by (metis take_bit_nat_less_exp)
  have "bit (unat y) ?h" using h by (simp add: bn)
  then have "odd (unat y div 2 ^ ?h)" by (rule iffD1 [OF bit_iff_odd])
  then have "unat y div 2 ^ ?h \<noteq> 0" by (metis even_zero)
  then have ge: "2 ^ ?h \<le> unat y" by (simp add: div_eq_0_iff not_less)
  have "?h < 32" using h bit_imp_le_length by fastforce
  from that [OF h le this ge lt] show thesis .
qed

text \<open>The result is the least power of two that is not below the argument.\<close>

lemma pow2_ceil_least:
  assumes "1 < unat x" and "unat x \<le> 2 ^ 31"
  shows "\<exists>k \<le> 31. unat (pow2_ceil x) = 2 ^ k \<and> unat x \<le> 2 ^ k \<and> 2 ^ k < 2 * unat x"
proof -
  have u: "unat (x - 1) = unat x - 1" using assms(1) by (simp add: unat_sub word_le_nat_alt)
  then have "x - 1 \<noteq> 0" using assms(1) by auto
  then obtain h where h: "bit (x - 1) h" and le_h: "\<And>i. bit (x - 1) i \<Longrightarrow> i \<le> h" and h32: "h < 32"
    and low: "2 ^ h \<le> unat (x - 1)" "unat (x - 1) < 2 ^ Suc h" by (rule highest_bit) (rule that)
  have s: "smear (x - 1) = mask (Suc h)"
  proof (rule bit_word_eqI)
    fix i assume "i < LENGTH(32)"
    then show "bit (smear (x - 1)) i = bit (mask (Suc h) :: u32) i"
      using h le_h [of "i + _"] h32 by (auto simp: bit_smear_all bit_mask_iff less_Suc_eq_le
          intro!: exI [of _ "h - i"] dest: le_h add_leD1)
  qed
  have "\<not> 31 \<le> h"
  proof
    assume "31 \<le> h"
    then have "(2::nat) ^ 31 \<le> 2 ^ h" by (intro power_increasing) simp_all
    with low(1) u assms show False by linarith
  qed
  then have k: "Suc h \<le> 31" by simp
  have "pow2_ceil x = smear (x - 1) + 1" using assms(1) by (auto simp: pow2_ceil_def smear_def Let_def)
  also have "\<dots> = 2 ^ Suc h" by (simp add: s mask_eq_exp_minus_1)
  finally have "unat (pow2_ceil x) = 2 ^ Suc h"
    using k power_strict_increasing [of "Suc h" 32 "2::nat"] unat_of_nat [of "2 ^ Suc h", where ?'a = 32]
    by simp
  with low u k assms(1) show ?thesis by (intro exI [of _ "Suc h"]) auto
qed

section \<open>Sizes\<close>

record platform =
  add_size :: "nat \<Rightarrow> nat \<Rightarrow> nat option"
  mul_size :: "nat \<Rightarrow> nat \<Rightarrow> nat option"
  MAXALIGN :: "nat \<Rightarrow> nat"
  hash_estimate_size :: "u64 \<Rightarrow> nat \<Rightarrow> nat"
  sizeof_FgaState :: nat
  sizeof_FgaChannel :: nat
  offsetof_pool_slots :: nat
  sizeof_FgaChannelSlot :: nat
  offsetof_queue_values :: nat
  sizeof_FgaChannelSlotIndex :: nat
  offsetof_cache_entries :: nat
  sizeof_FgaL2AclEntry :: nat
  sizeof_FgaL2AclSlot :: nat
  offsetof_stats_backends :: nat
  sizeof_FgaBackendStats :: nat

text \<open>What PostgreSQL documents: sums and products checked against the range of \<open>Size\<close>; alignment
  rounds up, and a sum of aligned sizes is aligned.\<close>

definition platform_ok :: "platform \<Rightarrow> bool" where
  "platform_ok pf \<longleftrightarrow>
     (\<forall>a b. add_size pf a b = (if a + b < 2 ^ 64 then Some (a + b) else None)) \<and>
     (\<forall>a b. mul_size pf a b = (if a * b < 2 ^ 64 then Some (a * b) else None)) \<and>
     (\<forall>n. n \<le> MAXALIGN pf n) \<and>
     (\<forall>a b. MAXALIGN pf (MAXALIGN pf a + MAXALIGN pf b) = MAXALIGN pf a + MAXALIGN pf b) \<and>
     MAXALIGN pf 0 = 0"

definition pool_shmem_size :: "platform \<Rightarrow> u32 \<Rightarrow> nat option" where
  "pool_shmem_size pf capacity = do {
     n \<leftarrow> mul_size pf (sizeof_FgaChannelSlot pf) (unat capacity);
     add_size pf (offsetof_pool_slots pf) n }"

definition queue_shmem_size :: "platform \<Rightarrow> u32 \<Rightarrow> nat option" where
  "queue_shmem_size pf capacity = do {
     n \<leftarrow> mul_size pf (sizeof_FgaChannelSlotIndex pf) (unat capacity);
     add_size pf (offsetof_queue_values pf) n }"

text \<open>The C library's \<open>atoi\<close>, on a number that fits an \<open>int\<close>.\<close>

fun decimal_value :: "int \<Rightarrow> string \<Rightarrow> int" where
  "decimal_value acc [] = acc"
| "decimal_value acc (c # cs) = (if CHR ''0'' \<le> c \<and> c \<le> CHR ''9''
     then decimal_value (10 * acc + (of_char c - 48)) cs else acc)"

definition atoi :: "string \<Rightarrow> int" where
  "atoi s = (case dropWhile (\<lambda>c. c = CHR '' '' \<or> CHR 0x09 \<le> c \<and> c \<le> CHR 0x0D) s of
     [] \<Rightarrow> 0
   | c # cs \<Rightarrow> if c = CHR ''-'' then - decimal_value 0 cs
       else if c = CHR ''+'' then decimal_value 0 cs else decimal_value 0 (c # cs))"

text \<open>\<open>max_connections\<close> is what \<open>GetConfigOption\<close> returns.\<close>

definition compute_slot_size :: "FgaConfig \<Rightarrow> string option \<Rightarrow> int" where
  "compute_slot_size cfg max_connections =
     (if 0 < sint (cfg_max_slots cfg) then sint (cfg_max_slots cfg)
      else let max_conn = (case max_connections of Some str \<Rightarrow> atoi str | None \<Rightarrow> 100);
               slots = max_conn * 2;
               slots = (if slots < 1024 then 1024 else slots);
               slots = (if 16384 < slots then 16384 else slots)
           in slots)"

definition fga_channel_shmem_size :: "platform \<Rightarrow> FgaConfig \<Rightarrow> string option \<Rightarrow> nat option" where
  "fga_channel_shmem_size pf cfg max_connections = do {
     let slot_count = word_of_int (compute_slot_size cfg max_connections);
     let queue_capacity = pow2_ceil slot_count;
     size \<leftarrow> add_size pf 0 (MAXALIGN pf (sizeof_FgaChannel pf));
     pool \<leftarrow> pool_shmem_size pf slot_count;
     size \<leftarrow> add_size pf size (MAXALIGN pf pool);
     queue \<leftarrow> queue_shmem_size pf queue_capacity;
     add_size pf size (MAXALIGN pf queue) }"

definition fga_cache_shmem_base_size :: "platform \<Rightarrow> FgaConfig \<Rightarrow> nat option" where
  "fga_cache_shmem_base_size pf cfg = do {
     let capacity = l2_capacity_from_config (cfg_cache_size cfg);
     n \<leftarrow> mul_size pf (sizeof_FgaL2AclEntry pf) (unat capacity);
     add_size pf (offsetof_cache_entries pf) n }"

definition fga_cache_shmem_hash_size :: "platform \<Rightarrow> FgaConfig \<Rightarrow> nat" where
  "fga_cache_shmem_hash_size pf cfg =
     hash_estimate_size pf (l2_hash_size (l2_capacity_from_config (cfg_cache_size cfg))) (sizeof_FgaL2AclSlot pf)"

definition fga_stats_shmem_size :: "platform \<Rightarrow> nat \<Rightarrow> nat option" where
  "fga_stats_shmem_size pf MaxBackends = do {
     n \<leftarrow> mul_size pf (sizeof_FgaBackendStats pf) MaxBackends;
     add_size pf (offsetof_stats_backends pf) n }"

text \<open>What the server's configuration fixes for start-up.\<close>

record startup_env =
  se_config :: FgaConfig
  se_max_connections :: "string option"
  se_MaxBackends :: nat

definition struct_size :: "platform \<Rightarrow> startup_env \<Rightarrow> nat option" where
  "struct_size pf env = do {
     let size = MAXALIGN pf (sizeof_FgaState pf);
     ch \<leftarrow> fga_channel_shmem_size pf (se_config env) (se_max_connections env);
     size \<leftarrow> add_size pf size (MAXALIGN pf ch);
     base \<leftarrow> fga_cache_shmem_base_size pf (se_config env);
     size \<leftarrow> add_size pf size (MAXALIGN pf base);
     st \<leftarrow> fga_stats_shmem_size pf (se_MaxBackends env);
     add_size pf size (MAXALIGN pf st) }"

text \<open>The space and the locks asked for.\<close>

definition fga_shmem_request :: "platform \<Rightarrow> startup_env \<Rightarrow> (nat \<times> string \<times> nat) option" where
  "fga_shmem_request pf env = do {
     size \<leftarrow> struct_size pf env;
     size \<leftarrow> add_size pf size (MAXALIGN pf (fga_cache_shmem_hash_size pf (se_config env)));
     Some (size, ''postfga'', 4) }"

section \<open>Initialization\<close>

datatype startup_error = SizeOverflow | SizeMiscalculated | HashSeedFailed | NotPreloaded

definition try_with :: "startup_error + 'a \<Rightarrow> ('a \<Rightarrow> startup_error + 'b) \<Rightarrow> startup_error + 'b" where
  "try_with r f = (case r of Inl err \<Rightarrow> Inl err | Inr x \<Rightarrow> f x)"

definition sized :: "nat option \<Rightarrow> startup_error + nat" where
  "sized sz = (case sz of None \<Rightarrow> Inl SizeOverflow | Some n \<Rightarrow> Inr n)"

text \<open>What the shared memory holds where the structs are placed.\<close>

record 'l segment_memory =
  mem_head :: 'l
  mem_slots :: "FgaChannelSlot list"
  mem_queue :: FgaChannelSlotQueue
  mem_entries :: "FgaL2AclEntry list"

text \<open>The channel, and the offsets from it of its pool, of its queue and of the byte after it.\<close>

definition fga_channel_shmem_init ::
  "platform \<Rightarrow> 'l slist_ops \<Rightarrow> FgaConfig \<Rightarrow> string option \<Rightarrow> 'l segment_memory
    \<Rightarrow> startup_error + 'l FgaChannel \<times> nat \<times> nat \<times> nat" where
  "fga_channel_shmem_init pf sl cfg max_connections mem =
     (let slot_count = word_of_int (compute_slot_size cfg max_connections);
          queue_capacity = pow2_ceil slot_count;
          pool_at = MAXALIGN pf (sizeof_FgaChannel pf)
      in try_with (sized (pool_shmem_size pf slot_count)) (\<lambda>pool_size.
         let queue_at = pool_at + MAXALIGN pf pool_size
         in try_with (sized (queue_shmem_size pf queue_capacity)) (\<lambda>queue_size.
         let ptr = queue_at + MAXALIGN pf queue_size;
             ch = \<lparr>ch_request_id = 0,
               ch_pool = pool_init sl \<lparr>pool_head = mem_head mem, pool_slots = mem_slots mem\<rparr> (unat slot_count),
               ch_queue = queue_init (mem_queue mem) (ucast queue_capacity)\<rparr>
         in try_with (sized (fga_channel_shmem_size pf cfg max_connections)) (\<lambda>size.
            if ptr \<noteq> MAXALIGN pf size then Inl SizeMiscalculated
            else Inr (ch, pool_at, queue_at, ptr)))))"

text \<open>The segment: the state and what its pointers lead to, with the offsets of the parts.\<close>

record 'l segment =
  seg_state :: "'l FgaState"
  seg_hash_seed :: u64
  seg_cache :: FgaL2AclCache
  seg_stats :: FgaStats
  seg_channel_at :: nat
  seg_pool_at :: nat
  seg_queue_at :: nat
  seg_cache_at :: nat
  seg_stats_at :: nat
  seg_end :: nat

text \<open>\<open>seed\<close> is what \<open>pg_strong_random\<close> gives; \<open>latches\<close> are the latches of the processes.\<close>

definition initialize_state ::
  "platform \<Rightarrow> 'l slist_ops \<Rightarrow> startup_env \<Rightarrow> u64 option \<Rightarrow> (int \<Rightarrow> bool option) \<Rightarrow> 'l segment_memory
    \<Rightarrow> startup_error + 'l segment" where
  "initialize_state pf sl env seed latches mem = (case seed of
     None \<Rightarrow> Inl HashSeedFailed
   | Some hash_seed \<Rightarrow>
       (let channel_at = MAXALIGN pf (sizeof_FgaState pf)
        in try_with (fga_channel_shmem_init pf sl (se_config env) (se_max_connections env) mem)
             (\<lambda>(ch, pool_off, queue_off, _).
           try_with (sized (fga_channel_shmem_size pf (se_config env) (se_max_connections env))) (\<lambda>ch_size.
           let cache_at = channel_at + MAXALIGN pf ch_size
           in try_with (sized (fga_cache_shmem_base_size pf (se_config env))) (\<lambda>base_size.
           let stats_at = cache_at + MAXALIGN pf base_size
           in try_with (sized (fga_stats_shmem_size pf (se_MaxBackends env))) (\<lambda>stats_size.
             Inr \<lparr>seg_state = \<lparr>channel = ch, bgw_latch = None, proc_latch = latches\<rparr>,
               seg_hash_seed = hash_seed,
               seg_cache = fga_cache_shmem_init (se_config env) (mem_entries mem),
               seg_stats = fga_stats_shmem_init (se_MaxBackends env),
               seg_channel_at = channel_at, seg_pool_at = channel_at + pool_off,
               seg_queue_at = channel_at + queue_off, seg_cache_at = cache_at, seg_stats_at = stats_at,
               seg_end = stats_at + MAXALIGN pf stats_size\<rparr>))))))"

text \<open>\<open>found\<close> is the segment if another process has made it already. The process's own caches are
  started in both cases.\<close>

definition fga_shmem_startup ::
  "platform \<Rightarrow> 'l slist_ops \<Rightarrow> 'h dynahash \<Rightarrow> startup_env \<Rightarrow> u64 option \<Rightarrow> (int \<Rightarrow> bool option)
    \<Rightarrow> 'l segment_memory \<Rightarrow> 'l segment option \<Rightarrow> FgaL1Cache option \<times> 'h option
    \<Rightarrow> startup_error + 'l segment \<times> FgaL1Cache option \<times> 'h option" where
  "fga_shmem_startup pf sl ht env seed latches mem found caches =
     try_with (sized (struct_size pf env)) (\<lambda>size.
     try_with (case found of Some seg \<Rightarrow> Inr seg | None \<Rightarrow> initialize_state pf sl env seed latches mem) (\<lambda>seg.
       Inr (seg, fga_cache_shmem_each_startup ht (seg_cache seg) (fst caches) (snd caches))))"

section \<open>Loading\<close>

text \<open>The server's hooks and what the module keeps of them; a hook acts on the world \<open>'w\<close>.\<close>

record 'w hooks =
  shmem_request_hook :: "('w \<Rightarrow> 'w) option"
  shmem_startup_hook :: "('w \<Rightarrow> 'w) option"
  prev_shmem_request_hook :: "('w \<Rightarrow> 'w) option"
  prev_shmem_startup_hook :: "('w \<Rightarrow> 'w) option"
  background_workers :: nat

definition run_prev :: "('w \<Rightarrow> 'w) option \<Rightarrow> 'w \<Rightarrow> 'w" where
  "run_prev prev w = (case prev of None \<Rightarrow> w | Some hook \<Rightarrow> hook w)"

text \<open>\<open>requested\<close> and \<open>started\<close> are \<open>fga_shmem_request\<close> and \<open>fga_shmem_startup\<close> as actions on the world.\<close>

definition PG_init :: "('w \<Rightarrow> 'w) \<Rightarrow> ('w \<Rightarrow> 'w) \<Rightarrow> (string \<Rightarrow> string option) \<Rightarrow> bool
    \<Rightarrow> FgaConfig \<times> 'w hooks \<Rightarrow> startup_error + FgaConfig \<times> 'w hooks" where
  "PG_init requested started getenv preload st = (case st of (cfg, h) \<Rightarrow>
     if \<not> preload then Inl NotPreloaded
     else let cfg1 = fga_guc_init getenv cfg;
              h1 = h\<lparr>prev_shmem_request_hook := shmem_request_hook h\<rparr>;
              h2 = h1\<lparr>shmem_request_hook := Some (requested \<circ> run_prev (prev_shmem_request_hook h1))\<rparr>;
              h3 = h2\<lparr>prev_shmem_startup_hook := shmem_startup_hook h2\<rparr>;
              h4 = h3\<lparr>shmem_startup_hook := Some (started \<circ> run_prev (prev_shmem_startup_hook h3))\<rparr>
          in Inr (cfg1, h4\<lparr>background_workers := background_workers h4 + 1\<rparr>))"

definition PG_fini :: "'w hooks \<Rightarrow> 'w hooks" where
  "PG_fini h = h\<lparr>shmem_request_hook := prev_shmem_request_hook h,
     shmem_startup_hook := prev_shmem_startup_hook h\<rparr>"

section \<open>Properties\<close>

lemma sizes_Some:
  assumes "fga_shmem_request pf env = Some (asked, tranche, locks)" and pf: "platform_ok pf"
  shows "\<exists>ps qs cs bs ss.
    pool_shmem_size pf (word_of_int (compute_slot_size (se_config env) (se_max_connections env))) = Some ps \<and>
    queue_shmem_size pf (pow2_ceil (word_of_int (compute_slot_size (se_config env) (se_max_connections env)))) = Some qs \<and>
    fga_channel_shmem_size pf (se_config env) (se_max_connections env) = Some cs \<and>
    fga_cache_shmem_base_size pf (se_config env) = Some bs \<and>
    fga_stats_shmem_size pf (se_MaxBackends env) = Some ss \<and>
    cs = MAXALIGN pf (sizeof_FgaChannel pf) + MAXALIGN pf ps + MAXALIGN pf qs \<and>
    struct_size pf env = Some (MAXALIGN pf (sizeof_FgaState pf) + MAXALIGN pf cs + MAXALIGN pf bs + MAXALIGN pf ss) \<and>
    asked = MAXALIGN pf (sizeof_FgaState pf) + MAXALIGN pf cs + MAXALIGN pf bs + MAXALIGN pf ss +
      MAXALIGN pf (fga_cache_shmem_hash_size pf (se_config env))"
proof -
  have add: "add_size pf a b = Some c \<longleftrightarrow> c = a + b \<and> a + b < 2 ^ 64" for a b c
    using pf by (auto simp: platform_ok_def)
  show ?thesis
    using assms(1)
    by (auto simp: fga_shmem_request_def struct_size_def fga_channel_shmem_size_def add bind_eq_Some_conv Let_def)
qed

lemma channel_init_sized:
  assumes pf: "platform_ok pf"
    and "pool_shmem_size pf (word_of_int (compute_slot_size cfg mc)) = Some ps"
    and "queue_shmem_size pf (pow2_ceil (word_of_int (compute_slot_size cfg mc))) = Some qs"
    and "fga_channel_shmem_size pf cfg mc = Some cs"
    and cs: "cs = MAXALIGN pf (sizeof_FgaChannel pf) + MAXALIGN pf ps + MAXALIGN pf qs"
  shows "\<exists>ch. fga_channel_shmem_init pf sl cfg mc mem =
      Inr (ch, MAXALIGN pf (sizeof_FgaChannel pf), MAXALIGN pf (sizeof_FgaChannel pf) + MAXALIGN pf ps, cs) \<and>
    MAXALIGN pf cs = cs"
proof -
  have sum: "MAXALIGN pf (MAXALIGN pf a + MAXALIGN pf b) = MAXALIGN pf a + MAXALIGN pf b" for a b
    using pf by (simp add: platform_ok_def)
  have "MAXALIGN pf cs = MAXALIGN pf (MAXALIGN pf (MAXALIGN pf (sizeof_FgaChannel pf) + MAXALIGN pf ps) + MAXALIGN pf qs)"
    by (simp add: cs sum)
  also have "\<dots> = cs" by (subst sum) (simp add: cs sum)
  finally have al: "MAXALIGN pf cs = cs" .
  then show ?thesis
    by (simp add: fga_channel_shmem_init_def Let_def assms(2-4) sized_def try_with_def) (simp add: cs)
qed

text \<open>C36: When the sizes asked for at load time do not overflow, start-up places the parts of the
  segment one after the other without overlap, the pool and the queue within the channel's part;
  the segment ends exactly where \<open>struct_size\<close> says, the space asked for holds it and the hash table
  beside it, and the check for a miscalculated channel size never fires.\<close>

theorem startup_layout:
  assumes "platform_ok pf" and "fga_shmem_request pf env = Some (asked, tranche, locks)"
  shows "\<exists>seg ps qs bs ss.
    initialize_state pf sl env (Some hash_seed) latches mem = Inr seg \<and>
    pool_shmem_size pf (word_of_int (compute_slot_size (se_config env) (se_max_connections env))) = Some ps \<and>
    queue_shmem_size pf (pow2_ceil (word_of_int (compute_slot_size (se_config env) (se_max_connections env)))) = Some qs \<and>
    fga_cache_shmem_base_size pf (se_config env) = Some bs \<and>
    fga_stats_shmem_size pf (se_MaxBackends env) = Some ss \<and>
    sizeof_FgaState pf \<le> seg_channel_at seg \<and> seg_channel_at seg + sizeof_FgaChannel pf \<le> seg_pool_at seg \<and>
    seg_pool_at seg + ps \<le> seg_queue_at seg \<and> seg_queue_at seg + qs \<le> seg_cache_at seg \<and>
    seg_cache_at seg + bs \<le> seg_stats_at seg \<and> seg_stats_at seg + ss \<le> seg_end seg \<and>
    struct_size pf env = Some (seg_end seg) \<and>
    seg_end seg + fga_cache_shmem_hash_size pf (se_config env) \<le> asked"
proof -
  obtain ps qs cs bs ss where s: "pool_shmem_size pf (word_of_int (compute_slot_size (se_config env) (se_max_connections env))) = Some ps"
    "queue_shmem_size pf (pow2_ceil (word_of_int (compute_slot_size (se_config env) (se_max_connections env)))) = Some qs"
    "fga_channel_shmem_size pf (se_config env) (se_max_connections env) = Some cs"
    "fga_cache_shmem_base_size pf (se_config env) = Some bs"
    "fga_stats_shmem_size pf (se_MaxBackends env) = Some ss"
    "cs = MAXALIGN pf (sizeof_FgaChannel pf) + MAXALIGN pf ps + MAXALIGN pf qs"
    "struct_size pf env = Some (MAXALIGN pf (sizeof_FgaState pf) + MAXALIGN pf cs + MAXALIGN pf bs + MAXALIGN pf ss)"
    "asked = MAXALIGN pf (sizeof_FgaState pf) + MAXALIGN pf cs + MAXALIGN pf bs + MAXALIGN pf ss +
      MAXALIGN pf (fga_cache_shmem_hash_size pf (se_config env))"
    using sizes_Some [OF assms(2,1)] by blast
  have le: "n \<le> MAXALIGN pf n" for n using assms(1) by (simp add: platform_ok_def)
  obtain ch where ch: "fga_channel_shmem_init pf sl (se_config env) (se_max_connections env) mem =
      Inr (ch, MAXALIGN pf (sizeof_FgaChannel pf), MAXALIGN pf (sizeof_FgaChannel pf) + MAXALIGN pf ps, cs)"
    and al: "MAXALIGN pf cs = cs"
    using channel_init_sized [OF assms(1) s(1-3,6)] by blast
  show ?thesis
    using s(1-5,7,8) al le [of "sizeof_FgaState pf"] le [of "sizeof_FgaChannel pf"] le [of ps] le [of qs]
      le [of bs] le [of ss] le [of "fga_cache_shmem_hash_size pf (se_config env)"]
    by (simp add: initialize_state_def sized_def try_with_def Let_def ch) (simp add: s(6))
qed

text \<open>A platform with 8-byte alignment.\<close>

definition align8 :: "nat \<Rightarrow> nat" where
  "align8 n = (n + 7) div 8 * 8"

definition example_platform :: platform where
  "example_platform = \<lparr>add_size = (\<lambda>a b. if a + b < 2 ^ 64 then Some (a + b) else None),
     mul_size = (\<lambda>a b. if a * b < 2 ^ 64 then Some (a * b) else None), MAXALIGN = align8,
     hash_estimate_size = (\<lambda>n size. unat n * (size + 16)), sizeof_FgaState = 48, sizeof_FgaChannel = 40,
     offsetof_pool_slots = 8, sizeof_FgaChannelSlot = 736, offsetof_queue_values = 6,
     sizeof_FgaChannelSlotIndex = 2, offsetof_cache_entries = 24, sizeof_FgaL2AclEntry = 64,
     sizeof_FgaL2AclSlot = 40, offsetof_stats_backends = 56, sizeof_FgaBackendStats = 104\<rparr>"

lemma example_platform_ok: "platform_ok example_platform"
proof -
  have "align8 (align8 a + align8 b) = align8 a + align8 b" for a b
  proof -
    have "(a' * 8 + b' * 8 + 7) div 8 = a' + (b'::nat)" for a' b' by linarith
    then show ?thesis by (simp only: align8_def distrib_right)
  qed
  moreover have "n \<le> align8 n" for n by (simp add: align8_def)
  ultimately show ?thesis by (simp add: platform_ok_def example_platform_def align8_def [of 0]) 
qed

definition example_startup :: startup_env where
  "example_startup = \<lparr>se_config = fga_guc_init (\<lambda>_. None) fga_config_instance,
     se_max_connections = Some ''100'', se_MaxBackends = 120\<rparr>"

lemma example_sizes:
  "cfg_cache_size (se_config example_startup) = 32"
  "compute_slot_size (se_config example_startup) (se_max_connections example_startup) = 1024"
  "pow2_ceil 1024 = 1024" "unat (l2_capacity_from_config 32) = 524288"
  "unat (l2_hash_size (l2_capacity_from_config 32)) = 1048576"
proof -
  show c: "cfg_cache_size (se_config example_startup) = 32"
    "compute_slot_size (se_config example_startup) (se_max_connections example_startup) = 1024"
    by (simp_all add: example_startup_def compute_slot_size_def fga_guc_init_def fga_guc_vars_def
      fga_config_instance_def atoi_def)
  show "pow2_ceil 1024 = 1024" by code_simp
  show u: "unat (l2_capacity_from_config 32) = 524288" using l2_capacity_value [of 32] by simp
  show "unat (l2_hash_size (l2_capacity_from_config 32)) = 1048576"
    by (simp add: l2_hash_size_def unat_word_ariths u)
qed

lemma example_request: "\<exists>asked. fga_shmem_request example_platform example_startup = Some (asked, ''postfga'', 4)"
proof -
  have "pool_shmem_size example_platform 1024 = Some 753672"
    by (simp add: pool_shmem_size_def example_platform_def)
  moreover have "queue_shmem_size example_platform 1024 = Some 2054"
    by (simp add: queue_shmem_size_def example_platform_def)
  moreover have "fga_cache_shmem_base_size example_platform (se_config example_startup) = Some 33554456"
    by (simp add: fga_cache_shmem_base_size_def example_sizes example_platform_def)
  moreover have "fga_stats_shmem_size example_platform (se_MaxBackends example_startup) = Some 12536"
    by (simp add: fga_stats_shmem_size_def example_platform_def example_startup_def)
  moreover have "fga_cache_shmem_hash_size example_platform (se_config example_startup) = 58720256"
    by (simp add: fga_cache_shmem_hash_size_def example_sizes example_platform_def)
  ultimately show ?thesis
    by (simp add: fga_shmem_request_def struct_size_def fga_channel_shmem_size_def example_sizes)
      (simp add: example_platform_def align8_def)
qed

lemma example_started:
  "\<exists>seg. initialize_state example_platform list_slist example_startup (Some seed) latches mem = Inr seg"
proof -
  obtain asked where "fga_shmem_request example_platform example_startup = Some (asked, ''postfga'', 4)"
    using example_request by blast
  from sizes_Some [OF this example_platform_ok]
  obtain ps qs cs bs ss where s: "pool_shmem_size example_platform (word_of_int (compute_slot_size (se_config example_startup) (se_max_connections example_startup))) = Some ps"
    "queue_shmem_size example_platform (pow2_ceil (word_of_int (compute_slot_size (se_config example_startup) (se_max_connections example_startup)))) = Some qs"
    "fga_channel_shmem_size example_platform (se_config example_startup) (se_max_connections example_startup) = Some cs"
    "fga_cache_shmem_base_size example_platform (se_config example_startup) = Some bs"
    "fga_stats_shmem_size example_platform (se_MaxBackends example_startup) = Some ss"
    "cs = MAXALIGN example_platform (sizeof_FgaChannel example_platform) + MAXALIGN example_platform ps + MAXALIGN example_platform qs"
    by blast
  obtain ch where "fga_channel_shmem_init example_platform list_slist (se_config example_startup) (se_max_connections example_startup) mem =
      Inr (ch, MAXALIGN example_platform (sizeof_FgaChannel example_platform),
        MAXALIGN example_platform (sizeof_FgaChannel example_platform) + MAXALIGN example_platform ps, cs)"
    using channel_init_sized [OF example_platform_ok s(1-3,6)] by blast
  with s(3-5) show ?thesis
    by (simp add: initialize_state_def try_with_def sized_def Let_def)
qed

theorem startup_layout_witness:
  "\<exists>seg. initialize_state example_platform list_slist example_startup (Some 42) (\<lambda>_. None)
     \<lparr>mem_head = [], mem_slots = [], mem_queue = example_queue, mem_entries = []\<rparr> = Inr seg \<and>
     48 \<le> seg_channel_at seg \<and> seg_channel_at seg + 40 \<le> seg_pool_at seg"
proof -
  obtain asked where "fga_shmem_request example_platform example_startup = Some (asked, ''postfga'', 4)"
    using example_request by blast
  from startup_layout [OF example_platform_ok this, of list_slist 42 "\<lambda>_. None"
      "\<lparr>mem_head = [], mem_slots = [], mem_queue = example_queue, mem_entries = []\<rparr>"]
  show ?thesis by (auto simp: example_platform_def)
qed

text \<open>The channel after start-up; its queue has the least power of two of cells that is at least
  the number of slots.\<close>

lemma initialized_channel:
  assumes "slist_ok sl" and "config_bounds (se_config env)"
    and "initialize_state pf sl env seed latches mem = Inr seg"
    and "n = nat (compute_slot_size (se_config env) (se_max_connections env))"
    and "length (mem_slots mem) = n" and "length (q_values (mem_queue mem)) = unat (pow2_ceil (of_nat n))"
  obtains k where "chan_wf sl n (seg_state seg)" and "free_slots sl (seg_state seg) = rev [0..<n]"
    and "queued (seg_state seg) = []" and "1024 \<le> n" and "n \<le> 16384"
    and "queue_capacity (ch_queue (channel (seg_state seg))) = 2 ^ k - 1" and "n \<le> 2 ^ k" and "2 ^ k < 2 * n"
proof -
  let ?c = "compute_slot_size (se_config env) (se_max_connections env)"
  have c: "1024 \<le> ?c" "?c \<le> 16384"
    using assms(2) by (simp_all add: compute_slot_size_def config_bounds_def Let_def)
  then have n: "1024 \<le> n" "n \<le> 16384" by (simp_all add: assms(4))
  have w: "(word_of_int ?c :: u32) = of_nat n" using c by (simp add: assms(4))
  have u: "unat (of_nat n :: u32) = n" using n by (simp add: unsigned_of_nat take_bit_eq_mod)
  obtain k where k: "k \<le> 31" "unat (pow2_ceil (of_nat n)) = 2 ^ k" "n \<le> 2 ^ k" "2 ^ k < 2 * n"
    using pow2_ceil_least [of "of_nat n"] n by (auto simp: u)
  have "(2::nat) ^ k < 2 ^ 15" using k(4) n(2) by simp
  then have "k < 15" by (rule power_less_imp_less_exp [rotated]) simp
  then have k14: "k \<le> 14" by simp
  have cap: "(ucast (pow2_ceil (of_nat n)) :: u16) = 2 ^ k"
  proof -
    have "unat (ucast (pow2_ceil (of_nat n)) :: u16) = 2 ^ k"
      using k(2) k14 power_strict_increasing [of k 16 "2::nat"] by (simp add: unsigned_ucast_eq take_bit_eq_mod)
    also have "\<dots> = unat (2 ^ k :: u16)"
      using k14 unat_of_nat [of "2 ^ k", where ?'a = 16] power_strict_increasing [of k 16 "2::nat"] by simp
    finally show ?thesis by (simp add: word_unat_eq_iff)
  qed
  let ?q = "queue_init (mem_queue mem) (2 ^ k)"
  have ch: "channel (seg_state seg) = \<lparr>ch_request_id = 0,
      ch_pool = pool_init sl \<lparr>pool_head = mem_head mem, pool_slots = mem_slots mem\<rparr> n, ch_queue = ?q\<rparr>"
    using assms(3) by (auto simp: initialize_state_def fga_channel_shmem_init_def Let_def try_with_def w u cap
        split: option.splits sum.splits if_splits)
  have q: "queue_wf ?q" "queue_list ?q = []" "queue_capacity ?q = 2 ^ k - 1"
    using queue_init_empty [of k "mem_queue mem"] k14 assms(6) k(2) by simp_all
  have p: "pool_wf sl n (ch_pool (channel (seg_state seg)))" "pool_free sl (ch_pool (channel (seg_state seg))) = rev [0..<n]"
    using pool_init_wf [OF assms(1), of "\<lparr>pool_head = mem_head mem, pool_slots = mem_slots mem\<rparr>" n] assms(5)
    by (simp_all add: ch)
  with n p q k(3,4) show thesis by (intro that [of k]) (simp_all add: chan_wf_def free_slots_def queued_def ch)
qed

text \<open>C37: With any configuration the server can have, start-up leaves the channel ready: as many
  slots as \<open>max_connections\<close> doubled and kept within 1024 and 16384, all of them free, and an empty
  queue. The queue holds at least all slots but one, and not all of them exactly when their number
  is a power of two, as it is for up to 512 connections: then a backend that holds the last slot
  can find the queue full.\<close>

theorem startup_channel_ready:
  assumes "slist_ok sl" and "config_bounds (se_config env)"
    and "initialize_state pf sl env seed latches mem = Inr seg"
    and "n = nat (compute_slot_size (se_config env) (se_max_connections env))"
    and "length (mem_slots mem) = n" and "length (q_values (mem_queue mem)) = unat (pow2_ceil (of_nat n))"
  shows "chan_wf sl n (seg_state seg) \<and> free_slots sl (seg_state seg) = rev [0..<n] \<and>
    queued (seg_state seg) = [] \<and> 1024 \<le> n \<and> n \<le> 16384 \<and>
    n - 1 \<le> queue_capacity (ch_queue (channel (seg_state seg))) \<and>
    (queue_capacity (ch_queue (channel (seg_state seg))) < n \<longleftrightarrow> (\<exists>k. n = 2 ^ k))"
proof -
  obtain k where c: "chan_wf sl n (seg_state seg)" "free_slots sl (seg_state seg) = rev [0..<n]"
    "queued (seg_state seg) = []" "1024 \<le> n" "n \<le> 16384"
    "queue_capacity (ch_queue (channel (seg_state seg))) = 2 ^ k - 1" and k: "n \<le> 2 ^ k" "2 ^ k < 2 * n"
    by (rule initialized_channel [OF assms])
  have "2 ^ k - 1 < n \<longleftrightarrow> (\<exists>j. n = 2 ^ j)"
  proof
    assume "2 ^ k - 1 < n" then show "\<exists>j. n = 2 ^ j" using k(1) by (intro exI [of _ k]) simp
  next
    assume "\<exists>j. n = 2 ^ j"
    then obtain j where j: "n = 2 ^ j" by blast
    have "(2::nat) ^ k < 2 ^ Suc j" using k(2) j by simp
    then have "k < Suc j" by (rule power_less_imp_less_exp [rotated]) simp
    then have "(2::nat) ^ k \<le> 2 ^ j" by (intro power_increasing) simp_all
    then show "2 ^ k - 1 < n" using j c(4) by linarith
  qed
  with c k(1) show ?thesis by simp
qed

lemma example_slot_count:
  "1024 = nat (compute_slot_size (se_config example_startup) (se_max_connections example_startup))"
  "unat (pow2_ceil (of_nat 1024)) = 1024"
   apply (simp add: compute_slot_size_def example_startup_def fga_guc_init_def fga_guc_vars_def
     fga_config_instance_def atoi_def Let_def)
  apply code_simp
  done

lemma example_startup_bounds: "config_bounds (se_config example_startup)"
  by (simp add: example_startup_def config_bounds_init)

theorem startup_channel_ready_witness:
  "\<exists>seg. initialize_state example_platform list_slist example_startup (Some 42) (\<lambda>_. None)
     \<lparr>mem_head = [], mem_slots = replicate 1024 (fresh_slot 0 0),
      mem_queue = example_queue\<lparr>q_values := replicate 1024 0\<rparr>, mem_entries = []\<rparr> = Inr seg \<and>
     chan_wf list_slist 1024 (seg_state seg) \<and> queue_capacity (ch_queue (channel (seg_state seg))) < 1024"
proof -
  let ?mem = "\<lparr>mem_head = [], mem_slots = replicate 1024 (fresh_slot 0 0),
      mem_queue = example_queue\<lparr>q_values := replicate 1024 0\<rparr>, mem_entries = []\<rparr>"
  obtain seg where seg: "initialize_state example_platform list_slist example_startup (Some 42) (\<lambda>_. None) ?mem = Inr seg"
    using example_started by blast
  have "\<exists>k. (1024::nat) = 2 ^ k" by (rule exI [of _ 10]) simp
  with startup_channel_ready [OF list_slist_ok example_startup_bounds seg example_slot_count(1)]
    example_slot_count(2) seg show ?thesis by simp
qed

text \<open>Loading fails unless the module is preloaded; otherwise it defines the variables, chains its
  hooks behind those already there, which run first, and registers the worker. Unloading restores
  the hooks as they were.\<close>

lemma loading_chains_hooks:
  "PG_init requested started getenv preload (cfg, h) =
     (if preload then Inr (fga_guc_init getenv cfg, h\<lparr>
        shmem_request_hook := Some (\<lambda>w. requested (run_prev (shmem_request_hook h) w)),
        shmem_startup_hook := Some (\<lambda>w. started (run_prev (shmem_startup_hook h) w)),
        prev_shmem_request_hook := shmem_request_hook h, prev_shmem_startup_hook := shmem_startup_hook h,
        background_workers := background_workers h + 1\<rparr>) else Inl NotPreloaded)"
  by (simp add: PG_init_def Let_def comp_def)

end
