(* ===== verification/Fdw.thy ===== *)
theory Fdw
  imports Main
begin

text \<open>
  The foreign data wrapper of \<open>src/fdw/\<close>: the options of servers, user mappings and tables
  (\<open>validator.c\<close>, \<open>options.c\<close>), the planner's estimate (\<open>plan.c\<close>), the scan, which so far returns two
  fixed rows (\<open>exec.c\<close>), and the statements of \<open>IMPORT FOREIGN SCHEMA\<close> (\<open>handler.c\<close>).

  PostgreSQL's \<open>quote_identifier\<close> and \<open>pg_strcasecmp\<close> are parameters. An option is a name and its
  argument, \<open>None\<close> when it has none, which \<open>defGetString\<close> refuses. The arrays of a tuple slot have
  as many cells as the table has columns; writing past them is the result \<open>WritePastEnd\<close>.
\<close>

section \<open>Options\<close>

datatype FgaFdwTableKind =
    FGA_FDW_TABLE_KIND_UNKNOWN
  | FGA_FDW_TABLE_KIND_ACL
  | FGA_FDW_TABLE_KIND_TUPLE
  | FGA_FDW_TABLE_KIND_STORE

record FgaFdwTableOptions =
  kind :: FgaFdwTableKind
  endpoint :: "string option"
  store_id :: "string option"
  auth_model_id :: "string option"

record DefElem =
  defname :: string
  defarg :: "string option"

datatype fdw_error =
    OptionWithoutValue string
  | InvalidOption string string
  | OptionRequired string
  | InvalidKind string
  | UnexpectedCatalog
  | FullScan
  | TooFewColumns string nat
  | UnknownTableKind

definition defGetString :: "DefElem \<Rightarrow> fdw_error + string" where
  "defGetString def = (case defarg def of None \<Rightarrow> Inl (OptionWithoutValue (defname def)) | Some v \<Rightarrow> Inr v)"

definition is_blank :: "string option \<Rightarrow> bool" where
  "is_blank str \<longleftrightarrow> str = None \<or> str = Some []"

definition parse_table_kind :: "(string \<Rightarrow> string \<Rightarrow> bool) \<Rightarrow> string \<Rightarrow> FgaFdwTableKind" where
  "parse_table_kind strcaseeq val =
     (if strcaseeq val ''acl'' then FGA_FDW_TABLE_KIND_ACL
      else if strcaseeq val ''tuple'' then FGA_FDW_TABLE_KIND_TUPLE
      else if strcaseeq val ''store'' then FGA_FDW_TABLE_KIND_STORE
      else FGA_FDW_TABLE_KIND_UNKNOWN)"

text \<open>The branches the loops over the server's and the table's options share.\<close>

definition common_option :: "DefElem \<Rightarrow> FgaFdwTableOptions \<Rightarrow> fdw_error + FgaFdwTableOptions" where
  "common_option def opts =
     (if defname def = ''endpoint''
      then (case defGetString def of Inl err \<Rightarrow> Inl err | Inr v \<Rightarrow> Inr (opts\<lparr>endpoint := Some v\<rparr>))
      else if defname def = ''store_id''
      then (case defGetString def of Inl err \<Rightarrow> Inl err | Inr v \<Rightarrow> Inr (opts\<lparr>store_id := Some v\<rparr>))
      else if defname def = ''auth_model_id''
      then (case defGetString def of Inl err \<Rightarrow> Inl err | Inr v \<Rightarrow> Inr (opts\<lparr>auth_model_id := Some v\<rparr>))
      else Inr opts)"

fun server_options :: "DefElem list \<Rightarrow> FgaFdwTableOptions \<Rightarrow> fdw_error + FgaFdwTableOptions" where
  "server_options [] opts = Inr opts"
| "server_options (def # defs) opts =
     (case common_option def opts of Inl err \<Rightarrow> Inl err | Inr opts' \<Rightarrow> server_options defs opts')"

fun table_options :: "(string \<Rightarrow> string \<Rightarrow> bool) \<Rightarrow> DefElem list \<Rightarrow> FgaFdwTableOptions
    \<Rightarrow> fdw_error + FgaFdwTableOptions" where
  "table_options strcaseeq [] opts = Inr opts"
| "table_options strcaseeq (def # defs) opts =
     (case (if defname def = ''kind''
            then (case defGetString def of Inl err \<Rightarrow> Inl err
                  | Inr v \<Rightarrow> Inr (opts\<lparr>kind := parse_table_kind strcaseeq v\<rparr>))
            else common_option def opts) of
        Inl err \<Rightarrow> Inl err | Inr opts' \<Rightarrow> table_options strcaseeq defs opts')"

definition fga_get_table_options :: "(string \<Rightarrow> string \<Rightarrow> bool) \<Rightarrow> DefElem list \<Rightarrow> DefElem list
    \<Rightarrow> fdw_error + FgaFdwTableOptions" where
  "fga_get_table_options strcaseeq fs_options ft_options =
     (case server_options fs_options \<lparr>kind = FGA_FDW_TABLE_KIND_UNKNOWN, endpoint = None,
             store_id = None, auth_model_id = None\<rparr> of
        Inl err \<Rightarrow> Inl err
      | Inr opts1 \<Rightarrow> (case table_options strcaseeq ft_options opts1 of
          Inl err \<Rightarrow> Inl err
        | Inr opts \<Rightarrow>
            if kind opts = FGA_FDW_TABLE_KIND_UNKNOWN then Inl (OptionRequired ''kind'')
            else if is_blank (endpoint opts) then Inl (OptionRequired ''endpoint'')
            else if (kind opts = FGA_FDW_TABLE_KIND_ACL \<or> kind opts = FGA_FDW_TABLE_KIND_TUPLE) \<and>
                    is_blank (store_id opts) then Inl (OptionRequired ''store_id'')
            else Inr opts))"

section \<open>The validator\<close>

fun validate_server_loop :: "DefElem list \<Rightarrow> bool \<Rightarrow> fdw_error + bool" where
  "validate_server_loop [] endpoint_seen = Inr endpoint_seen"
| "validate_server_loop (def # defs) endpoint_seen =
     (if defname def = ''endpoint''
      then (case defGetString def of Inl err \<Rightarrow> Inl err | Inr _ \<Rightarrow> validate_server_loop defs True)
      else if defname def = ''store_id''
      then (case defGetString def of Inl err \<Rightarrow> Inl err | Inr _ \<Rightarrow> validate_server_loop defs endpoint_seen)
      else if defname def = ''auth_model_id''
      then (case defGetString def of Inl err \<Rightarrow> Inl err | Inr _ \<Rightarrow> validate_server_loop defs endpoint_seen)
      else Inl (InvalidOption (defname def) ''SERVER''))"

definition fga_validate_server_options :: "DefElem list \<Rightarrow> fdw_error + unit" where
  "fga_validate_server_options options = (case validate_server_loop options False of
     Inl err \<Rightarrow> Inl err
   | Inr endpoint_seen \<Rightarrow> if \<not> endpoint_seen then Inl (OptionRequired ''endpoint'') else Inr ())"

fun fga_validate_user_mapping_options :: "DefElem list \<Rightarrow> fdw_error + unit" where
  "fga_validate_user_mapping_options [] = Inr ()"
| "fga_validate_user_mapping_options (def # defs) =
     (if defname def = ''bearer_token''
      then (case defGetString def of Inl err \<Rightarrow> Inl err | Inr _ \<Rightarrow> fga_validate_user_mapping_options defs)
      else Inl (InvalidOption (defname def) ''USER MAPPING''))"

fun validate_table_loop :: "DefElem list \<Rightarrow> bool \<Rightarrow> fdw_error + bool" where
  "validate_table_loop [] kind_seen = Inr kind_seen"
| "validate_table_loop (def # defs) kind_seen =
     (if defname def = ''kind''
      then (case defGetString def of Inl err \<Rightarrow> Inl err
            | Inr val \<Rightarrow>
                if val \<noteq> ''acl'' \<and> val \<noteq> ''store'' \<and> val \<noteq> ''tuple'' then Inl (InvalidKind val)
                else validate_table_loop defs True)
      else if defname def = ''store_id''
      then (case defGetString def of Inl err \<Rightarrow> Inl err | Inr _ \<Rightarrow> validate_table_loop defs kind_seen)
      else if defname def = ''auth_model_id''
      then (case defGetString def of Inl err \<Rightarrow> Inl err | Inr _ \<Rightarrow> validate_table_loop defs kind_seen)
      else Inl (InvalidOption (defname def) ''FOREIGN TABLE''))"

definition fga_validate_table_options :: "DefElem list \<Rightarrow> fdw_error + unit" where
  "fga_validate_table_options options = (case validate_table_loop options False of
     Inl err \<Rightarrow> Inl err
   | Inr kind_seen \<Rightarrow> if \<not> kind_seen then Inl (OptionRequired ''kind'') else Inr ())"

datatype catalog = ForeignServerRelation | UserMappingRelation | ForeignTableRelation
  | ForeignDataWrapperRelation | OtherRelation

fun fga_fdw_validator :: "DefElem list \<Rightarrow> catalog \<Rightarrow> fdw_error + unit" where
  "fga_fdw_validator options ForeignServerRelation = fga_validate_server_options options"
| "fga_fdw_validator options UserMappingRelation = fga_validate_user_mapping_options options"
| "fga_fdw_validator options ForeignTableRelation = fga_validate_table_options options"
| "fga_fdw_validator options ForeignDataWrapperRelation = Inr ()"
| "fga_fdw_validator options OtherRelation = Inl UnexpectedCatalog"

section \<open>Planning and scanning\<close>

text \<open>The estimated number of rows; \<open>restricted\<close> is whether the query has a restriction on the table.\<close>

definition fgaGetForeignRelSize :: "FgaFdwTableOptions \<Rightarrow> bool \<Rightarrow> fdw_error + nat" where
  "fgaGetForeignRelSize opts restricted = (case kind opts of
     FGA_FDW_TABLE_KIND_ACL \<Rightarrow> if \<not> restricted then Inl FullScan else Inr 10000
   | FGA_FDW_TABLE_KIND_TUPLE \<Rightarrow> Inr 10000
   | FGA_FDW_TABLE_KIND_STORE \<Rightarrow> Inr 10000
   | FGA_FDW_TABLE_KIND_UNKNOWN \<Rightarrow> Inr 100)"

text \<open>The one path of a scan and its plan. PostgreSQL's \<open>extract_actual_clauses\<close> is a parameter.\<close>

record foreign_path =
  path_rows :: nat
  path_startup_cost :: nat
  path_total_cost :: nat

definition fgaGetForeignPaths :: "nat \<Rightarrow> foreign_path list \<Rightarrow> foreign_path list" where
  "fgaGetForeignPaths baserel_rows pathlist =
     pathlist @ [\<lparr>path_rows = baserel_rows, path_startup_cost = 0, path_total_cost = baserel_rows\<rparr>]"

record ('e, 'p) foreign_scan =
  scan_tlist :: "'e list"
  scan_quals :: "'e list"
  scan_relid :: nat
  scan_outer_plan :: "'p option"

definition fgaGetForeignPlan :: "('c list \<Rightarrow> bool \<Rightarrow> 'e list) \<Rightarrow> nat \<Rightarrow> 'e list \<Rightarrow> 'c list \<Rightarrow> 'p option
    \<Rightarrow> ('e, 'p) foreign_scan" where
  "fgaGetForeignPlan extract_actual_clauses relid tlist scan_clauses outer_plan =
     \<lparr>scan_tlist = tlist, scan_quals = extract_actual_clauses scan_clauses False,
      scan_relid = relid, scan_outer_plan = outer_plan\<rparr>"

datatype datum = ZeroDatum | TextDatum string | BoolDatum bool | TimestampDatum int

record FgaFdwExecState =
  exec_opts :: FgaFdwTableOptions
  row :: nat

datatype scan_result = NoRow | Row "datum list" "bool list" | ScanError fdw_error | WritePastEnd

definition fgaBeginForeignScan :: "FgaFdwTableOptions \<Rightarrow> FgaFdwExecState" where
  "fgaBeginForeignScan opts = \<lparr>exec_opts = opts, row = 0\<rparr>"

text \<open>The values a row starts with, one after the other from the first column.\<close>

definition row_values :: "FgaFdwTableKind \<Rightarrow> nat \<Rightarrow> int \<Rightarrow> datum list" where
  "row_values k r now = (case k of
     FGA_FDW_TABLE_KIND_TUPLE \<Rightarrow>
       (if r = 0 then map TextDatum [''doc'', ''doc:1'', ''user'', ''user:1'', ''viewer'']
        else map TextDatum [''doc'', ''doc:2'', ''user'', ''user:2'', ''viewer''])
   | FGA_FDW_TABLE_KIND_ACL \<Rightarrow>
       (if r = 0 then map TextDatum [''doc'', ''doc:1'', ''user'', ''user:1'', ''viewer''] @ [BoolDatum True, TimestampDatum now]
        else map TextDatum [''doc'', ''doc:2'', ''user'', ''user:2'', ''viewer''] @ [BoolDatum False, TimestampDatum now])
   | FGA_FDW_TABLE_KIND_STORE \<Rightarrow>
       (if r = 0 then map TextDatum [''store:1'', ''First Store''] @ [TimestampDatum now, TimestampDatum now]
        else map TextDatum [''store:2'', ''Second Store''] @ [TimestampDatum now, TimestampDatum now])
   | FGA_FDW_TABLE_KIND_UNKNOWN \<Rightarrow> [])"

definition fgaIterateForeignScan :: "nat \<Rightarrow> int \<Rightarrow> FgaFdwExecState \<Rightarrow> scan_result \<times> FgaFdwExecState" where
  "fgaIterateForeignScan natts now estate =
     (let store = (\<lambda>vs. if natts < length vs then (WritePastEnd, estate)
            else (Row (vs @ replicate (natts - length vs) ZeroDatum) (replicate natts False),
                  estate\<lparr>row := row estate + 1\<rparr>))
      in if 2 \<le> row estate then (NoRow, estate)
         else case kind (exec_opts estate) of
           FGA_FDW_TABLE_KIND_TUPLE \<Rightarrow>
             if natts < 5 then (ScanError (TooFewColumns ''postfga_tuple'' 5), estate)
             else store (row_values FGA_FDW_TABLE_KIND_TUPLE (row estate) now)
         | FGA_FDW_TABLE_KIND_ACL \<Rightarrow>
             if natts < 7 then (ScanError (TooFewColumns ''postfga_acl'' 7), estate)
             else store (row_values FGA_FDW_TABLE_KIND_ACL (row estate) now)
         | FGA_FDW_TABLE_KIND_STORE \<Rightarrow>
             if natts < 2 then (ScanError (TooFewColumns ''postfga_store'' 2), estate)
             else store (row_values FGA_FDW_TABLE_KIND_STORE (row estate) now)
         | FGA_FDW_TABLE_KIND_UNKNOWN \<Rightarrow> (ScanError UnknownTableKind, estate))"

definition fgaReScanForeignScan :: "FgaFdwExecState \<Rightarrow> FgaFdwExecState" where
  "fgaReScanForeignScan estate = estate\<lparr>row := 0\<rparr>"

text \<open>The end of a scan: what is freed, and the node's state. The options of a state are never null.\<close>

definition fgaEndForeignScan :: "FgaFdwExecState option \<Rightarrow> string list \<times> FgaFdwExecState option" where
  "fgaEndForeignScan fdw_state =
     (case fdw_state of None \<Rightarrow> ([], None) | Some estate \<Rightarrow> ([''opts'', ''estate''], None))"

section \<open>Imported tables\<close>

definition column_defs :: "FgaFdwTableKind \<Rightarrow> string list" where
  "column_defs k = (case k of
     FGA_FDW_TABLE_KIND_ACL \<Rightarrow> [''object_type text NOT NULL, '', ''object_id text NOT NULL, '',
       ''subject_type text NOT NULL, '', ''subject_id text NOT NULL, '', ''relation text NOT NULL, '',
       ''allow bool NOT NULL, '', ''evaluated_at timestamptz NOT NULL '']
   | FGA_FDW_TABLE_KIND_STORE \<Rightarrow> [''id text NOT NULL, '', ''name text NOT NULL, '',
       ''created_at timestamptz NOT NULL, '', ''updated_at timestamptz NOT NULL '']
   | FGA_FDW_TABLE_KIND_TUPLE \<Rightarrow> [''object_type text NOT NULL, '', ''object_id text NOT NULL, '',
       ''subject_type text NOT NULL, '', ''subject_id text NOT NULL, '', ''relation text NOT NULL '']
   | FGA_FDW_TABLE_KIND_UNKNOWN \<Rightarrow> [])"

definition kind_name :: "FgaFdwTableKind \<Rightarrow> string" where
  "kind_name k = (case k of FGA_FDW_TABLE_KIND_ACL \<Rightarrow> ''acl'' | FGA_FDW_TABLE_KIND_STORE \<Rightarrow> ''store''
     | FGA_FDW_TABLE_KIND_TUPLE \<Rightarrow> ''tuple'' | FGA_FDW_TABLE_KIND_UNKNOWN \<Rightarrow> [])"

definition fgaImportForeignSchema :: "(string \<Rightarrow> string) \<Rightarrow> string \<Rightarrow> string \<Rightarrow> string list" where
  "fgaImportForeignSchema quote_identifier local_schema server_name =
     map (\<lambda>(table, k).
       ''CREATE FOREIGN TABLE IF NOT EXISTS '' @ quote_identifier local_schema @ ''.'' @
       quote_identifier table @ '' ('' @ concat (column_defs k) @
       '') SERVER '' @ quote_identifier server_name @ '' OPTIONS (kind '' @ [CHR 0x27] @ kind_name k @
       [CHR 0x27] @ '');'')
       [(''fga_acl'', FGA_FDW_TABLE_KIND_ACL), (''fga_store'', FGA_FDW_TABLE_KIND_STORE),
        (''fga_tuple'', FGA_FDW_TABLE_KIND_TUPLE)]"

text \<open>\<open>fdw/schema.c\<close> has the same function with external linkage; here with its string buffer, one
  \<open>appendStringInfo\<close> after the other. Both copies make the same commands.\<close>

definition schema_fgaImportForeignSchema :: "(string \<Rightarrow> string) \<Rightarrow> string \<Rightarrow> string \<Rightarrow> string list" where
  "schema_fgaImportForeignSchema quote_identifier local_schema server_name =
     (let cmds = [];
        buf = ''CREATE FOREIGN TABLE IF NOT EXISTS '' @ quote_identifier local_schema @ ''.'' @
          quote_identifier ''fga_acl'' @ '' ('';
        buf = buf @ ''object_type text NOT NULL, '';
        buf = buf @ ''object_id text NOT NULL, '';
        buf = buf @ ''subject_type text NOT NULL, '';
        buf = buf @ ''subject_id text NOT NULL, '';
        buf = buf @ ''relation text NOT NULL, '';
        buf = buf @ ''allow bool NOT NULL, '';
        buf = buf @ ''evaluated_at timestamptz NOT NULL '';
        buf = buf @ '') SERVER '' @ quote_identifier server_name @ '' OPTIONS (kind '' @ [CHR 0x27] @ ''acl'' @
          [CHR 0x27] @ '');'';
        cmds = cmds @ [buf];
        buf = ''CREATE FOREIGN TABLE IF NOT EXISTS '' @ quote_identifier local_schema @ ''.'' @
          quote_identifier ''fga_store'' @ '' ('';
        buf = buf @ ''id text NOT NULL, '';
        buf = buf @ ''name text NOT NULL, '';
        buf = buf @ ''created_at timestamptz NOT NULL, '';
        buf = buf @ ''updated_at timestamptz NOT NULL '';
        buf = buf @ '') SERVER '' @ quote_identifier server_name @ '' OPTIONS (kind '' @ [CHR 0x27] @ ''store'' @
          [CHR 0x27] @ '');'';
        cmds = cmds @ [buf];
        buf = ''CREATE FOREIGN TABLE IF NOT EXISTS '' @ quote_identifier local_schema @ ''.'' @
          quote_identifier ''fga_tuple'' @ '' ('';
        buf = buf @ ''object_type text NOT NULL, '';
        buf = buf @ ''object_id text NOT NULL, '';
        buf = buf @ ''subject_type text NOT NULL, '';
        buf = buf @ ''subject_id text NOT NULL, '';
        buf = buf @ ''relation text NOT NULL '';
        buf = buf @ '') SERVER '' @ quote_identifier server_name @ '' OPTIONS (kind '' @ [CHR 0x27] @ ''tuple'' @
          [CHR 0x27] @ '');'';
        cmds = cmds @ [buf]
      in cmds)"

lemma import_copies_agree:
  "schema_fgaImportForeignSchema quote_identifier local_schema server_name =
    fgaImportForeignSchema quote_identifier local_schema server_name"
  by (simp add: schema_fgaImportForeignSchema_def fgaImportForeignSchema_def column_defs_def kind_name_def)

section \<open>What validation guarantees\<close>

text \<open>The argument of the last option with a name.\<close>

definition arg_from :: "string option \<Rightarrow> string \<Rightarrow> DefElem list \<Rightarrow> string option" where
  "arg_from old name defs = fold (\<lambda>def acc. if defname def = name then defarg def else acc) defs old"

lemma arg_from_simps [simp]:
  "arg_from old name [] = old"
  "arg_from old name (def # defs) = arg_from (if defname def = name then defarg def else old) name defs"
  "arg_from old name (ds @ es) = arg_from (arg_from old name ds) name es"
  by (simp_all add: arg_from_def)

lemma server_options_validated:
  "validate_server_loop fs seen = Inr seen' \<Longrightarrow>
   server_options fs opts = Inr (opts\<lparr>endpoint := arg_from (endpoint opts) ''endpoint'' fs,
     store_id := arg_from (store_id opts) ''store_id'' fs,
     auth_model_id := arg_from (auth_model_id opts) ''auth_model_id'' fs\<rparr>)"
  by (induction fs arbitrary: seen opts)
    (auto simp: common_option_def defGetString_def split: option.splits if_splits)

lemma kind_arg_validated:
  "validate_table_loop ft seen = Inr seen' \<Longrightarrow>
   arg_from old ''kind'' ft = (case arg_from None ''kind'' ft of None \<Rightarrow> old | Some v \<Rightarrow> Some v)"
proof (induction ft arbitrary: seen old)
  case Nil
  then show ?case by simp
next
  case (Cons def ft)
  then obtain seen2 where l: "validate_table_loop ft seen2 = Inr seen'"
    by (auto simp: defGetString_def split: if_splits option.splits)
  note ih = Cons.IH [OF l]
  show ?case
  proof (cases "defname def = ''kind''")
    case True
    then obtain v where v: "defarg def = Some v" using Cons.prems by (auto simp: defGetString_def split: option.splits)
    show ?thesis using ih [of "Some v"] by (simp add: True v split: option.splits)
  next
    case False
    then show ?thesis using ih [of old] by simp
  qed
qed

lemma table_options_validated:
  "validate_table_loop ft seen = Inr seen' \<Longrightarrow>
   table_options eq ft opts = Inr (opts\<lparr>kind := (case arg_from None ''kind'' ft of
       None \<Rightarrow> kind opts | Some v \<Rightarrow> parse_table_kind eq v),
     store_id := arg_from (store_id opts) ''store_id'' ft,
     auth_model_id := arg_from (auth_model_id opts) ''auth_model_id'' ft\<rparr>)"
proof (induction ft arbitrary: seen opts)
  case Nil
  then show ?case by simp
next
  case (Cons def ft)
  then obtain seen2 where l: "validate_table_loop ft seen2 = Inr seen'"
    by (auto simp: defGetString_def split: if_splits option.splits)
  note ih = Cons.IH [OF l] and ka = kind_arg_validated [OF l]
  show ?case
    using Cons.prems ih ka [of "defarg def"]
    by (auto simp: common_option_def defGetString_def split: option.splits if_splits)
qed

text \<open>The comparison ignores the case of ASCII letters.\<close>

definition ascii_lower :: "char \<Rightarrow> char" where
  "ascii_lower c = (if 65 \<le> (of_char c :: nat) \<and> (of_char c :: nat) \<le> 90 then char_of ((of_char c :: nat) + 32) else c)"

definition strcase_ok :: "(string \<Rightarrow> string \<Rightarrow> bool) \<Rightarrow> bool" where
  "strcase_ok eq \<longleftrightarrow> (\<forall>a b. (\<forall>c \<in> set (a @ b). (of_char c :: nat) < 128) \<longrightarrow>
     (eq a b \<longleftrightarrow> map ascii_lower a = map ascii_lower b))"

lemma parse_kind_name:
  assumes "strcase_ok eq" and "k \<noteq> FGA_FDW_TABLE_KIND_UNKNOWN"
  shows "parse_table_kind eq (kind_name k) = k"
proof -
  have "eq a b \<longleftrightarrow> map ascii_lower a = map ascii_lower b" if "\<forall>c \<in> set (a @ b). (of_char c :: nat) < 128" for a b
    using assms(1) that by (simp add: strcase_ok_def)
  then show ?thesis
    using assms(2) by (cases k) (simp_all add: parse_table_kind_def kind_name_def ascii_lower_def)
qed

lemma validated_kind:
  "validate_table_loop ft seen = Inr seen' \<Longrightarrow> seen' \<noteq> seen \<or> old \<noteq> None \<Longrightarrow>
   (\<forall>v. old = Some v \<longrightarrow> v \<in> {''acl'', ''store'', ''tuple''}) \<Longrightarrow>
   \<exists>k. k \<noteq> FGA_FDW_TABLE_KIND_UNKNOWN \<and> arg_from old ''kind'' ft = Some (kind_name k)"
proof (induction ft arbitrary: seen old)
  case Nil
  then obtain v where v: "old = Some v" "v \<in> {''acl'', ''store'', ''tuple''}" by auto
  from v(2) have "\<exists>k. k \<noteq> FGA_FDW_TABLE_KIND_UNKNOWN \<and> v = kind_name k"
    by (elim insertE) (auto intro: exI [of _ FGA_FDW_TABLE_KIND_ACL] exI [of _ FGA_FDW_TABLE_KIND_STORE]
        exI [of _ FGA_FDW_TABLE_KIND_TUPLE] simp: kind_name_def)
  with v(1) show ?case by auto
next
  case (Cons def ft)
  show ?case
  proof (cases "defname def = ''kind''")
    case True
    then obtain v where v: "defarg def = Some v" "v \<in> {''acl'', ''store'', ''tuple''}"
      and l: "validate_table_loop ft True = Inr seen'"
      using Cons.prems(1) by (auto simp: defGetString_def split: option.splits if_splits)
    from Cons.IH [OF l, of "Some v"] v(2) show ?thesis by (simp add: True v(1))
  next
    case False
    then have "validate_table_loop ft seen = Inr seen'"
      using Cons.prems(1) by (auto simp: defGetString_def split: option.splits if_splits)
    from Cons.IH [OF this Cons.prems(2,3)] False show ?thesis by simp
  qed
qed

section \<open>Properties\<close>

text \<open>C38: When the validator has accepted the options of a server and of a table, reading them fails only
  for an empty endpoint, or for an acl or tuple table without a store: otherwise the kind is the
  one the table names, the endpoint the server's, and the store and model those of the table, or
  of the server where the table has none. An \<open>endpoint\<close> option of the table, which
  \<open>fga_get_table_options\<close> would prefer, never gets past the validator.\<close>

theorem validated_options_usable:
  assumes "strcase_ok strcaseeq" and "fga_fdw_validator fs_options ForeignServerRelation = Inr ()"
    and "fga_fdw_validator ft_options ForeignTableRelation = Inr ()"
  shows "\<exists>k opts. k \<noteq> FGA_FDW_TABLE_KIND_UNKNOWN \<and> arg_from None ''kind'' ft_options = Some (kind_name k) \<and>
    opts = \<lparr>kind = k, endpoint = arg_from None ''endpoint'' fs_options,
      store_id = arg_from None ''store_id'' (fs_options @ ft_options),
      auth_model_id = arg_from None ''auth_model_id'' (fs_options @ ft_options)\<rparr> \<and>
    fga_get_table_options strcaseeq fs_options ft_options =
      (if is_blank (endpoint opts) then Inl (OptionRequired ''endpoint'')
       else if k \<noteq> FGA_FDW_TABLE_KIND_STORE \<and> is_blank (store_id opts) then Inl (OptionRequired ''store_id'')
       else Inr opts)"
proof -
  obtain seen where fs: "validate_server_loop fs_options False = Inr seen"
    using assms(2) by (auto simp: fga_validate_server_options_def split: sum.splits)
  have ft: "validate_table_loop ft_options False = Inr True"
    using assms(3) by (auto simp: fga_validate_table_options_def split: sum.splits if_splits)
  obtain k where k: "k \<noteq> FGA_FDW_TABLE_KIND_UNKNOWN" "arg_from None ''kind'' ft_options = Some (kind_name k)"
    using validated_kind [OF ft, of None] by auto
  show ?thesis
    using k parse_kind_name [OF assms(1) k(1)]
    by (intro exI [of _ k])
      (cases k; simp add: fga_get_table_options_def server_options_validated [OF fs] table_options_validated [OF ft])
qed

definition opt :: "string \<Rightarrow> string \<Rightarrow> DefElem" where
  "opt name v = \<lparr>defname = name, defarg = Some v\<rparr>"

definition strcase_ascii :: "string \<Rightarrow> string \<Rightarrow> bool" where
  "strcase_ascii a b \<longleftrightarrow> map ascii_lower a = map ascii_lower b"

theorem validated_options_usable_witness:
  "\<exists>opts. fga_get_table_options strcase_ascii [opt ''endpoint'' ''a:8081'', opt ''store_id'' ''s1'']
     [opt ''kind'' ''acl'', opt ''store_id'' ''s2''] = Inr opts \<and> store_id opts = Some ''s2'' \<and>
     kind opts = FGA_FDW_TABLE_KIND_ACL"
proof -
  let ?fs = "[opt ''endpoint'' ''a:8081'', opt ''store_id'' ''s1'']"
  let ?ft = "[opt ''kind'' ''acl'', opt ''store_id'' ''s2'']"
  have "strcase_ok strcase_ascii" by (simp add: strcase_ok_def strcase_ascii_def)
  moreover have "fga_fdw_validator ?fs ForeignServerRelation = Inr ()"
    "fga_fdw_validator ?ft ForeignTableRelation = Inr ()"
    by (simp_all add: fga_validate_server_options_def fga_validate_table_options_def opt_def defGetString_def)
  ultimately obtain k opts where "k \<noteq> FGA_FDW_TABLE_KIND_UNKNOWN" "arg_from None ''kind'' ?ft = Some (kind_name k)"
    "opts = \<lparr>kind = k, endpoint = arg_from None ''endpoint'' ?fs, store_id = arg_from None ''store_id'' (?fs @ ?ft),
      auth_model_id = arg_from None ''auth_model_id'' (?fs @ ?ft)\<rparr>"
    "fga_get_table_options strcase_ascii ?fs ?ft = (if is_blank (endpoint opts) then Inl (OptionRequired ''endpoint'')
       else if k \<noteq> FGA_FDW_TABLE_KIND_STORE \<and> is_blank (store_id opts) then Inl (OptionRequired ''store_id'')
       else Inr opts)"
    using validated_options_usable by blast
  then show ?thesis by (cases k) (simp_all add: opt_def kind_name_def is_blank_def)
qed

text \<open>A scan of \<open>n\<close> iterations.\<close>

fun scan :: "nat \<Rightarrow> nat \<Rightarrow> int \<Rightarrow> FgaFdwExecState \<Rightarrow> scan_result list \<times> FgaFdwExecState" where
  "scan 0 natts now estate = ([], estate)"
| "scan (Suc n) natts now estate = (case fgaIterateForeignScan natts now estate of (r, estate1) \<Rightarrow>
     (case scan n natts now estate1 of (rs, estate2) \<Rightarrow> (r # rs, estate2)))"

lemma scan_exhausted: "2 \<le> row estate \<Longrightarrow> scan n natts now estate = (replicate n NoRow, estate)"
  by (induction n) (simp_all add: fgaIterateForeignScan_def)



end
