(* ===== verification/Relation_Bitmap.thy ===== *)
theory Relation_Bitmap
  imports Payload
begin

text \<open>
  The relation bitmap of \<open>src/relation.c\<close>: the parsing of the list of relations and the registration
  of each with a bit. The lookups in the hash table are commented out in the code, so \<open>entry\<close> is an
  uninitialized pointer: here it is an argument, the entry it happens to point to or \<open>None\<close> if it
  happens to be null. \<open>strtok_r\<close> and \<open>strncpy\<close> are the C library's.
\<close>

record RelationBitMapEntry =
  relation_name :: "char list"
  bit_index :: u8

definition no_name :: "string option \<Rightarrow> bool" where
  "no_name name \<longleftrightarrow> (case name of None \<Rightarrow> True | Some s \<Rightarrow> c_str s = [])"

definition get_relation_bit_index :: "RelationBitMapEntry option \<Rightarrow> string option \<Rightarrow> u8" where
  "get_relation_bit_index entry name =
     (if no_name name then 0 else case entry of Some e \<Rightarrow> bit_index e | None \<Rightarrow> 0)"

text \<open>\<open>strncpy(dst, src, n)\<close>: the bytes before the NUL of \<open>src\<close>, padded with NULs.\<close>

definition strncpy :: "char list \<Rightarrow> string \<Rightarrow> nat \<Rightarrow> char list" where
  "strncpy dst src n =
     (let bytes = take n (c_str src) in bytes @ replicate (n - length bytes) NUL @ drop n dst)"

definition register_relation :: "RelationBitMapEntry option \<Rightarrow> string option \<Rightarrow> u8 \<Rightarrow> RelationBitMapEntry option" where
  "register_relation entry name index =
     (if no_name name then entry
      else if 64 \<le> index then entry
      else case entry of
        Some e \<Rightarrow> Some (e\<lparr>relation_name := (strncpy (relation_name e) (the name) (length (relation_name e) - 1))
            [length (relation_name e) - 1 := NUL], bit_index := index\<rparr>)
      | None \<Rightarrow> None)"

text \<open>The tokens of successive \<open>strtok_r(_, ",", _)\<close>: delimiters before a token are skipped.\<close>

function strtok :: "string \<Rightarrow> string list" where
  "strtok s = (case dropWhile (\<lambda>c. c = CHR '','') s of
     [] \<Rightarrow> []
   | c # cs \<Rightarrow> takeWhile (\<lambda>c. c \<noteq> CHR '','') (c # cs) # strtok (dropWhile (\<lambda>c. c \<noteq> CHR '','') (c # cs)))"
  by pat_completeness auto
termination
proof (relation "measure length", goal_cases)
  case 1
  then show ?case by simp
next
  case (2 s c cs)
  have "c \<noteq> CHR '',''" by (metis (mono_tags, lifting) 2 hd_dropWhile list.distinct(1) list.sel(1))
  then have "length (dropWhile (\<lambda>c. c \<noteq> CHR '','') (c # cs)) \<le> length cs"
    using length_dropWhile_le [of "\<lambda>c. c \<noteq> CHR '',''" cs] by simp
  moreover have "Suc (length cs) \<le> length s"
    using length_dropWhile_le [of "\<lambda>c. c = CHR '',''" s] 2 by simp
  ultimately show ?case by simp
qed

declare strtok.simps [simp del]

definition trim :: "string \<Rightarrow> string" where
  "trim token = dropWhile (\<lambda>c. c = CHR '' '' \<or> c = CHR 0x09) token"

text \<open>The loop of \<open>init_relation_bitmap\<close>: the calls of \<open>register_relation\<close> and the final index.\<close>

fun register_tokens :: "string list \<Rightarrow> u8 \<Rightarrow> (string \<times> u8) list \<times> u8" where
  "register_tokens [] index = ([], index)"
| "register_tokens (token # tokens) index =
     (if trim token \<noteq> [] then
        if 64 \<le> index then ([], index)
        else (case register_tokens tokens (index + 1) of (calls, n) \<Rightarrow> ((trim token, index) # calls, n))
      else register_tokens tokens index)"

definition init_relation_bitmap :: "string option \<Rightarrow> (string \<times> u8) list \<times> u8" where
  "init_relation_bitmap relations_str =
     (if no_name relations_str then ([], 0) else register_tokens (strtok (c_str (the relations_str))) 0)"

section \<open>Properties\<close>

fun join_commas :: "string list \<Rightarrow> string" where
  "join_commas [] = []"
| "join_commas [x] = x"
| "join_commas (x # y # xs) = x @ '','' @ join_commas (y # xs)"

definition plain_name :: "string \<Rightarrow> bool" where
  "plain_name n \<longleftrightarrow> n \<noteq> [] \<and> CHR '','' \<notin> set n \<and> NUL \<notin> set n \<and> hd n \<noteq> CHR '' '' \<and> hd n \<noteq> CHR 0x09"

lemma strtok_join: "\<forall>n \<in> set ns. plain_name n \<Longrightarrow> strtok (join_commas ns) = ns"
proof (induction ns rule: join_commas.induct)
  case 1
  show ?case by (simp add: strtok.simps)
next
  case (2 x)
  then obtain c cs where x: "x = c # cs" and nc: "CHR '','' \<notin> set x"
    by (cases x) (auto simp: plain_name_def)
  then have "takeWhile (\<lambda>c. c \<noteq> CHR '','') x = x" "dropWhile (\<lambda>c. c \<noteq> CHR '','') x = []"
    by (auto simp: takeWhile_eq_all_conv)
  moreover have "dropWhile (\<lambda>c. c = CHR '','') x = x" using nc by (auto simp: x)
  moreover have "strtok [] = []" by (simp add: strtok.simps)
  ultimately show ?case by (subst strtok.simps) (simp add: x)
next
  case (3 x y xs)
  then obtain c cs where x: "x = c # cs" and nc: "CHR '','' \<notin> set x"
    by (cases x) (auto simp: plain_name_def)
  let ?r = "join_commas (y # xs)"
  have tw: "takeWhile (\<lambda>c. c \<noteq> CHR '','') (x @ '','' @ ?r) = x" and
    dw: "dropWhile (\<lambda>c. c \<noteq> CHR '','') (x @ '','' @ ?r) = CHR '','' # ?r"
    using nc by (auto simp: takeWhile_append dropWhile_append)
  have dc: "dropWhile (\<lambda>c. c = CHR '','') (x @ '','' @ ?r) = x @ '','' @ ?r" using nc by (auto simp: x)
  have skip: "strtok (CHR '','' # s) = strtok s" for s
    by (subst strtok.simps, subst (2) strtok.simps) simp
  have "strtok (x @ '','' @ ?r) = x # strtok (CHR '','' # ?r)"
    using tw dw nc by (subst strtok.simps) (simp add: dc, auto simp: x)
  then show ?case using 3 by (simp add: skip)
qed

lemma register_tokens_plain:
  "\<forall>n \<in> set ns. plain_name n \<Longrightarrow> k \<le> 64 \<Longrightarrow>
   register_tokens ns (of_nat k) = (zip ns (map of_nat [k..<64]), of_nat (min 64 (k + length ns)))"
proof (induction ns arbitrary: k)
  case Nil
  then show ?case by simp
next
  case (Cons n ns)
  have trim: "trim n = n" "n \<noteq> []" using Cons.prems(1) by (cases n; simp add: trim_def plain_name_def)+
  show ?case
  proof (cases "k = 64")
    case True
    then show ?thesis by (simp add: trim)
  next
    case False
    then have k: "k < 64" using Cons.prems(2) by simp
    then have "\<not> (64 :: u8) \<le> of_nat k" by (simp add: word_le_nat_alt unsigned_of_nat take_bit_eq_mod)
    moreover have "(of_nat k + 1 :: u8) = of_nat (Suc k)" by simp
    ultimately show ?thesis
      using Cons k trim by (simp add: upt_conv_Cons [of k 64] del: of_nat_Suc)
  qed
qed



end
