(* ===== verification/Logger.thy ===== *)
theory Logger
  imports Prelude
begin

text \<open>
  The logging helpers of \<open>src/util/logger.cpp\<close> and \<open>logger.hpp\<close>: the levels of the C++ code, what
  they are for \<open>ereport\<close>, and the functions for each. \<open>ereport\<close> writes the message to the log, or
  raises it when the level is \<open>ERROR\<close> or above; the message is a C string.
\<close>

datatype LogLevel = Debug | Info | Warning | Error

text \<open>PostgreSQL's levels, by their numbers in \<open>elog.h\<close>.\<close>

abbreviation DEBUG1 :: int where "DEBUG1 \<equiv> 14"
abbreviation LOG :: int where "LOG \<equiv> 15"
abbreviation WARNING :: int where "WARNING \<equiv> 19"
abbreviation ERROR :: int where "ERROR \<equiv> 21"

fun to_pg_level :: "LogLevel \<Rightarrow> int" where
  "to_pg_level Debug = DEBUG1"
| "to_pg_level Info = LOG"
| "to_pg_level Warning = WARNING"
| "to_pg_level Error = ERROR"

text \<open>The entries written to the log, or the message raised.\<close>

definition ereport :: "int \<Rightarrow> string \<Rightarrow> string + (int \<times> string) list" where
  "ereport elevel msg = (if ERROR \<le> elevel then Inl msg else Inr [(elevel, msg)])"

definition log_msg :: "LogLevel \<Rightarrow> string \<Rightarrow> string + (int \<times> string) list" where
  "log_msg level msg = (let elevel = to_pg_level level; s = c_str msg in ereport elevel s)"

definition debug :: "string \<Rightarrow> string + (int \<times> string) list" where
  "debug msg = log_msg Debug msg"

definition info :: "string \<Rightarrow> string + (int \<times> string) list" where
  "info msg = log_msg Info msg"

definition warning :: "string \<Rightarrow> string + (int \<times> string) list" where
  "warning msg = log_msg Warning msg"

definition error_msg :: "string \<Rightarrow> string + (int \<times> string) list" where
  "error_msg msg = log_msg Error msg"

text \<open>The levels in the order of their severity.\<close>

instantiation LogLevel :: linorder
begin

definition less_eq_LogLevel :: "LogLevel \<Rightarrow> LogLevel \<Rightarrow> bool" where
  "a \<le> b \<longleftrightarrow> to_pg_level a \<le> to_pg_level b"

definition less_LogLevel :: "LogLevel \<Rightarrow> LogLevel \<Rightarrow> bool" where
  "a < b \<longleftrightarrow> to_pg_level a < to_pg_level b"

instance
proof
  fix a b :: LogLevel
  show "a \<le> b \<Longrightarrow> b \<le> a \<Longrightarrow> a = b"
    by (cases a; cases b) (simp_all add: less_eq_LogLevel_def)
qed (auto simp: less_eq_LogLevel_def less_LogLevel_def)

end

lemma levels_ordered: "Debug < Info" "Info < Warning" "Warning < Error"
  by (simp_all add: less_LogLevel_def)

text \<open>Only \<open>error\<close> leaves by an error; the other functions write one entry, cut at the first null
  character.\<close>

lemma log_msg_raises:
  "log_msg level msg = (if level < Error then Inr [(to_pg_level level, c_str msg)] else Inl (c_str msg))"
  by (cases level) (simp_all add: log_msg_def ereport_def less_LogLevel_def Let_def)

end
